(* ===== verification/Prelude.thy ===== *)
theory Prelude
  imports Main "HOL-Library.Code_Target_Nat" "HOL-Library.Word" "HOL-Library.Sublist" "HOL-Library.Multiset"
begin

text \<open>
  Names and lemmas that every component of the model shares: the machine integers the sources
  use, C++ exceptions as values, and facts about lists that describe a \<open>std::deque\<close> or a
  \<open>std::vector\<close> (front and back removal, keeping the newest elements).
\<close>

section \<open>Machine integers, exceptions, time\<close>

type_synonym u64 = "64 word"
type_synonym u32 = "32 word"
type_synonym byte = "8 word"

text \<open>
  A thrown exception is a value: \<open>Inl\<close> of the exception with its message, \<open>Inr\<close> of the result.
  Only the two exception classes that the sources throw themselves occur.
\<close>

datatype cxx_error = InvalidArgument string | RuntimeError string

type_synonym 'a result = "cxx_error + 'a"

text \<open>
  A \<open>std::chrono::steady_clock\<close> reading is a number of nanoseconds; one second and one
  millisecond are the usual multiples.
\<close>

abbreviation ns_per_s :: nat where "ns_per_s \<equiv> 1000000000"
abbreviation ns_per_ms :: nat where "ns_per_ms \<equiv> 1000000"

section \<open>Fact collections\<close>

text \<open>
  \<open>model_defs\<close> collects the definitions of small non-recursive operations, so that a proof
  which has to look inside all operations of a component unfolds them with one name;
  \<open>inv_rules\<close> collects the preservation facts of the components' invariants.
\<close>

named_theorems model_defs
named_theorems inv_rules

section \<open>Lists as queues\<close>

text \<open>The newest \<open>n\<close> elements of a queue whose front is the oldest one.\<close>

definition newest :: "nat \<Rightarrow> 'a list \<Rightarrow> 'a list" where
  "newest n xs = drop (length xs - n) xs"

lemma newest_short [simp]: "length xs \<le> n \<Longrightarrow> newest n xs = xs"
  by (simp add: newest_def)

lemma newest_full: "length xs = n \<Longrightarrow> 0 < n \<Longrightarrow> newest n (xs @ [x]) = tl xs @ [x]"
  by (cases xs) (auto simp: newest_def)

lemma length_newest [simp]: "length (newest n xs) = min (length xs) n"
  by (simp add: newest_def)

lemma subseq_tl: "subseq xs ys \<Longrightarrow> subseq (tl xs) ys"
  by (cases xs) (auto dest: subseq_Cons')

lemma subseq_snocI: "subseq xs ys \<Longrightarrow> subseq (xs @ [x]) (ys @ [x])"
  by simp

lemma set_butlast_last: "xs \<noteq> [] \<Longrightarrow> set xs = insert (last xs) (set (butlast xs))"
  by (cases xs rule: rev_cases) auto

lemma distinct_last_butlast: "distinct xs \<Longrightarrow> xs \<noteq> [] \<Longrightarrow> last xs \<notin> set (butlast xs)"
  by (cases xs rule: rev_cases) auto

lemma ex_le_Suc: "(\<exists>i \<le> Suc n. P i) \<longleftrightarrow> P 0 \<or> (\<exists>i \<le> n. P (Suc i))"
proof
  assume "\<exists>i \<le> Suc n. P i"
  then obtain i where "i \<le> Suc n" "P i" by blast
  then show "P 0 \<or> (\<exists>i \<le> n. P (Suc i))" by (cases i) auto
qed auto

lemma map_pair_eq:
  "map f xs = map f' ys \<Longrightarrow> map g xs = map g' ys \<Longrightarrow>
     map (\<lambda>x. (f x, g x)) xs = map (\<lambda>y. (f' y, g' y)) ys"
proof (induction xs arbitrary: ys)
  case (Cons x xs)
  then show ?case by (cases ys) auto
qed simp

section \<open>Machines\<close>

text \<open>
  What the runs of a component share: a state, one step for each kind of call or thread, and a run that takes
  the steps of a list. A component that is such a machine gets its invariants from those of its steps.
\<close>

locale step_machine =
  fixes step :: "'c \<Rightarrow> 's \<Rightarrow> 's"
    and run :: "'c list \<Rightarrow> 's \<Rightarrow> 's"
  assumes run_Nil: "run [] s = s"
    and run_Cons: "run (c # cs) s = run cs (step c s)"
begin

lemma machine_append: "run (xs @ ys) s = run ys (run xs s)"
  by (induction xs arbitrary: s) (simp_all add: run_Nil run_Cons)

lemma machine_invariant: "P s \<Longrightarrow> (\<And>c s. P s \<Longrightarrow> P (step c s)) \<Longrightarrow> P (run cs s)"
  by (induction cs arbitrary: s) (simp_all add: run_Nil run_Cons)

lemma machine_keeps: "(\<And>c s. c \<in> set cs \<Longrightarrow> f (step c s) = f s) \<Longrightarrow> f (run cs s) = f s"
  by (induction cs arbitrary: s) (simp_all add: run_Nil run_Cons)

end

end
