(* ===== verification/BoundedQueue.thy ===== *)
theory BoundedQueue
  imports Prelude
begin

text \<open>
  The bounded queue of \<open>core/ipc/BoundedQueue.h\<close>: every operation runs under the queue's mutex,
  so an operation is one atomic function on the queue's state. A pop is the part of the code
  after its wait; the wait itself is modelled in \<open>QueueMonitor\<close>.
\<close>

section \<open>State and operations\<close>

text \<open>
  \<open>q_\<close> is a \<open>std::deque\<close> whose front is the head of the list. \<open>dropped_\<close> only ever grows, so it
  keeps its machine width; \<open>capacity_\<close> and \<open>high_\<close> are bounded by the capacity.
\<close>

record 'a bqueue =
  bq_capacity :: nat
  bq_dropped :: u64
  bq_high :: nat
  bq_closed :: bool
  bq_q :: "'a list"

definition BoundedQueue :: "nat \<Rightarrow> 'a bqueue result" where
  "BoundedQueue n =
     (if n = 0 then Inl (InvalidArgument ''zero queue capacity'')
      else Inr \<lparr>bq_capacity = n, bq_dropped = 0, bq_high = 0, bq_closed = False, bq_q = []\<rparr>)"

definition pushLatest :: "'a bqueue \<Rightarrow> 'a \<Rightarrow> bool \<times> 'a bqueue" where
  "pushLatest s item =
     (if bq_closed s then (False, s)
      else
        let s1 = (if length (bq_q s) = bq_capacity s
                  then s\<lparr>bq_q := tl (bq_q s), bq_dropped := bq_dropped s + 1\<rparr> else s);
            s2 = s1\<lparr>bq_q := bq_q s1 @ [item]\<rparr>
        in (True, s2\<lparr>bq_high := max (bq_high s2) (length (bq_q s2))\<rparr>))"

definition tryPush :: "'a bqueue \<Rightarrow> 'a \<Rightarrow> bool \<times> 'a bqueue" where
  "tryPush s item =
     (if bq_closed s \<or> length (bq_q s) = bq_capacity s then (False, s)
      else
        let s1 = s\<lparr>bq_q := bq_q s @ [item]\<rparr>
        in (True, s1\<lparr>bq_high := max (bq_high s1) (length (bq_q s1))\<rparr>))"

definition pop :: "'a bqueue \<Rightarrow> 'a option \<times> 'a bqueue" where
  "pop s = (case bq_q s of [] \<Rightarrow> (None, s) | x # xs \<Rightarrow> (Some x, s\<lparr>bq_q := xs\<rparr>))"

definition popLatest :: "'a bqueue \<Rightarrow> 'a option \<times> 'a bqueue" where
  "popLatest s =
     (if bq_q s = [] then (None, s)
      else (Some (last (bq_q s)),
            s\<lparr>bq_dropped := bq_dropped s + of_nat (length (bq_q s) - 1), bq_q := []\<rparr>))"

definition q_clear :: "'a bqueue \<Rightarrow> 'a bqueue" where
  "q_clear s = s\<lparr>bq_q := []\<rparr>"

definition q_close :: "bool \<Rightarrow> 'a bqueue \<Rightarrow> 'a bqueue" where
  "q_close discard s =
     (let s1 = s\<lparr>bq_closed := True\<rparr> in if discard then s1\<lparr>bq_q := []\<rparr> else s1)"

definition q_closed :: "'a bqueue \<Rightarrow> bool" where
  "q_closed s = bq_closed s"

definition q_size :: "'a bqueue \<Rightarrow> nat" where
  "q_size s = length (bq_q s)"

definition q_dropped :: "'a bqueue \<Rightarrow> u64" where
  "q_dropped s = bq_dropped s"

definition highWatermark :: "'a bqueue \<Rightarrow> nat" where
  "highWatermark s = bq_high s"

lemmas bq_defs [model_defs] = pushLatest_def tryPush_def pop_def popLatest_def q_clear_def
  q_close_def q_closed_def q_size_def q_dropped_def highWatermark_def Let_def

section \<open>The queue invariant\<close>

text \<open>
  The queue never holds more than its capacity, and the high-water mark lies between the present
  length and the capacity.
\<close>

definition bq_wf :: "'a bqueue \<Rightarrow> bool" where
  "bq_wf s \<longleftrightarrow> 0 < bq_capacity s \<and> length (bq_q s) \<le> bq_high s \<and> bq_high s \<le> bq_capacity s"

lemma bq_wf_init: "BoundedQueue n = Inr s \<Longrightarrow> bq_wf s \<and> bq_q s = [] \<and> bq_capacity s = n"
  by (auto simp: BoundedQueue_def bq_wf_def split: if_splits)

lemma bq_wf_pushLatest [inv_rules]: "bq_wf s \<Longrightarrow> bq_wf (snd (pushLatest s x))"
  by (auto simp: bq_wf_def bq_defs)

lemma bq_wf_tryPush [inv_rules]: "bq_wf s \<Longrightarrow> bq_wf (snd (tryPush s x))"
  by (auto simp: bq_wf_def bq_defs)

lemma bq_wf_pop [inv_rules]: "bq_wf s \<Longrightarrow> bq_wf (snd (pop s))"
  by (auto simp: bq_wf_def bq_defs split: list.splits)

lemma bq_wf_popLatest [inv_rules]: "bq_wf s \<Longrightarrow> bq_wf (snd (popLatest s))"
  by (auto simp: bq_wf_def bq_defs)

text \<open>What each operation does to the queue's contents, on every branch.\<close>

lemma pushLatest_q:
  "bq_wf s \<Longrightarrow> \<not> bq_closed s \<Longrightarrow> bq_q (snd (pushLatest s x)) = newest (bq_capacity s) (bq_q s @ [x])"
  by (auto simp: bq_wf_def bq_defs newest_full)

lemma pushLatest_frame [simp]:
  "bq_capacity (snd (pushLatest s x)) = bq_capacity s"
  "bq_closed (snd (pushLatest s x)) = bq_closed s"
  "fst (pushLatest s x) \<longleftrightarrow> \<not> bq_closed s"
  "bq_closed s \<Longrightarrow> snd (pushLatest s x) = s"
  by (auto simp: bq_defs)

lemma pushLatest_dropped:
  "bq_wf s \<Longrightarrow> \<not> bq_closed s \<Longrightarrow>
     bq_dropped (snd (pushLatest s x)) =
       bq_dropped s + (if length (bq_q s) = bq_capacity s then 1 else 0)"
  by (auto simp: bq_defs)

lemma tryPush_q:
  "bq_q (snd (tryPush s x)) = bq_q s @ (if fst (tryPush s x) then [x] else [])"
  by (auto simp: bq_defs)

lemma tryPush_frame [simp]:
  "bq_capacity (snd (tryPush s x)) = bq_capacity s"
  "bq_closed (snd (tryPush s x)) = bq_closed s"
  "bq_dropped (snd (tryPush s x)) = bq_dropped s"
  "fst (tryPush s x) \<longleftrightarrow> \<not> bq_closed s \<and> length (bq_q s) \<noteq> bq_capacity s"
  "\<not> fst (tryPush s x) \<Longrightarrow> snd (tryPush s x) = s"
  by (auto simp: bq_defs)

lemma pop_eq: "bq_q s = x # xs \<Longrightarrow> pop s = (Some x, s\<lparr>bq_q := xs\<rparr>)" "bq_q s = [] \<Longrightarrow> pop s = (None, s)"
  by (simp_all add: pop_def)

lemma pop_frame [simp]:
  "bq_capacity (snd (pop s)) = bq_capacity s"
  "bq_closed (snd (pop s)) = bq_closed s"
  "bq_dropped (snd (pop s)) = bq_dropped s"
  "bq_q (snd (pop s)) = tl (bq_q s)"
  "fst (pop s) = (if bq_q s = [] then None else Some (hd (bq_q s)))"
  by (auto simp: bq_defs split: list.splits)

lemma popLatest_frame [simp]:
  "bq_capacity (snd (popLatest s)) = bq_capacity s"
  "bq_closed (snd (popLatest s)) = bq_closed s"
  "bq_dropped (snd (popLatest s)) = bq_dropped s + of_nat (length (bq_q s) - 1)"
  "bq_q (snd (popLatest s)) = []"
  "fst (popLatest s) = (if bq_q s = [] then None else Some (last (bq_q s)))"
  by (auto simp: bq_defs)

section \<open>The channel interface\<close>

text \<open>
  The program uses the queue in three combinations: \<open>pushLatest\<close>/\<open>popLatest\<close> for inference
  frames, \<open>pushLatest\<close>/\<open>pop\<close> for video frames and \<open>tryPush\<close>/\<open>pop\<close> for snapshot jobs and encoded
  packets. Their clients rely on the same promises: an accepted item goes to the end, other items
  may only disappear, a take returns an item that precedes everything left behind, and control
  calls (clear, close) only remove. \<open>bounded_channel\<close> states these promises once.
\<close>

datatype 'a chan_ev = Put 'a | Take | Ctl_clear | Ctl_close bool

datatype bq_ctl = Clear | Close bool

fun bq_control :: "bq_ctl \<Rightarrow> 'a bqueue \<Rightarrow> 'a bqueue" where
  "bq_control Clear s = q_clear s"
| "bq_control (Close discard) s = q_close discard s"

lemma bq_control_frame [simp]:
  "bq_capacity (bq_control c s) = bq_capacity s"
  "bq_dropped (bq_control c s) = bq_dropped s"
  "bq_closed s \<Longrightarrow> bq_closed (bq_control c s)"
  by (cases c; simp add: bq_defs)+

lemma bq_wf_control [inv_rules]: "bq_wf s \<Longrightarrow> bq_wf (bq_control c s)"
  by (cases c) (auto simp: bq_wf_def bq_defs)

lemma bq_control_q: "bq_q (bq_control c s) = bq_q s \<or> bq_q (bq_control c s) = []"
  by (cases c) (auto simp: bq_defs)

text \<open>
  A run of a channel: the items its puts accepted, the items its takes delivered, both in order,
  and the final state.
\<close>

fun chan_run :: "('q \<Rightarrow> 'a \<Rightarrow> bool \<times> 'q) \<Rightarrow> ('q \<Rightarrow> 'a option \<times> 'q) \<Rightarrow> (bq_ctl \<Rightarrow> 'q \<Rightarrow> 'q)
    \<Rightarrow> 'q \<Rightarrow> 'a chan_ev list \<Rightarrow> 'a list \<times> 'a list \<times> 'q" where
  "chan_run put tk ctl s [] = ([], [], s)"
| "chan_run put tk ctl s (Put x # es) =
     (let (ok, s1) = put s x; (acc, del, f) = chan_run put tk ctl s1 es
      in (if ok then x # acc else acc, del, f))"
| "chan_run put tk ctl s (Take # es) =
     (let (r, s1) = tk s; (acc, del, f) = chan_run put tk ctl s1 es
      in (acc, case r of None \<Rightarrow> del | Some x \<Rightarrow> x # del, f))"
| "chan_run put tk ctl s (Ctl_clear # es) = chan_run put tk ctl (ctl Clear s) es"
| "chan_run put tk ctl s (Ctl_close d # es) = chan_run put tk ctl (ctl (Close d) s) es"

locale bounded_channel =
  fixes put :: "'q \<Rightarrow> 'a \<Rightarrow> bool \<times> 'q"
    and tk :: "'q \<Rightarrow> 'a option \<times> 'q"
    and ctl :: "bq_ctl \<Rightarrow> 'q \<Rightarrow> 'q"
    and items :: "'q \<Rightarrow> 'a list"
    and cap :: "'q \<Rightarrow> nat"
    and wf :: "'q \<Rightarrow> bool"
  assumes wf_put: "wf s \<Longrightarrow> wf (snd (put s x))"
    and wf_take: "wf s \<Longrightarrow> wf (snd (tk s))"
    and wf_ctl: "wf s \<Longrightarrow> wf (ctl c s)"
    and cap_const: "cap (snd (put s x)) = cap s" "cap (snd (tk s)) = cap s" "cap (ctl c s) = cap s"
    and items_bounded: "wf s \<Longrightarrow> length (items s) \<le> cap s"
    and put_accept: "wf s \<Longrightarrow> fst (put s x) \<Longrightarrow> \<exists>ys. items (snd (put s x)) = ys @ [x] \<and> subseq ys (items s)"
    and put_reject: "wf s \<Longrightarrow> \<not> fst (put s x) \<Longrightarrow> items (snd (put s x)) = items s"
    and take_none: "wf s \<Longrightarrow> fst (tk s) = None \<Longrightarrow> items (snd (tk s)) = items s"
    and take_some: "wf s \<Longrightarrow> fst (tk s) = Some x \<Longrightarrow> subseq (x # items (snd (tk s))) (items s)"
    and ctl_items: "wf s \<Longrightarrow> subseq (items (ctl c s)) (items s)"
begin

lemma ctl_step:
  assumes "wf s" and "subseq (del @ items f) (items (ctl c s) @ acc) \<and> wf f \<and> cap f = cap (ctl c s)"
  shows "subseq (del @ items f) (items s @ acc) \<and> wf f \<and> cap f = cap s"
proof -
  have "subseq (items (ctl c s) @ acc) (items s @ acc)"
    using ctl_items [OF assms(1)] by (rule subseq_append [THEN iffD2])
  with assms(2) show ?thesis using cap_const(3) subseq_order.order_trans by metis
qed

lemma run_ordered:
  "wf s \<Longrightarrow> chan_run put tk ctl s es = (acc, del, f) \<Longrightarrow>
     subseq (del @ items f) (items s @ acc) \<and> wf f \<and> cap f = cap s"
proof (induction es arbitrary: s acc del)
  case Nil
  then show ?case by simp
next
  case (Cons e es)
  show ?case
  proof (cases e)
    case (Put x)
    obtain ok s1 where p: "put s x = (ok, s1)" by fastforce
    obtain acc1 del1 where r: "chan_run put tk ctl s1 es = (acc1, del1, f)" "del = del1"
        "acc = (if ok then x # acc1 else acc1)"
      using Cons.prems Put p by (auto split: prod.splits)
    have wf1: "wf s1" using wf_put [OF Cons.prems(1), of x] p by simp
    have IH: "subseq (del1 @ items f) (items s1 @ acc1) \<and> wf f \<and> cap f = cap s1"
      using Cons.IH [OF wf1 r(1)] .
    have "subseq (items s1 @ acc1) (items s @ acc)"
    proof (cases ok)
      case True
      then obtain ys where ys: "items s1 = ys @ [x]" "subseq ys (items s)"
        using put_accept [OF Cons.prems(1), of x] p by auto
      then show ?thesis using True r(3) by (auto intro: list_emb_append_mono)
    next
      case False
      then show ?thesis using put_reject [OF Cons.prems(1), of x] p r(3) by simp
    qed
    then have "subseq (del @ items f) (items s @ acc)"
      using IH r(2) subseq_order.order_trans by blast
    with IH show ?thesis using cap_const(1) [of s x] p by simp
  next
    case Take
    obtain o1 s1 where p: "tk s = (o1, s1)" by fastforce
    obtain del1 where r: "chan_run put tk ctl s1 es = (acc, del1, f)"
        "del = (case o1 of None \<Rightarrow> del1 | Some x \<Rightarrow> x # del1)"
      using Cons.prems Take p by (auto split: prod.splits)
    have wf1: "wf s1" using wf_take [OF Cons.prems(1)] p by simp
    have IH: "subseq (del1 @ items f) (items s1 @ acc) \<and> wf f \<and> cap f = cap s1"
      using Cons.IH [OF wf1 r(1)] .
    have "subseq (del @ items f) (items s @ acc)"
    proof (cases o1)
      case None
      then show ?thesis using take_none [OF Cons.prems(1)] p r(2) IH by simp
    next
      case (Some x)
      then have "subseq (x # items s1) (items s)" using take_some [OF Cons.prems(1), of x] p by simp
      then have "subseq ((x # items s1) @ acc) (items s @ acc)" by (rule subseq_append [THEN iffD2])
      moreover have "subseq ((x # del1) @ items f) ((x # items s1) @ acc)" using IH by simp
      ultimately have "subseq ((x # del1) @ items f) (items s @ acc)"
        using subseq_order.order_trans by blast
      then show ?thesis using Some r(2) by simp
    qed
    with IH show ?thesis using cap_const(2) [of s] p by simp
  next
    case Ctl_clear
    have "chan_run put tk ctl (ctl Clear s) es = (acc, del, f)" using Cons.prems Ctl_clear by simp
    from Cons.IH [OF wf_ctl [OF Cons.prems(1)] this] show ?thesis
      by (rule ctl_step [OF Cons.prems(1)])
  next
    case (Ctl_close d)
    have "chan_run put tk ctl (ctl (Close d) s) es = (acc, del, f)" using Cons.prems Ctl_close by simp
    from Cons.IH [OF wf_ctl [OF Cons.prems(1)] this] show ?thesis
      by (rule ctl_step [OF Cons.prems(1)])
  qed
qed

end

text \<open>The three ways the program uses the queue are channels.\<close>

lemma pushLatest_accept:
  "bq_wf s \<Longrightarrow> \<not> bq_closed s \<Longrightarrow>
     \<exists>ys. bq_q (snd (pushLatest s x)) = ys @ [x] \<and> subseq ys (bq_q s)"
  by (auto simp: bq_defs bq_wf_def intro: subseq_tl)

lemma control_subseq: "subseq (bq_q (bq_control c s)) (bq_q s)"
  using bq_control_q [of c s] by auto

lemma bq_bounded: "bq_wf s \<Longrightarrow> length (bq_q s) \<le> bq_capacity s"
  by (auto simp: bq_wf_def)

lemma subseq_last: "xs \<noteq> [] \<Longrightarrow> subseq [last xs] xs"
  by (cases xs rule: rev_cases) auto

lemmas channel_rules = inv_rules pushLatest_accept control_subseq bq_bounded subseq_last

interpretation latest: bounded_channel pushLatest popLatest bq_control bq_q bq_capacity bq_wf
  by unfold_locales
    (auto intro: channel_rules split: if_splits)

interpretation stream: bounded_channel pushLatest pop bq_control bq_q bq_capacity bq_wf
  by unfold_locales
    (auto intro: channel_rules split: if_splits)

interpretation jobs: bounded_channel tryPush pop bq_control bq_q bq_capacity bq_wf
  by unfold_locales
    (auto intro: channel_rules simp: tryPush_q split: if_splits)

section \<open>Properties of the queue\<close>

text \<open>Pushing a whole list of items, as a producer does while nobody consumes.\<close>

definition push_all :: "'a list \<Rightarrow> 'a bqueue \<Rightarrow> 'a bqueue" where
  "push_all xs s = fold (\<lambda>x q. snd (pushLatest q x)) xs s"

lemma newest_newest_snoc: "newest n (newest n xs @ [x]) = newest n (xs @ [x])"
  by (cases "length xs \<le> n") (auto simp: newest_def Suc_diff_le)

lemma push_all_q:
  "bq_wf s \<Longrightarrow> \<not> bq_closed s \<Longrightarrow>
     bq_q (push_all xs s) = newest (bq_capacity s) (bq_q s @ xs) \<and>
     bq_dropped (push_all xs s) =
       bq_dropped s + of_nat (length (bq_q s) + length xs - bq_capacity s) \<and>
     bq_wf (push_all xs s) \<and> bq_capacity (push_all xs s) = bq_capacity s"
proof (induction xs rule: rev_induct)
  case Nil
  then show ?case by (simp add: push_all_def bq_bounded)
next
  case (snoc x xs)
  let ?s = "push_all xs s"
  have step: "push_all (xs @ [x]) s = snd (pushLatest ?s x)" by (simp add: push_all_def)
  have opened: "\<not> bq_closed ?s" using snoc.prems(2)
    by (simp add: push_all_def) (induction xs arbitrary: s; simp)
  have IH: "bq_q ?s = newest (bq_capacity s) (bq_q s @ xs)" "bq_wf ?s"
      "bq_capacity ?s = bq_capacity s"
      "bq_dropped ?s = bq_dropped s + of_nat (length (bq_q s) + length xs - bq_capacity s)"
    using snoc by auto
  have len: "length (bq_q ?s) = min (length (bq_q s) + length xs) (bq_capacity s)"
    using IH(1) by simp
  show ?case
    using pushLatest_q [OF IH(2) opened, of x] pushLatest_dropped [OF IH(2) opened, of x]
      bq_wf_pushLatest [OF IH(2), of x] IH len newest_newest_snoc [of "bq_capacity s" "bq_q s @ xs" x]
    by (auto simp: step Suc_diff_le min_def split: if_splits)
qed

text \<open>An inference queue of capacity \<open>n\<close> that receives the frames \<open>xs\<close> holds exactly the
  newest \<open>n\<close> of them, in order, and has counted every other frame as dropped; the next
  \<open>popLatest\<close> returns the last frame pushed, leaves the queue empty and brings the drop counter
  to everything but that frame.\<close>

theorem pushLatest_keeps_newest:
  assumes "BoundedQueue n = Inr s0" and "xs \<noteq> []"
  shows "bq_q (push_all xs s0) = newest n xs \<and>
         q_dropped (push_all xs s0) = of_nat (length xs - n) \<and>
         fst (popLatest (push_all xs s0)) = Some (last xs) \<and>
         bq_q (snd (popLatest (push_all xs s0))) = [] \<and>
         q_dropped (snd (popLatest (push_all xs s0))) = of_nat (length xs - 1)"
proof -
  have s0: "bq_wf s0" "bq_q s0 = []" "bq_capacity s0 = n" "\<not> bq_closed s0" "bq_dropped s0 = 0" "0 < n"
    using assms(1) by (auto simp: BoundedQueue_def bq_wf_def split: if_splits)
  then have push: "bq_q (push_all xs s0) = newest n xs"
      "bq_dropped (push_all xs s0) = of_nat (length xs - n)"
    using push_all_q [OF s0(1,4), of xs] by simp_all
  have short: "length xs - n < length xs" using assms(2) s0(6) by (cases xs) auto
  then have ne: "newest n xs \<noteq> []" and lst: "last (newest n xs) = last xs"
    by (simp_all add: newest_def)
  have arith: "length xs - n + (min (length xs) n - 1) = length xs - 1"
    using short s0(6) by (auto simp: min_def)
  have count: "bq_dropped (snd (popLatest (push_all xs s0))) = of_nat (length xs - 1)"
    using arg_cong [OF arith, of "of_nat :: nat \<Rightarrow> u64"] by (simp add: push)
  show ?thesis using push ne lst count by (simp add: q_dropped_def)
qed

theorem pushLatest_keeps_newest_witness:
  "\<exists>s0. BoundedQueue 3 = Inr s0 \<and> bq_q (push_all [1, 2, 3, 4, 5 :: nat] s0) = [3, 4, 5]
     \<and> q_dropped (push_all [1, 2, 3, 4, 5] s0) = 2
     \<and> fst (popLatest (push_all [1, 2, 3, 4, 5] s0)) = Some 5"
proof -
  obtain s0 :: "nat bqueue" where s0: "BoundedQueue 3 = Inr s0" by (simp add: BoundedQueue_def)
  have ne: "[1, 2, 3, 4, 5 :: nat] \<noteq> []" by simp
  from pushLatest_keeps_newest [OF s0 ne] s0 show ?thesis by (auto simp: newest_def)
qed

text \<open>C26: In each of the three ways the program uses the queue (inference frames, video frames,
  jobs and packets), whatever is pushed, taken, cleared or closed, and in whatever order: the
  items delivered so far followed by the items still queued form a subsequence of the items the
  pushes accepted, so nothing is duplicated, invented or reordered; and the queue never holds more
  than its capacity.\<close>

theorem channels_ordered_and_bounded:
  assumes "BoundedQueue n = Inr s0"
    and "(put, tk) \<in> {(pushLatest, popLatest), (pushLatest, pop), (tryPush, pop)}"
    and "chan_run put tk bq_control s0 es = (acc, del, f)"
  shows "subseq (del @ bq_q f) acc \<and> q_size f \<le> n"
proof -
  have s0: "bq_wf s0" "bq_q s0 = []" "bq_capacity s0 = n" using bq_wf_init [OF assms(1)] by auto
  have "subseq (del @ bq_q f) (bq_q s0 @ acc) \<and> bq_wf f \<and> bq_capacity f = bq_capacity s0"
    using assms(2,3) latest.run_ordered [OF s0(1)] stream.run_ordered [OF s0(1)]
      jobs.run_ordered [OF s0(1)] by blast
  then show ?thesis using bq_bounded [of f] s0(2,3) by (simp add: q_size_def)
qed

theorem channels_ordered_and_bounded_witness:
  "\<exists>s0 f. BoundedQueue 2 = Inr s0 \<and>
     chan_run pushLatest pop bq_control s0 [Put (1::nat), Put 2, Put 3, Take, Ctl_close False, Put 4]
       = ([1, 2, 3], [2], f) \<and> subseq ([2] @ bq_q f) [1, 2, 3] \<and> bq_q f = [3]"
proof -
  let ?es = "[Put (1::nat), Put 2, Put 3, Take, Ctl_close False, Put 4]"
  let ?s0 = "\<lparr>bq_capacity = 2, bq_dropped = 0, bq_high = 0, bq_closed = False, bq_q = []\<rparr> :: nat bqueue"
  let ?f = "\<lparr>bq_capacity = 2, bq_dropped = 1, bq_high = 2, bq_closed = True, bq_q = [3]\<rparr> :: nat bqueue"
  have s0: "BoundedQueue 2 = Inr ?s0" by (simp add: BoundedQueue_def)
  have run: "chan_run pushLatest pop bq_control ?s0 ?es = ([1, 2, 3], [2], ?f)"
    by (simp add: bq_defs)
  have "subseq ([2 :: nat] @ bq_q ?f) [1, 2, 3]"
    by (rule conjunct1 [OF channels_ordered_and_bounded [OF s0 _ run]]) simp
  with s0 run show ?thesis by (intro exI [of _ ?s0] exI [of _ ?f] conjI) simp_all
qed

text \<open>
  Accounting. \<open>bq_exec\<close> runs any mix of operations and counts, beside the queue, the items accepted,
  delivered to a consumer, and discarded by a clear or a close.
\<close>

datatype 'a bq_op = PushLatest 'a | TryPush 'a | Pop | PopLatest | Control bq_ctl

record bq_stats =
  n_accepted :: nat
  n_delivered :: nat
  n_discarded :: nat

fun bq_exec :: "'a bq_op \<Rightarrow> 'a bqueue \<times> bq_stats \<Rightarrow> 'a bqueue \<times> bq_stats" where
  "bq_exec (PushLatest x) (s, c) =
     (snd (pushLatest s x), c\<lparr>n_accepted := n_accepted c + of_bool (fst (pushLatest s x))\<rparr>)"
| "bq_exec (TryPush x) (s, c) =
     (snd (tryPush s x), c\<lparr>n_accepted := n_accepted c + of_bool (fst (tryPush s x))\<rparr>)"
| "bq_exec Pop (s, c) =
     (snd (pop s), c\<lparr>n_delivered := n_delivered c + of_bool (fst (pop s) \<noteq> None)\<rparr>)"
| "bq_exec PopLatest (s, c) =
     (snd (popLatest s), c\<lparr>n_delivered := n_delivered c + of_bool (fst (popLatest s) \<noteq> None)\<rparr>)"
| "bq_exec (Control k) (s, c) =
     (bq_control k s,
      c\<lparr>n_discarded := n_discarded c + (length (bq_q s) - length (bq_q (bq_control k s)))\<rparr>)"

definition bq_balance :: "'a bqueue \<times> bq_stats \<Rightarrow> bool" where
  "bq_balance = (\<lambda>(s, c). bq_wf s \<and>
     (of_nat (n_accepted c) :: u64) =
       bq_dropped s + of_nat (n_delivered c + n_discarded c + length (bq_q s)))"

lemma bq_balance_step: "bq_balance sc \<Longrightarrow> bq_balance (bq_exec op sc)"
proof (cases sc)
  case (Pair s c)
  assume bal: "bq_balance sc"
  then have wf: "bq_wf s" using Pair by (simp add: bq_balance_def)
  show ?thesis
  proof (cases op)
    case (PushLatest x)
    then show ?thesis using bal Pair bq_wf_pushLatest [OF wf, of x]
      by (cases "bq_q s") (auto simp: bq_balance_def pushLatest_def Let_def bq_wf_def)
  next
    case (TryPush x)
    then show ?thesis using bal Pair bq_wf_tryPush [OF wf, of x]
      by (auto simp: bq_balance_def tryPush_q)
  next
    case Pop
    then show ?thesis using bal Pair bq_wf_pop [OF wf]
      by (cases "bq_q s") (auto simp: bq_balance_def)
  next
    case PopLatest
    then show ?thesis using bal Pair bq_wf_popLatest [OF wf]
      by (cases "bq_q s") (auto simp: bq_balance_def)
  next
    case (Control k)
    then show ?thesis using bal Pair bq_wf_control [OF wf, of k] bq_control_q [of k s]
      by (auto simp: bq_balance_def)
  qed
qed

text \<open>Under every sequence of operations on a new queue, each item a push accepted is accounted
  for exactly once: it was delivered to a consumer, counted in \<open>dropped_\<close>, thrown away by a
  \<open>clear\<close> or a discarding \<open>close\<close>, or is still queued (in the 64-bit arithmetic of the counter).\<close>

theorem queue_accounting:
  assumes "BoundedQueue n = Inr s0"
    and "fold bq_exec ops (s0, \<lparr>n_accepted = 0, n_delivered = 0, n_discarded = 0\<rparr>) = (s, c)"
  shows "of_nat (n_accepted c) =
           q_dropped s + of_nat (n_delivered c + n_discarded c + q_size s)"
proof -
  have "bq_balance (fold bq_exec ops sc)" if "bq_balance sc" for sc :: "'a bqueue \<times> bq_stats"
    using that by (induction ops arbitrary: sc) (simp_all add: bq_balance_step)
  moreover have "bq_balance (s0, \<lparr>n_accepted = 0, n_delivered = 0, n_discarded = 0\<rparr>)"
    using assms(1) by (auto simp: bq_balance_def bq_wf_def BoundedQueue_def split: if_splits)
  ultimately have "bq_balance (s, c)" using assms(2) by metis
  then show ?thesis by (simp add: bq_balance_def q_dropped_def q_size_def)
qed

theorem queue_accounting_witness:
  "\<exists>s c. fold bq_exec [PushLatest (7::nat), PushLatest 8, PushLatest 9, Pop, TryPush 10, Control Clear]
      (\<lparr>bq_capacity = 2, bq_dropped = 0, bq_high = 0, bq_closed = False, bq_q = []\<rparr>,
       \<lparr>n_accepted = 0, n_delivered = 0, n_discarded = 0\<rparr>) = (s, c)
    \<and> n_accepted c = 4 \<and> q_dropped s = 1 \<and> n_delivered c = 1 \<and> n_discarded c = 2
    \<and> of_nat (n_accepted c) = q_dropped s + of_nat (n_delivered c + n_discarded c + q_size s)"
proof -
  let ?init = "\<lparr>bq_capacity = 2, bq_dropped = 0, bq_high = 0, bq_closed = False, bq_q = []\<rparr> :: nat bqueue"
  let ?zero = "\<lparr>n_accepted = 0, n_delivered = 0, n_discarded = 0\<rparr>"
  let ?ops = "[PushLatest (7::nat), PushLatest 8, PushLatest 9, Pop, TryPush 10, Control Clear]"
  let ?fin = "\<lparr>bq_capacity = 2, bq_dropped = 1, bq_high = 2, bq_closed = False, bq_q = []\<rparr> :: nat bqueue"
  let ?cnt = "\<lparr>n_accepted = 4, n_delivered = 1, n_discarded = 2\<rparr>"
  have s0: "BoundedQueue 2 = Inr ?init" by (simp add: BoundedQueue_def)
  have run: "fold bq_exec ?ops (?init, ?zero) = (?fin, ?cnt)" by code_simp
  show ?thesis
  proof (intro exI [of _ ?fin] exI [of _ ?cnt] conjI)
    show "fold bq_exec ?ops (?init, ?zero) = (?fin, ?cnt)" by (rule run)
    show "of_nat (n_accepted ?cnt) = q_dropped ?fin + of_nat (n_delivered ?cnt + n_discarded ?cnt + q_size ?fin)"
      by (rule queue_accounting [OF s0 run])
  qed (simp_all add: q_dropped_def)
qed

text \<open>A closed queue accepts nothing more; draining it returns what it held.\<close>

lemma closed_run:
  "bq_closed s \<Longrightarrow> put = pushLatest \<or> put = tryPush \<Longrightarrow>
   (\<forall>e \<in> set es. e = Take \<or> (\<exists>x. e = Put x)) \<Longrightarrow>
   chan_run put pop bq_control s es = (acc, del, f) \<Longrightarrow>
     acc = [] \<and> del @ bq_q f = bq_q s \<and> bq_closed f \<and>
     length del = min (length (filter (\<lambda>e. e = Take) es)) (length (bq_q s))"
proof (induction es arbitrary: s acc del)
  case Nil
  then show ?case by auto
next
  case (Cons e es)
  then consider x where "e = Put x" | "e = Take" by auto
  then show ?case
  proof cases
    case (1 x)
    have "put s x = (False, s)" using Cons.prems(1,2) by (auto simp: bq_defs)
    with 1 Cons show ?thesis by (auto split: prod.splits)
  next
    case 2
    obtain acc1 del1 f1 where r: "chan_run put pop bq_control (snd (pop s)) es = (acc1, del1, f1)"
      by (metis prod_cases3)
    have f1: "f1 = f" using Cons.prems(4) 2 r by (auto split: prod.splits)
    have IH: "acc1 = [] \<and> del1 @ bq_q f1 = tl (bq_q s) \<and> bq_closed f1 \<and>
        length del1 = min (length (filter (\<lambda>e. e = Take) es)) (length (bq_q s) - 1)"
      using Cons.IH [of "snd (pop s)" acc1 del1] Cons.prems(1-3) r f1 by simp
    show ?thesis using Cons.prems(4) 2 r f1 IH
      by (cases "bq_q s") (auto simp: pop_eq split: prod.splits)
  qed
qed

text \<open>Closing a queue without discarding (the disk and snapshot workers' shutdown) turns later
  pushes away and loses nothing: any mix of pushes and pops afterwards accepts no item and delivers,
  in order, exactly the items that were queued, all of them once enough pops have been made.\<close>

theorem close_then_drain:
  assumes "put = pushLatest \<or> put = tryPush"
    and "\<forall>e \<in> set es. e = Take \<or> (\<exists>x. e = Put x)"
    and "chan_run put pop bq_control (q_close False s) es = (acc, del, f)"
  shows "acc = [] \<and> del @ bq_q f = bq_q s \<and> q_closed f \<and>
         (q_size s \<le> length (filter (\<lambda>e. e = Take) es) \<longrightarrow> del = bq_q s \<and> bq_q f = [])"
proof -
  have "bq_closed (q_close False s)" by (simp add: bq_defs)
  from closed_run [OF this assms]
  have "acc = [] \<and> del @ bq_q f = bq_q s \<and> bq_closed f \<and>
     length del = min (length (filter (\<lambda>e. e = Take) es)) (length (bq_q s))"
    by (simp add: q_close_def)
  then show ?thesis
    by (auto simp: q_closed_def q_size_def append_eq_append_conv [of del "bq_q s" "bq_q f" "[]", simplified])
qed

theorem close_then_drain_witness:
  "\<exists>f. chan_run tryPush pop bq_control
      (q_close False \<lparr>bq_capacity = 3, bq_dropped = 0, bq_high = 2, bq_closed = False, bq_q = [5, 6::nat]\<rparr>)
      [Take, Put 7, Take, Take] = ([], [5, 6], f) \<and> bq_q f = [] \<and> q_closed f"
proof -
  let ?s = "\<lparr>bq_capacity = 3, bq_dropped = 0, bq_high = 2, bq_closed = False, bq_q = [5, 6::nat]\<rparr>"
  let ?f = "\<lparr>bq_capacity = 3, bq_dropped = 0, bq_high = 2, bq_closed = True, bq_q = []\<rparr> :: nat bqueue"
  let ?es = "[Take, Put (7::nat), Take, Take]"
  have run: "chan_run tryPush pop bq_control (q_close False ?s) ?es = ([], [5, 6], ?f)"
    by (simp add: bq_defs)
  have "q_closed ?f"
    by (rule conjunct1 [OF conjunct2 [OF conjunct2 [OF close_then_drain [OF _ _ run]]]]) auto
  with run show ?thesis by (intro exI [of _ ?f]) simp
qed

end
