(* ===== verification/QueueMonitor.thy ===== *)
theory QueueMonitor
  imports BoundedQueue
begin

text \<open>
  The blocking side of \<open>core/ipc/BoundedQueue.h\<close>: consumers that wait on the condition variable
  \<open>cv_\<close> with a deadline, and producers and \<open>close\<close> that notify it. Each step is one critical
  section of the mutex \<open>m_\<close>, or one event of the condition variable (a notified thread is no longer
  asleep, a deadline passes, a spurious wake-up).
\<close>

section \<open>Steps\<close>

text \<open>
  \<open>asleep\<close> holds the threads blocked in \<open>wait_for\<close>, \<open>woken\<close> those that were notified (or woke by
  themselves) and have not yet reacquired the mutex.
\<close>

record 'a monitor =
  mon_q :: "'a bqueue"
  asleep :: "nat set"
  woken :: "nat set"

text \<open>The predicate both pops pass to \<open>wait_for\<close>.\<close>

definition wait_pred :: "'a bqueue \<Rightarrow> bool" where
  "wait_pred s \<longleftrightarrow> bq_closed s \<or> bq_q s \<noteq> []"

text \<open>
  \<open>take_step tk m\<close> is what a consumer does once its wait is over, with \<open>tk\<close> one of \<open>pop\<close> and
  \<open>popLatest\<close>. A push calls \<open>notify_one\<close> only when it stored the item, and wakes one arbitrary
  sleeper if there is one; \<open>close\<close> calls \<open>notify_all\<close>.
\<close>

abbreviation take_step :: "('a bqueue \<Rightarrow> 'a option \<times> 'a bqueue) \<Rightarrow> 'a monitor \<Rightarrow> 'a monitor" where
  "take_step tk m \<equiv> m\<lparr>mon_q := snd (tk (mon_q m))\<rparr>"

inductive mon_step :: "'a monitor \<Rightarrow> 'a monitor \<Rightarrow> bool" where
  push_wake: "put = pushLatest \<or> put = tryPush \<Longrightarrow> fst (put (mon_q m) x) \<Longrightarrow> i \<in> asleep m \<Longrightarrow>
    mon_step m (m\<lparr>mon_q := snd (put (mon_q m) x), asleep := asleep m - {i},
                  woken := insert i (woken m)\<rparr>)"
| push_alone: "put = pushLatest \<or> put = tryPush \<Longrightarrow> fst (put (mon_q m) x) \<Longrightarrow> asleep m = {} \<Longrightarrow>
    mon_step m (m\<lparr>mon_q := snd (put (mon_q m) x)\<rparr>)"
| push_reject: "put = pushLatest \<or> put = tryPush \<Longrightarrow> \<not> fst (put (mon_q m) x) \<Longrightarrow>
    mon_step m (m\<lparr>mon_q := snd (put (mon_q m) x)\<rparr>)"
| enter_take: "tk = pop \<or> tk = popLatest \<Longrightarrow> i \<notin> asleep m \<union> woken m \<Longrightarrow> wait_pred (mon_q m) \<Longrightarrow>
    mon_step m (take_step tk m)"
| enter_sleep: "i \<notin> asleep m \<union> woken m \<Longrightarrow> \<not> wait_pred (mon_q m) \<Longrightarrow>
    mon_step m (m\<lparr>asleep := insert i (asleep m)\<rparr>)"
| resume_take: "tk = pop \<or> tk = popLatest \<Longrightarrow> i \<in> woken m \<Longrightarrow> wait_pred (mon_q m) \<Longrightarrow>
    mon_step m (take_step tk (m\<lparr>woken := woken m - {i}\<rparr>))"
| resume_sleep: "i \<in> woken m \<Longrightarrow> \<not> wait_pred (mon_q m) \<Longrightarrow>
    mon_step m (m\<lparr>woken := woken m - {i}, asleep := insert i (asleep m)\<rparr>)"
| spurious: "i \<in> asleep m \<Longrightarrow>
    mon_step m (m\<lparr>asleep := asleep m - {i}, woken := insert i (woken m)\<rparr>)"
| timeout: "tk = pop \<or> tk = popLatest \<Longrightarrow> i \<in> asleep m \<union> woken m \<Longrightarrow>
    mon_step m (take_step tk (m\<lparr>asleep := asleep m - {i}, woken := woken m - {i}\<rparr>))"
| do_clear: "mon_step m (m\<lparr>mon_q := q_clear (mon_q m)\<rparr>)"
| do_close: "mon_step m (m\<lparr>mon_q := q_close d (mon_q m), asleep := {},
                           woken := woken m \<union> asleep m\<rparr>)"

inductive mon_reach :: "'a bqueue \<Rightarrow> 'a monitor \<Rightarrow> bool" for s0 where
  mon_init: "mon_reach s0 \<lparr>mon_q = s0, asleep = {}, woken = {}\<rparr>"
| mon_next: "mon_reach s0 m \<Longrightarrow> mon_step m m' \<Longrightarrow> mon_reach s0 m'"

section \<open>No lost wake-up\<close>

text \<open>
  The invariant: while anybody sleeps, the queue is open and holds at most as many items as there
  are woken consumers on their way to the mutex.
\<close>

definition mon_inv :: "'a monitor \<Rightarrow> bool" where
  "mon_inv m \<longleftrightarrow> bq_wf (mon_q m) \<and> finite (asleep m) \<and> finite (woken m) \<and> asleep m \<inter> woken m = {} \<and>
     (asleep m \<noteq> {} \<longrightarrow> \<not> bq_closed (mon_q m) \<and> length (bq_q (mon_q m)) \<le> card (woken m))"

lemma put_length:
  "put = pushLatest \<or> put = tryPush \<Longrightarrow> bq_wf s \<Longrightarrow>
     length (bq_q (snd (put s x))) \<le> Suc (length (bq_q s)) \<and> bq_wf (snd (put s x)) \<and>
     bq_closed (snd (put s x)) = bq_closed s \<and> (\<not> fst (put s x) \<longrightarrow> snd (put s x) = s)"
  by (auto intro: inv_rules simp: pushLatest_q tryPush_q) (auto simp: bq_defs)

lemma take_length:
  "tk = pop \<or> tk = popLatest \<Longrightarrow> bq_wf s \<Longrightarrow>
     length (bq_q (snd (tk s))) \<le> length (bq_q s) - 1 \<and> bq_wf (snd (tk s)) \<and>
     bq_closed (snd (tk s)) = bq_closed s"
  by (auto intro: inv_rules)

lemma mon_step_inv: "mon_step m m' \<Longrightarrow> mon_inv m \<Longrightarrow> mon_inv m'"
proof (induction rule: mon_step.induct)
  case (push_wake put m x i)
  then show ?case using put_length [OF push_wake.hyps(1), of "mon_q m" x]
    by (auto simp: mon_inv_def card_insert_if)
next
  case (push_alone put m x)
  then show ?case using put_length [OF push_alone.hyps(1), of "mon_q m" x] by (auto simp: mon_inv_def)
next
  case (push_reject put m x)
  then show ?case using put_length [OF push_reject.hyps(1), of "mon_q m" x] by (auto simp: mon_inv_def)
next
  case (enter_take tk i m)
  then show ?case using take_length [OF enter_take.hyps(1), of "mon_q m"] by (auto simp: mon_inv_def)
next
  case (enter_sleep i m)
  then show ?case by (auto simp: mon_inv_def wait_pred_def)
next
  case (resume_take tk i m)
  then show ?case using take_length [OF resume_take.hyps(1), of "mon_q m"]
    by (auto simp: mon_inv_def)
next
  case (resume_sleep i m)
  then show ?case by (auto simp: mon_inv_def wait_pred_def)
next
  case (spurious i m)
  then show ?case by (auto simp: mon_inv_def card_insert_if)
next
  case (timeout tk i m)
  then show ?case using take_length [OF timeout.hyps(1), of "mon_q m"]
    by (auto simp: mon_inv_def card_Diff_singleton_if)
next
  case (do_clear m)
  then show ?case using bq_wf_control [of "mon_q m" Clear] by (auto simp: mon_inv_def q_clear_def)
next
  case (do_close m d)
  then show ?case using bq_wf_control [of "mon_q m" "Close d"] by (auto simp: mon_inv_def)
qed

lemma mon_reach_inv: "mon_reach s0 m \<Longrightarrow> bq_wf s0 \<Longrightarrow> mon_inv m"
proof (induction rule: mon_reach.induct)
  case mon_init
  then show ?case by (simp add: mon_inv_def)
next
  case (mon_next m m')
  then show ?case by (blast intro: mon_step_inv)
qed

text \<open>C27: No wake-up is lost, under every interleaving of producers, consumers, clears, closes,
  deadlines and spurious wake-ups: as long as some consumer sleeps on the condition variable, the
  queue is open and every queued item already has a woken consumer of its own; so nobody sleeps
  after \<open>close\<close>, and when an item waits beside a sleeper a woken consumer can take it at once.\<close>

theorem no_lost_wakeup:
  assumes "BoundedQueue n = Inr s0" and "mon_reach s0 m" and "asleep m \<noteq> {}"
  shows "\<not> q_closed (mon_q m) \<and> q_size (mon_q m) \<le> card (woken m) \<and>
         (bq_q (mon_q m) \<noteq> [] \<longrightarrow>
            (\<exists>i \<in> woken m. mon_step m (take_step pop (m\<lparr>woken := woken m - {i}\<rparr>))))"
proof -
  have inv: "mon_inv m" using mon_reach_inv [OF assms(2)] bq_wf_init [OF assms(1)] by simp
  have "\<exists>i \<in> woken m. mon_step m (take_step pop (m\<lparr>woken := woken m - {i}\<rparr>))"
    if ne: "bq_q (mon_q m) \<noteq> []"
  proof -
    have "length (bq_q (mon_q m)) \<le> card (woken m)" using inv assms(3) by (auto simp: mon_inv_def)
    then have "woken m \<noteq> {}" using ne by (cases "bq_q (mon_q m)") auto
    then obtain i where "i \<in> woken m" by blast
    with ne show ?thesis by (intro bexI [of _ i] mon_step.resume_take) (auto simp: wait_pred_def)
  qed
  with inv assms(3) show ?thesis by (auto simp: mon_inv_def q_closed_def q_size_def)
qed

text \<open>Two consumers fall asleep, one frame arrives: one sleeps on, the other is awake for the frame.\<close>

theorem no_lost_wakeup_witness:
  "\<exists>s0 m. BoundedQueue 2 = Inr s0 \<and> mon_reach s0 m \<and> asleep m = {1} \<and> woken m = {0} \<and>
     bq_q (mon_q m) = [42 :: nat] \<and> q_size (mon_q m) \<le> card (woken m)"
proof -
  let ?init = "\<lparr>bq_capacity = 2, bq_dropped = 0, bq_high = 0, bq_closed = False, bq_q = []\<rparr> :: nat bqueue"
  let ?fin = "\<lparr>bq_capacity = 2, bq_dropped = 0, bq_high = 1, bq_closed = False, bq_q = [42]\<rparr> :: nat bqueue"
  let ?m = "\<lambda>q a w. \<lparr>mon_q = q :: nat bqueue, asleep = a, woken = w\<rparr>"
  have cap: "BoundedQueue 2 = Inr ?init" by (simp add: BoundedQueue_def)
  have r1: "mon_reach ?init (?m ?init {0} {})"
    using mon_next [OF mon_init [of ?init], OF enter_sleep [of 0]] by (simp add: wait_pred_def)
  have r2: "mon_reach ?init (?m ?init {1, 0} {})"
    using mon_next [OF r1, OF enter_sleep [of 1]] by (simp add: wait_pred_def)
  have "mon_step (?m ?init {1, 0} {}) (?m ?fin {1} {0})"
    using push_wake [of tryPush "?m ?init {1, 0} {}" 42 0] by (simp add: tryPush_def Let_def insert_Diff_if)
  from mon_next [OF r2 this] have r3: "mon_reach ?init (?m ?fin {1} {0})" .
  have "q_size (mon_q (?m ?fin {1} {0})) \<le> card (woken (?m ?fin {1} {0}))"
    using no_lost_wakeup [OF cap r3] by simp
  with cap r3 show ?thesis by (intro exI [of _ ?init] exI [of _ "?m ?fin {1} {0}"] conjI) simp_all
qed

end
