(* ===== verification/FramePool.thy ===== *)
theory FramePool
  imports Prelude
begin

text \<open>
  The frame pool of \<open>core/memory/FramePool.h\<close>: a fixed number of pixel buffers handed out as
  shared pointers whose deleter puts the frame back on the free list. The frames are named by
  their index in \<open>frames\<close>; the reference count of a \<open>std::shared_ptr\<close> is part of the state, since
  the moment a frame is reusable is the moment its count drops to zero.
\<close>

section \<open>State and operations\<close>

record frame =
  fr_bytes :: "byte list"
  fr_sequence :: u64
  fr_generation :: u64
  fr_captured :: nat

record pool =
  fp_frames :: "frame list"
  fp_free :: "nat list"
  fp_refs :: "nat \<Rightarrow> nat"

text \<open>A frame as \<open>make_unique<Frame>()\<close> and \<open>resize\<close> leave it: zeroed bytes, zero counters.\<close>

definition blank_frame :: "nat \<Rightarrow> frame" where
  "blank_frame bytes =
     \<lparr>fr_bytes = replicate bytes 0, fr_sequence = 0, fr_generation = 0, fr_captured = 0\<rparr>"

definition FramePool :: "nat \<Rightarrow> nat \<Rightarrow> pool result" where
  "FramePool n bytes =
     (if n = 0 \<or> bytes = 0 then Inl (InvalidArgument ''invalid pool size'')
      else Inr \<lparr>fp_frames = replicate n (blank_frame bytes), fp_free = [0..<n],
                fp_refs = (\<lambda>_. 0)\<rparr>)"

text \<open>
  \<open>acquire\<close> takes the frame at the back of the free list and returns the first shared pointer to
  it; \<open>None\<close> is the empty pointer.
\<close>

definition acquire :: "pool \<Rightarrow> nat option \<times> pool" where
  "acquire p =
     (if fp_free p = [] then (None, p)
      else let f = last (fp_free p)
           in (Some f, p\<lparr>fp_free := butlast (fp_free p), fp_refs := (fp_refs p)(f := 1)\<rparr>))"

text \<open>Copying a shared pointer, and dropping one; the last drop runs the deleter.\<close>

definition share :: "nat \<Rightarrow> pool \<Rightarrow> pool" where
  "share f p = p\<lparr>fp_refs := (fp_refs p)(f := fp_refs p f + 1)\<rparr>"

definition deleter :: "nat \<Rightarrow> pool \<Rightarrow> pool" where
  "deleter f p = p\<lparr>fp_free := fp_free p @ [f]\<rparr>"

definition drop_ref :: "nat \<Rightarrow> pool \<Rightarrow> pool" where
  "drop_ref f p =
     (let p1 = p\<lparr>fp_refs := (fp_refs p)(f := fp_refs p f - 1)\<rparr>
      in if fp_refs p1 f = 0 then deleter f p1 else p1)"

definition available :: "pool \<Rightarrow> nat" where
  "available p = length (fp_free p)"

text \<open>Writing a frame in place, as the capture thread does before it publishes the frame.\<close>

definition write_frame :: "nat \<Rightarrow> (frame \<Rightarrow> frame) \<Rightarrow> pool \<Rightarrow> pool" where
  "write_frame f g p = p\<lparr>fp_frames := (fp_frames p)[f := g (fp_frames p ! f)]\<rparr>"

section \<open>Ownership\<close>

text \<open>
  What the program's threads may do with a pool: acquire a frame, copy or drop a pointer they hold
  (its count is positive), and fill a frame of which they hold the only pointer, keeping its size.
\<close>

inductive pool_step :: "pool \<Rightarrow> pool \<Rightarrow> bool" where
  do_acquire: "pool_step p (snd (acquire p))"
| do_share: "0 < fp_refs p f \<Longrightarrow> pool_step p (share f p)"
| do_drop: "0 < fp_refs p f \<Longrightarrow> pool_step p (drop_ref f p)"
| do_write: "fp_refs p f = 1 \<Longrightarrow>
    length (fr_bytes (g (fp_frames p ! f))) = length (fr_bytes (fp_frames p ! f)) \<Longrightarrow>
    pool_step p (write_frame f g p)"

inductive pool_reach :: "nat \<Rightarrow> nat \<Rightarrow> pool \<Rightarrow> bool" for n bytes where
  pool_init: "FramePool n bytes = Inr p \<Longrightarrow> pool_reach n bytes p"
| pool_next: "pool_reach n bytes p \<Longrightarrow> pool_step p p' \<Longrightarrow> pool_reach n bytes p'"

text \<open>
  The free list holds exactly the frames nobody points to, each once; all buffers keep their size.
\<close>

definition pool_inv :: "nat \<Rightarrow> nat \<Rightarrow> pool \<Rightarrow> bool" where
  "pool_inv n bytes p \<longleftrightarrow>
     length (fp_frames p) = n \<and> distinct (fp_free p) \<and>
     set (fp_free p) = {f. f < n \<and> fp_refs p f = 0} \<and>
     (\<forall>f \<ge> n. fp_refs p f = 0) \<and>
     (\<forall>fr \<in> set (fp_frames p). length (fr_bytes fr) = bytes)"

lemma pool_inv_init: "FramePool n bytes = Inr p \<Longrightarrow> pool_inv n bytes p"
  by (auto simp: FramePool_def pool_inv_def blank_frame_def split: if_splits)

lemma pool_inv_acquire: "pool_inv n bytes p \<Longrightarrow> pool_inv n bytes (snd (acquire p))"
  unfolding pool_inv_def acquire_def Let_def
  by (cases "fp_free p" rule: rev_cases) (auto simp: set_eq_iff)

lemma pool_inv_share: "pool_inv n bytes p \<Longrightarrow> 0 < fp_refs p f \<Longrightarrow> pool_inv n bytes (share f p)"
  unfolding pool_inv_def share_def by (auto simp: set_eq_iff)

lemma pool_inv_live: "pool_inv n bytes p \<Longrightarrow> 0 < fp_refs p f \<Longrightarrow> f < n"
  by (rule ccontr) (auto simp: pool_inv_def not_less)

lemma pool_inv_drop:
  assumes inv: "pool_inv n bytes p" and live: "0 < fp_refs p f"
  shows "pool_inv n bytes (drop_ref f p)"
proof -
  have "f < n" using pool_inv_live [OF inv live] .
  moreover have "f \<notin> set (fp_free p)" using inv live by (simp add: pool_inv_def)
  ultimately show ?thesis
    using inv live unfolding pool_inv_def drop_ref_def deleter_def Let_def
    by (auto simp: set_eq_iff)
qed

lemma pool_inv_write:
  assumes inv: "pool_inv n bytes p" and live: "fp_refs p f = 1"
    and keep: "length (fr_bytes (g (fp_frames p ! f))) = length (fr_bytes (fp_frames p ! f))"
  shows "pool_inv n bytes (write_frame f g p)"
proof -
  have "f < n" using pool_inv_live [OF inv] live by simp
  then have "fp_frames p ! f \<in> set (fp_frames p)" using inv by (simp add: pool_inv_def)
  with inv keep show ?thesis
    unfolding pool_inv_def write_frame_def by (auto dest: set_update_subset_insert [THEN subsetD])
qed

lemma pool_step_inv: "pool_step p p' \<Longrightarrow> pool_inv n bytes p \<Longrightarrow> pool_inv n bytes p'"
  by (induction rule: pool_step.induct)
    (auto intro: pool_inv_acquire pool_inv_share pool_inv_drop pool_inv_write)

lemma pool_reach_inv: "pool_reach n bytes p \<Longrightarrow> pool_inv n bytes p"
  by (induction rule: pool_reach.induct) (auto intro: pool_inv_init pool_step_inv)

lemma pool_inv_available:
  "pool_inv n bytes p \<Longrightarrow> available p + card {f. f < n \<and> 0 < fp_refs p f} = n"
proof -
  assume inv: "pool_inv n bytes p"
  have "available p = card {f. f < n \<and> fp_refs p f = 0}"
    using inv distinct_card [of "fp_free p"] by (simp add: pool_inv_def available_def)
  moreover have "card ({f. f < n \<and> fp_refs p f = 0} \<union> {f. f < n \<and> 0 < fp_refs p f}) = card {..<n}"
    by (rule arg_cong [of _ _ card]) auto
  ultimately show ?thesis by (subst (asm) card_Un_disjoint) auto
qed

text \<open>C23: In every state the pool can reach while its pointers are copied and dropped in any order,
  each frame is either on the free list or pointed to, never both: \<open>available\<close> plus the number of
  frames in use is the pool's size, \<open>acquire\<close> fails only when every frame is in use, and the frame it
  returns has no other pointer to it and a buffer of the size the pool was built with.\<close>

theorem pool_ownership:
  assumes "pool_reach n bytes p"
  shows "available p + card {f. f < n \<and> 0 < fp_refs p f} = n \<and>
         (fst (acquire p) = None \<longleftrightarrow> (\<forall>f < n. 0 < fp_refs p f)) \<and>
         (\<forall>f. fst (acquire p) = Some f \<longrightarrow>
            f < n \<and> fp_refs p f = 0 \<and> fp_refs (snd (acquire p)) f = 1 \<and>
            f \<notin> set (fp_free (snd (acquire p))) \<and> length (fr_bytes (fp_frames p ! f)) = bytes)"
proof -
  have inv: "pool_inv n bytes p" using assms by (rule pool_reach_inv)
  then have free: "set (fp_free p) = {f. f < n \<and> fp_refs p f = 0}" "distinct (fp_free p)"
      "length (fp_frames p) = n" "\<forall>fr \<in> set (fp_frames p). length (fr_bytes fr) = bytes"
    by (auto simp: pool_inv_def)
  have none: "fst (acquire p) = None \<longleftrightarrow> (\<forall>f < n. 0 < fp_refs p f)"
    using free(1) by (auto simp: acquire_def Let_def set_empty [symmetric] simp del: set_empty)
  have "f < n \<and> fp_refs p f = 0 \<and> fp_refs (snd (acquire p)) f = 1 \<and>
      f \<notin> set (fp_free (snd (acquire p))) \<and> length (fr_bytes (fp_frames p ! f)) = bytes"
    if some: "fst (acquire p) = Some f" for f
  proof -
    have f: "fp_free p \<noteq> []" "f = last (fp_free p)" "fp_free (snd (acquire p)) = butlast (fp_free p)"
        "fp_refs (snd (acquire p)) f = 1"
      using some by (auto simp: acquire_def Let_def split: if_splits)
    then have "f \<in> set (fp_free p)" by simp
    with free f distinct_last_butlast [of "fp_free p"] show ?thesis by auto
  qed
  with none pool_inv_available [OF inv] show ?thesis by blast
qed

theorem pool_ownership_witness:
  "\<exists>p. pool_reach 2 4 p \<and> available p = 1 \<and> card {f. f < 2 \<and> 0 < fp_refs p f} = 1
     \<and> fst (acquire p) = Some 0 \<and> fp_refs p 0 = 0"
proof -
  obtain p0 where p0: "FramePool 2 4 = Inr p0" by (simp add: FramePool_def)
  let ?p = "snd (acquire p0)"
  have reach: "pool_reach 2 4 ?p" by (rule pool_next [OF pool_init [OF p0] do_acquire])
  have acq: "available ?p = 1" "fst (acquire ?p) = Some 0"
    using p0 by (auto simp: FramePool_def acquire_def available_def Let_def upt_rec)
  from pool_ownership [OF reach] acq reach show ?thesis by (intro exI [of _ ?p]) auto
qed

end
