(* ===== verification/Json.thy ===== *)
theory Json
  imports Prelude Complex_Main
begin

text \<open>
  JSON values and the accessors of \<open>nlohmann::json\<close> that the sources use (\<open>third_party/nlohmann_json.hpp\<close>):
  \<open>value\<close>, \<open>contains\<close>, \<open>at\<close> and \<open>get\<close> for strings, booleans and \<open>int\<close>. A number is an integer or a
  floating-point value; the latter is its exact rational value. A type mismatch is the exception that
  the library throws, which the sources only catch as \<open>std::exception\<close>.
\<close>

datatype json =
    JNull
  | JBool bool
  | JInt int
  | JFloat rat
  | JString string
  | JArray "json list"
  | JObject "(string \<times> json) list"

fun is_object :: "json \<Rightarrow> bool" where
  "is_object (JObject kvs) = True"
| "is_object _ = False"

fun is_null :: "json \<Rightarrow> bool" where
  "is_null JNull = True"
| "is_null _ = False"

fun is_string :: "json \<Rightarrow> bool" where
  "is_string (JString s) = True"
| "is_string _ = False"

fun is_number_integer :: "json \<Rightarrow> bool" where
  "is_number_integer (JInt i) = True"
| "is_number_integer _ = False"

text \<open>\<open>contains\<close> is false for anything but an object.\<close>

fun jfind :: "string \<Rightarrow> json \<Rightarrow> json option" where
  "jfind k (JObject kvs) = map_of kvs k"
| "jfind k _ = None"

definition contains :: "json \<Rightarrow> string \<Rightarrow> bool" where
  "contains j k \<longleftrightarrow> jfind k j \<noteq> None"

definition type_error :: cxx_error where
  "type_error = RuntimeError ''json.exception.type_error''"

definition out_of_range :: cxx_error where
  "out_of_range = RuntimeError ''json.exception.out_of_range''"

fun get_string :: "json \<Rightarrow> string result" where
  "get_string (JString s) = Inr s"
| "get_string _ = Inl type_error"

fun get_bool :: "json \<Rightarrow> bool result" where
  "get_bool (JBool b) = Inr b"
| "get_bool _ = Inl type_error"

text \<open>
  Reading an \<open>int\<close> converts any number or boolean with a \<open>static_cast\<close>: an integer is reduced modulo
  \<open>2 ^ 32\<close>, a floating-point value is truncated. A value beyond the range of \<open>int\<close> has no defined
  result there; \<open>fc\<close> stands for it.
\<close>

definition wrap32 :: "int \<Rightarrow> int" where
  "wrap32 i = (i + 2 ^ 31) mod 2 ^ 32 - 2 ^ 31"

definition trunc :: "rat \<Rightarrow> int" where
  "trunc r = (if r < 0 then \<lceil>r\<rceil> else \<lfloor>r\<rfloor>)"

fun get_int :: "(rat \<Rightarrow> int) \<Rightarrow> json \<Rightarrow> int result" where
  "get_int fc (JInt i) = Inr (wrap32 i)"
| "get_int fc (JFloat r) = Inr (if - (2 ^ 31) - 1 < r \<and> r < 2 ^ 31 then trunc r else fc r)"
| "get_int fc (JBool b) = Inr (of_bool b)"
| "get_int fc _ = Inl type_error"

lemma wrap32_id: "- (2 ^ 31) \<le> i \<Longrightarrow> i < 2 ^ 31 \<Longrightarrow> wrap32 i = i"
  by (simp add: wrap32_def)

lemma wrap32_range: "- (2 ^ 31) \<le> wrap32 i \<and> wrap32 i < 2 ^ 31"
  by (simp add: wrap32_def)

text \<open>\<open>value(key, fallback)\<close>: the fallback only where the key is missing; a value of another type throws.\<close>

fun json_value :: "(json \<Rightarrow> 'a result) \<Rightarrow> json \<Rightarrow> string \<Rightarrow> 'a \<Rightarrow> 'a result" where
  "json_value get (JObject kvs) k d = (case map_of kvs k of None \<Rightarrow> Inr d | Some v \<Rightarrow> get v)"
| "json_value get _ k d = Inl type_error"

text \<open>Sequencing of code that may throw.\<close>

definition bind_result :: "'a result \<Rightarrow> ('a \<Rightarrow> 'b result) \<Rightarrow> 'b result" where
  "bind_result r f = (case r of Inl e \<Rightarrow> Inl e | Inr x \<Rightarrow> f x)"

lemma bind_result_simps [simp]:
  "bind_result (Inl e) f = Inl e"
  "bind_result (Inr x) f = f x"
  by (simp_all add: bind_result_def)

lemma bind_result_Inr: "bind_result r f = Inr y \<longleftrightarrow> (\<exists>x. r = Inr x \<and> f x = Inr y)"
  by (cases r) simp_all

text \<open>\<open>a && b\<close> where either side may throw: the right one is not evaluated when the left one is false.\<close>

definition and_result :: "bool result \<Rightarrow> bool result \<Rightarrow> bool result" where
  "and_result a b = bind_result a (\<lambda>x. if x then b else Inr False)"

end
