(* ===== verification/Float32.thy ===== *)
theory Float32
  imports Prelude Complex_Main "HOL-Library.Log_Nat"
begin

text \<open>
  The \<open>float\<close> of the sources: IEEE binary32 with rounding to nearest, ties to even. A finite value is
  the rational number it denotes (the two zeros are not told apart); infinities and NaN are values of
  their own, since the sources test for them. \<open>to_float\<close> is the conversion of a number to \<open>float\<close>, and
  the result of every arithmetic operation on floats is \<open>to_float\<close> of the exact result.
\<close>

datatype fp = Fin rat | PInf | NInf | NaN

fun fp_finite :: "fp \<Rightarrow> bool" where
  "fp_finite (Fin r) = True"
| "fp_finite _ = False"

text \<open>Comparisons with NaN are false.\<close>

fun fp_less :: "fp \<Rightarrow> fp \<Rightarrow> bool" where
  "fp_less NaN _ = False"
| "fp_less _ NaN = False"
| "fp_less PInf _ = False"
| "fp_less _ PInf = True"
| "fp_less _ NInf = False"
| "fp_less NInf _ = True"
| "fp_less (Fin a) (Fin b) = (a < b)"

definition fp_le :: "fp \<Rightarrow> fp \<Rightarrow> bool" where
  "fp_le a b \<longleftrightarrow> fp_less a b \<or> (a = b \<and> a \<noteq> NaN)"

lemma fp_le_Fin [simp]: "fp_le (Fin a) (Fin b) \<longleftrightarrow> a \<le> b"
  by (auto simp: fp_le_def)

section \<open>Rounding\<close>

text \<open>The binary exponent of a positive rational.\<close>

definition log2r :: "rat \<Rightarrow> int" where
  "log2r r =
     (let (n, d) = quotient_of r; e = int (floorlog 2 (nat n)) - int (floorlog 2 (nat d))
      in if 2 powi e \<le> r then e else e - 1)"

definition round_even :: "rat \<Rightarrow> int" where
  "round_even x =
     (let k = \<lfloor>x\<rfloor>; f = x - of_int k
      in if f < 1 / 2 \<or> f = 1 / 2 \<and> even k then k else k + 1)"

definition ulp :: "rat \<Rightarrow> rat" where
  "ulp r = 2 powi (max (log2r \<bar>r\<bar>) (- 126) - 23)"

definition to_float :: "rat \<Rightarrow> fp" where
  "to_float r =
     (if r = 0 then Fin 0
      else let v = of_int (round_even (r / ulp r)) * ulp r
           in if 2 powi 128 \<le> v then PInf else if v \<le> - (2 powi 128) then NInf else Fin v)"

lemma log2r_bounds:
  assumes "0 < r"
  shows "2 powi (log2r r) \<le> r" and "r < 2 powi (log2r r + 1)"
proof -
  obtain n d where q: "quotient_of r = (n, d)" by fastforce
  then have d: "0 < d" by (rule quotient_of_denom_pos)
  from q have r: "r = of_int n / of_int d" by (rule quotient_of_div)
  with assms d have n: "0 < n" by (simp add: zero_less_divide_iff)
  define a where "a = floorlog 2 (nat n)"
  define b where "b = floorlog 2 (nat d)"
  have bnd: "2 ^ (floorlog 2 (nat k) - 1) \<le> k \<and> k < 2 ^ floorlog 2 (nat k) \<and> 0 < floorlog 2 (nat k)"
    if "0 < k" for k :: int
    using floorlog_bounds [of "nat k" 2] that
    by (auto simp: floorlog_def le_nat_iff nat_less_iff)
  have a: "2 ^ (a - 1) \<le> n" "n < 2 ^ a" "0 < a" using bnd [OF n] by (simp_all add: a_def)
  have b: "2 ^ (b - 1) \<le> d" "d < 2 ^ b" "0 < b" using bnd [OF d] by (simp_all add: b_def)
  have ra: "(2 :: rat) powi (int a - 1) \<le> of_int n" "of_int n < (2 :: rat) powi int a"
    using a of_int_le_iff [where 'a = rat, of "2 ^ (a - 1)" n] of_int_less_iff [where 'a = rat, of n "2 ^ a"]
    by (simp_all add: power_int_def nat_diff_distrib)
  have rb: "(2 :: rat) powi (int b - 1) \<le> of_int d" "of_int d < (2 :: rat) powi int b"
    using b of_int_le_iff [where 'a = rat, of "2 ^ (b - 1)" d] of_int_less_iff [where 'a = rat, of d "2 ^ b"]
    by (simp_all add: power_int_def nat_diff_distrib)
  have d': "(0 :: rat) < of_int d" using d by simp
  have lo: "2 powi (int a - int b - 1) < r"
  proof -
    have "(2 :: rat) powi (int a - int b - 1) * of_int d < 2 powi (int a - int b - 1) * 2 powi int b"
      using rb(2) by simp
    also have "\<dots> = 2 powi (int a - 1)" by (simp flip: power_int_add del: power_int_of_nat)
    also have "\<dots> \<le> of_int n" by (rule ra(1))
    finally show ?thesis using d' by (simp add: r field_simps)
  qed
  have hi: "r < 2 powi (int a - int b + 1)"
  proof -
    have "(of_int n :: rat) < 2 powi int a" by (rule ra(2))
    also have "\<dots> = 2 powi (int a - int b + 1) * 2 powi (int b - 1)" by (simp flip: power_int_add del: power_int_of_nat)
    also have "\<dots> \<le> 2 powi (int a - int b + 1) * of_int d" using rb(1) by simp
    finally show ?thesis using d' by (simp add: r field_simps)
  qed
  from lo hi show "2 powi (log2r r) \<le> r" and "r < 2 powi (log2r r + 1)"
    by (auto simp: log2r_def q Let_def simp flip: a_def b_def)
qed

lemma round_even_error: "\<bar>of_int (round_even x) - x\<bar> \<le> 1 / 2"
proof -
  have "of_int \<lfloor>x\<rfloor> \<le> x" "x < of_int \<lfloor>x\<rfloor> + 1" by linarith+
  then show ?thesis by (auto simp: round_even_def Let_def)
qed

lemma round_even_of_int [simp]: "round_even (of_int k) = k"
  by (simp add: round_even_def)

lemma ulp_pos: "0 < ulp r"
  by (simp add: ulp_def)

text \<open>In the normal range the relative error of a rounding is at most \<open>2 powi -24\<close>.\<close>

lemma log2r_ge: "2 powi k \<le> r \<Longrightarrow> k \<le> log2r r"
proof (rule ccontr)
  assume le: "2 powi k \<le> r" and "\<not> k \<le> log2r r"
  then have "log2r r + 1 \<le> k" by simp
  then have "(2 :: rat) powi (log2r r + 1) \<le> 2 powi k" by (rule power_int_increasing) simp
  moreover have "r < 2 powi (log2r r + 1)"
    using le by (intro log2r_bounds less_le_trans [OF _ le]) simp
  ultimately show False using le by linarith
qed

lemma to_float_error:
  assumes lo: "2 powi - 126 \<le> \<bar>r\<bar>" and hi: "\<bar>r\<bar> \<le> 2 powi 127"
  obtains v where "to_float r = Fin v" and "\<bar>v - r\<bar> \<le> \<bar>r\<bar> * 2 powi - 24"
proof -
  define v where "v = of_int (round_even (r / ulp r)) * ulp r"
  have r0: "0 < \<bar>r\<bar>" using lo by (rule less_le_trans [rotated]) simp
  have "- 126 \<le> log2r \<bar>r\<bar>" by (rule log2r_ge [OF lo])
  then have "ulp r = 2 powi (log2r \<bar>r\<bar> - 23)" unfolding ulp_def by (simp only: max_absorb1)
  also have "\<dots> = 2 powi log2r \<bar>r\<bar> * 2 powi - 23" by (simp add: power_int_diff)
  also have "\<dots> \<le> \<bar>r\<bar> * 2 powi - 23" by (intro mult_right_mono log2r_bounds [OF r0]) simp
  finally have u: "ulp r \<le> \<bar>r\<bar> * 2 powi - 23" .
  have "v - r = (of_int (round_even (r / ulp r)) - r / ulp r) * ulp r"
    using ulp_pos [of r] by (simp add: v_def field_simps)
  then have "\<bar>v - r\<bar> = \<bar>of_int (round_even (r / ulp r)) - r / ulp r\<bar> * ulp r"
    using ulp_pos [of r] by (simp add: abs_mult)
  also have "\<dots> \<le> 1 / 2 * ulp r"
    using ulp_pos [of r] by (intro mult_right_mono round_even_error) simp
  also have "\<dots> \<le> 1 / 2 * (\<bar>r\<bar> * 2 powi - 23)" using u by simp
  also have "\<dots> = \<bar>r\<bar> * 2 powi - 24" by simp
  finally have err: "\<bar>v - r\<bar> \<le> \<bar>r\<bar> * 2 powi - 24" .
  define M :: rat where "M = 2 powi 127"
  have M: "2 powi 128 = 2 * M" by (simp add: M_def)
  have "\<bar>r\<bar> * 2 powi - 24 \<le> \<bar>r\<bar> * (1 / 2)" by (intro mult_left_mono) simp_all
  then have v: "\<bar>v - r\<bar> \<le> \<bar>r\<bar> / 2" using err by linarith
  have "\<bar>r\<bar> \<le> M" using hi by (simp only: M_def)
  with v r0 have "v < 2 * M \<and> - (2 * M) < v" by linarith
  then have "to_float r = Fin v"
    using r0 by (simp only: to_float_def Let_def M if_False not_le abs_zero less_irrefl flip: v_def) auto
  then show thesis using err by (rule that)
qed

text \<open>A number with a significand of 24 bits and an exponent in range is a \<open>float\<close>: it is not rounded.\<close>

lemma to_float_exact:
  assumes r: "r = of_int k * 2 powi e" and k: "\<bar>k\<bar> < 2 ^ 24" and e: "- 149 \<le> e" "e \<le> 104"
  shows "to_float r = Fin r"
proof (cases "r = 0")
  case False
  define m where "m = max (log2r \<bar>r\<bar>) (- 126) - 23"
  have r0: "0 < \<bar>r\<bar>" using False by simp
  have ar: "\<bar>r\<bar> = of_int \<bar>k\<bar> * 2 powi e" by (simp add: r abs_mult)
  have "\<bar>r\<bar> < 2 ^ 24 * 2 powi e"
    unfolding ar by (rule mult_strict_right_mono) (use k in \<open>simp_all flip: of_int_abs\<close>)
  also have "\<dots> = (2 :: rat) powi (24 + e)" by (simp add: power_int_add)
  finally have hi: "\<bar>r\<bar> < 2 powi (24 + e)" .
  have "(2 :: rat) powi log2r \<bar>r\<bar> < 2 powi (24 + e)" using log2r_bounds(1) [OF r0] hi by (rule le_less_trans)
  then have "log2r \<bar>r\<bar> < 24 + e" using power_int_increasing [of "24 + e" "log2r \<bar>r\<bar>" "2 :: rat"] by (simp add: not_less [symmetric]) (metis not_le)
  then have me: "m \<le> e" using e by (simp add: m_def)
  have "ulp r = 2 powi m" by (simp only: ulp_def m_def)
  then have "r / ulp r = of_int k * 2 powi (e - m)" by (simp only: r power_int_diff) (simp add: power_int_diff)
  also have "\<dots> = of_int (k * 2 ^ nat (e - m))" using me by (simp add: power_int_def)
  finally have int: "r / ulp r = of_int (k * 2 ^ nat (e - m))" .
  have "of_int (round_even (r / ulp r)) * ulp r = r"
    unfolding int round_even_of_int using ulp_pos [of r] int by (simp add: field_simps)
  moreover have "(2 :: rat) powi (24 + e) \<le> 2 powi 128" using e by (intro power_int_increasing) simp_all
  with hi have "\<not> 2 powi 128 \<le> r" "\<not> r \<le> - (2 powi 128)" by (simp_all only: not_le)
  ultimately show ?thesis using False by (simp only: to_float_def Let_def if_False)
qed (simp add: to_float_def)

section \<open>Arithmetic\<close>

fun fp_neg :: "fp \<Rightarrow> fp" where
  "fp_neg (Fin r) = Fin (- r)"
| "fp_neg PInf = NInf"
| "fp_neg NInf = PInf"
| "fp_neg NaN = NaN"

fun fp_add :: "fp \<Rightarrow> fp \<Rightarrow> fp" where
  "fp_add (Fin a) (Fin b) = to_float (a + b)"
| "fp_add NaN _ = NaN"
| "fp_add _ NaN = NaN"
| "fp_add PInf NInf = NaN"
| "fp_add NInf PInf = NaN"
| "fp_add PInf _ = PInf"
| "fp_add _ PInf = PInf"
| "fp_add NInf _ = NInf"
| "fp_add _ NInf = NInf"

definition fp_sub :: "fp \<Rightarrow> fp \<Rightarrow> fp" where
  "fp_sub a b = fp_add a (fp_neg b)"

fun fp_sgn :: "fp \<Rightarrow> int" where
  "fp_sgn (Fin r) = (if 0 < r then 1 else if r < 0 then - 1 else 0)"
| "fp_sgn PInf = 1"
| "fp_sgn NInf = - 1"
| "fp_sgn NaN = 0"

fun fp_mul :: "fp \<Rightarrow> fp \<Rightarrow> fp" where
  "fp_mul (Fin a) (Fin b) = to_float (a * b)"
| "fp_mul a b =
     (if a = NaN \<or> b = NaN \<or> fp_sgn a = 0 \<or> fp_sgn b = 0 then NaN
      else if fp_sgn a = fp_sgn b then PInf else NInf)"

text \<open>The sources divide only by finite numbers other than zero.\<close>

fun fp_div :: "fp \<Rightarrow> fp \<Rightarrow> fp" where
  "fp_div (Fin a) (Fin b) = (if b = 0 then NaN else to_float (a / b))"
| "fp_div (Fin a) NaN = NaN"
| "fp_div (Fin a) _ = Fin 0"
| "fp_div a b = (if a = NaN \<or> \<not> fp_finite b \<or> fp_sgn b = 0 then NaN else if fp_sgn a = fp_sgn b then PInf else NInf)"

text \<open>\<open>std::round\<close>: to the nearest integer, halves away from zero.\<close>

definition round_away :: "rat \<Rightarrow> int" where
  "round_away r = (if 0 \<le> r then \<lfloor>r + 1 / 2\<rfloor> else - \<lfloor>- r + 1 / 2\<rfloor>)"

lemma round_away_int [simp]: "round_away (of_int k) = k"
  unfolding round_away_def by (simp add: floor_eq_iff)

lemma round_away_numeral [simp]:
  "round_away (numeral n) = numeral n" "round_away (- numeral n) = - numeral n"
  using round_away_int [of "numeral n"] round_away_int [of "- numeral n"] by (simp_all del: round_away_int)

text \<open>
  The cast of a \<open>float\<close> to \<open>int\<close> after \<open>std::round\<close>; \<open>fc\<close> stands for the result that the language leaves
  undefined, for a value that is not finite or not in the range of \<open>int\<close>.
\<close>

fun round_int :: "(fp \<Rightarrow> int) \<Rightarrow> fp \<Rightarrow> int" where
  "round_int fc (Fin r) =
     (if - (2 ^ 31) \<le> round_away r \<and> round_away r < 2 ^ 31 then round_away r else fc (Fin r))"
| "round_int fc v = fc v"

text \<open>Rounding to \<open>double\<close>, in its normal and subnormal range.\<close>

definition to_double :: "rat \<Rightarrow> rat" where
  "to_double r =
     (if r = 0 then 0
      else let u = 2 powi (max (log2r \<bar>r\<bar>) (- 1022) - 52) in of_int (round_even (r / u)) * u)"

lemma to_float_0 [simp]: "to_float 0 = Fin 0"
  by (simp add: to_float_def)

text \<open>Small integers and halves are floats, so that arithmetic on them is exact.\<close>

lemma to_float_int: "\<bar>k\<bar> < 2 ^ 24 \<Longrightarrow> to_float (of_int k) = Fin (of_int k)"
  by (rule to_float_exact [of _ k 0]) simp_all

lemma to_float_small [simp]:
  "to_float 1 = Fin 1"
  "to_float (- 1) = Fin (- 1)"
  "(numeral n :: int) < 2 ^ 24 \<Longrightarrow> to_float (numeral n) = Fin (numeral n)"
  "(numeral n :: int) < 2 ^ 24 \<Longrightarrow> to_float (- numeral n) = Fin (- numeral n)"
  "to_float (1 / 2) = Fin (1 / 2)"
  "(numeral n :: int) < 2 ^ 24 \<Longrightarrow> to_float (numeral n / 2) = Fin (numeral n / 2)"
proof -
  show "to_float 1 = Fin 1" "to_float (- 1) = Fin (- 1)"
    using to_float_int [of 1] to_float_int [of "- 1"] by simp_all
  show "to_float (numeral n) = Fin (numeral n)" "to_float (- numeral n) = Fin (- numeral n)"
    if "(numeral n :: int) < 2 ^ 24"
    using that to_float_int [of "numeral n"] to_float_int [of "- numeral n"] by simp_all
  show "to_float (1 / 2) = Fin (1 / 2)" by (rule to_float_exact [of _ 1 "- 1"]) simp_all
  show "to_float (numeral n / 2) = Fin (numeral n / 2)" if "(numeral n :: int) < 2 ^ 24"
    by (rule to_float_exact [of _ "numeral n" "- 1"]) (use that in simp_all)
qed

lemma to_double_1 [simp]: "to_double 1 = 1"
proof -
  have "log2r 1 = 0" by (simp add: log2r_def floorlog_def)
  then have "to_double 1 = of_int (round_even (of_int (2 ^ 52))) * 2 powi - 52"
    by (simp add: to_double_def power_int_minus)
  then show ?thesis by (simp only: round_even_of_int) (simp add: power_int_minus)
qed

text \<open>Evaluation of a rounding: \<open>e\<close> is the exponent, \<open>k\<close> the significand, the nearest integer.\<close>

lemma log2r_eq:
  assumes "2 powi e \<le> r" and "r < 2 powi (e + 1)"
  shows "log2r r = e"
proof -
  have "0 < r" using assms(1) by (rule less_le_trans [rotated]) simp
  have "e \<le> log2r r" by (rule log2r_ge [OF assms(1)])
  moreover have "\<not> e + 1 \<le> log2r r"
    using power_int_increasing [of "e + 1" "log2r r" "2 :: rat"] log2r_bounds(1) [OF \<open>0 < r\<close>] assms(2) by auto
  ultimately show ?thesis by simp
qed

lemma round_even_nearest:
  assumes "\<bar>x - of_int k\<bar> < 1 / 2"
  shows "round_even x = k"
proof -
  have "\<lfloor>x\<rfloor> = k \<or> \<lfloor>x\<rfloor> = k - 1" using assms by linarith
  then show ?thesis using assms by (auto simp: round_even_def Let_def abs_less_iff)
qed

lemma to_float_eval:
  assumes e: "2 powi e \<le> \<bar>r\<bar>" "\<bar>r\<bar> < 2 powi (e + 1)" "- 126 \<le> e" "e \<le> 126"
    and k: "\<bar>r / 2 powi (e - 23) - of_int k\<bar> < 1 / 2" and v: "v = of_int k * 2 powi (e - 23)"
  shows "to_float r = Fin v"
proof -
  have u: "ulp r = 2 powi (e - 23)" using e(3) by (simp only: ulp_def log2r_eq [OF e(1,2)] max_absorb1)
  have "0 < \<bar>r\<bar>" using e(1) by (rule less_le_trans [rotated]) simp
  then have r0: "r \<noteq> 0" by simp
  have pos: "(0 :: rat) < 2 powi (e - 23)" by simp
  have "v - r = - ((r / 2 powi (e - 23) - of_int k) * 2 powi (e - 23))" using pos by (simp add: v field_simps)
  then have "\<bar>v - r\<bar> = \<bar>r / 2 powi (e - 23) - of_int k\<bar> * 2 powi (e - 23)" using pos by (simp add: abs_mult)
  also have "\<dots> \<le> 1 * 2 powi (e - 23)" using k pos by (intro mult_right_mono) simp_all
  also have "\<dots> \<le> 2 powi 126" using e(4) by (simp only: mult_1) (intro power_int_increasing, simp_all)
  finally have d: "\<bar>v - r\<bar> \<le> 2 powi 126" .
  have "(2 :: rat) powi (e + 1) \<le> 2 powi 127" using e(4) by (intro power_int_increasing) simp_all
  then have r: "\<bar>r\<bar> < 2 powi 127" using e(2) by simp
  define M :: rat where "M = 2 powi 126"
  have M: "2 powi 127 = 2 * M" "2 powi 128 = 4 * M" by (simp_all add: M_def)
  from d r have "v < 4 * M" "- (4 * M) < v" unfolding M M_def [symmetric] by (simp_all only: abs_le_iff abs_less_iff) linarith+
  then show ?thesis
    using r0 by (simp only: to_float_def Let_def if_False u round_even_nearest [OF k] v [symmetric] M not_le) auto
qed

end
