(* ===== verification/InferenceHealth.thy ===== *)
theory InferenceHealth
  imports Prelude Complex_Main
begin

text \<open>
  The slow-inference monitor of \<open>app/InferenceHealth.h\<close>. The inference worker brackets each frame
  with \<open>begin\<close> and \<open>end\<close> (or \<open>fail\<close>); observers read \<open>degraded\<close> and \<open>snapshot\<close>. A service time is a
  finite \<open>double\<close>, read as the rational number it denotes: it is only compared, and \<open>slow_ms_ * 0.75\<close>
  is exact for a 32-bit \<open>slow_ms_\<close>. The two streak counters keep their machine width.
\<close>

section \<open>State and operations\<close>

record health =
  ih_active :: bool
  ih_degraded :: bool
  ih_slow :: u32
  ih_fast :: u32
  ih_last_ms :: rat
  ih_started :: nat
  ih_slow_ms :: int
  ih_stall_ms :: int

definition InferenceHealth :: "int \<Rightarrow> int \<Rightarrow> health" where
  "InferenceHealth slow stall =
     \<lparr>ih_active = False, ih_degraded = False, ih_slow = 0, ih_fast = 0, ih_last_ms = 0,
      ih_started = 0, ih_slow_ms = slow, ih_stall_ms = stall\<rparr>"

definition health_begin :: "nat \<Rightarrow> health \<Rightarrow> health" where
  "health_begin now h = h\<lparr>ih_active := True, ih_started := now\<rparr>"

definition health_end :: "rat \<Rightarrow> health \<Rightarrow> health" where
  "health_end ms h0 =
     (let h = h0\<lparr>ih_active := False, ih_last_ms := ms\<rparr>
      in if of_int (ih_slow_ms h) \<le> ms then
           let h1 = h\<lparr>ih_fast := 0, ih_slow := ih_slow h + 1\<rparr>
           in if 3 \<le> ih_slow h1 then h1\<lparr>ih_degraded := True\<rparr> else h1
         else if ms < of_int (ih_slow_ms h) * (3 / 4) then
           let h1 = h\<lparr>ih_slow := 0, ih_fast := ih_fast h + 1\<rparr>
           in if 10 \<le> ih_fast h1 then h1\<lparr>ih_degraded := False\<rparr> else h1
         else h\<lparr>ih_slow := 0, ih_fast := 0\<rparr>)"

definition health_fail :: "health \<Rightarrow> health" where
  "health_fail h = h\<lparr>ih_active := False, ih_slow := 0, ih_fast := 0\<rparr>"

definition degraded :: "health \<Rightarrow> bool" where
  "degraded h = ih_degraded h"

text \<open>The JSON object of \<open>snapshot\<close>, field by field.\<close>

datatype health_state = Stalled | Degraded | Normal

record health_report =
  hr_state :: health_state
  hr_active :: bool
  hr_active_ms :: rat
  hr_last_service_ms :: rat
  hr_slow_streak :: u32
  hr_fast_streak :: u32

definition health_snapshot :: "nat \<Rightarrow> health \<Rightarrow> health_report" where
  "health_snapshot now h =
     (let age = (if ih_active h then (rat_of_nat now - rat_of_nat (ih_started h)) / 1000000 else 0)
      in \<lparr>hr_state = (if of_int (ih_stall_ms h) \<le> age then Stalled
                      else if ih_degraded h then Degraded else Normal),
          hr_active = ih_active h, hr_active_ms = age, hr_last_service_ms = ih_last_ms h,
          hr_slow_streak = ih_slow h, hr_fast_streak = ih_fast h\<rparr>)"

section \<open>Specification over the history of outcomes\<close>

text \<open>
  An outcome of one frame: the service completed in \<open>ms\<close>, or it failed. The specification looks
  only at the list of outcomes, newest first: how many of the latest ones were slow (respectively
  fast) in a row, and from these whether the service is degraded.
\<close>

datatype outcome = Served rat | Failed

fun is_slow :: "int \<Rightarrow> outcome \<Rightarrow> bool" where
  "is_slow slow (Served ms) = (of_int slow \<le> ms)"
| "is_slow slow Failed = False"

fun is_fast :: "int \<Rightarrow> outcome \<Rightarrow> bool" where
  "is_fast slow (Served ms) = (ms < of_int slow \<and> ms < of_int slow * (3 / 4))"
| "is_fast slow Failed = False"

definition streak :: "(outcome \<Rightarrow> bool) \<Rightarrow> outcome list \<Rightarrow> nat" where
  "streak P os = length (takeWhile P os)"

fun spec_degraded :: "int \<Rightarrow> outcome list \<Rightarrow> bool" where
  "spec_degraded slow [] = False"
| "spec_degraded slow (x # xs) =
     (if 3 \<le> streak (is_slow slow) (x # xs) then True
      else if 10 \<le> streak (is_fast slow) (x # xs) then False
      else spec_degraded slow xs)"

fun observe :: "outcome \<Rightarrow> health \<Rightarrow> health" where
  "observe (Served ms) h = health_end ms h"
| "observe Failed h = health_fail h"

text \<open>The monitor after a history of outcomes, newest first.\<close>

fun observe_all :: "outcome list \<Rightarrow> health \<Rightarrow> health" where
  "observe_all [] h = h"
| "observe_all (x # xs) h = observe x (observe_all xs h)"

lemma streak_Cons: "streak P (x # xs) = (if P x then Suc (streak P xs) else 0)"
  by (simp add: streak_def)

text \<open>
  The simulation relation: the counters are the streaks modulo \<open>2 ^ 32\<close>, and a streak long enough to
  have set or cleared the flag has left it so. The second part is what makes a wrapped counter
  harmless.
\<close>

definition health_rel :: "int \<Rightarrow> int \<Rightarrow> outcome list \<Rightarrow> health \<Rightarrow> bool" where
  "health_rel slow stall os h \<longleftrightarrow>
     ih_slow_ms h = slow \<and> ih_stall_ms h = stall \<and>
     ih_slow h = of_nat (streak (is_slow slow) os) \<and>
     ih_fast h = of_nat (streak (is_fast slow) os) \<and>
     ih_degraded h = spec_degraded slow os"

lemma spec_degraded_slow: "3 \<le> streak (is_slow slow) os \<Longrightarrow> spec_degraded slow os"
  by (cases os) (auto simp: streak_def)

lemma spec_degraded_fast: "10 \<le> streak (is_fast slow) os \<Longrightarrow> \<not> spec_degraded slow os"
proof -
  assume fast: "10 \<le> streak (is_fast slow) os"
  then obtain x xs where os: "os = x # xs" by (cases os) (auto simp: streak_def)
  with fast have "is_fast slow x" by (auto simp: streak_Cons split: if_splits)
  then have "\<not> is_slow slow x" by (cases x) auto
  with fast os show ?thesis by (simp add: streak_Cons)
qed

lemma word_reach: "(k :: u32) \<le> of_nat m \<Longrightarrow> unat k \<le> m"
  by (metis word_le_nat_alt unat_of_nat mod_less_eq_dividend order_trans)

text \<open>
  Counting one more slow outcome: the wrapped counter reaches 3 only if the streak does, and if it
  misses it the streak was already long enough before, so the flag is set already.
\<close>

lemma slow_reach:
  "(3 :: u32) \<le> of_nat (Suc (streak (is_slow slow) os)) \<or> spec_degraded slow os
     \<longleftrightarrow> 3 \<le> Suc (streak (is_slow slow) os) \<or> spec_degraded slow os"
proof (cases "3 \<le> streak (is_slow slow) os")
  case True
  then show ?thesis using spec_degraded_slow by blast
next
  case False
  then have "streak (is_slow slow) os \<in> {0, 1, 2}" by auto
  then show ?thesis by (auto simp: word_le_nat_alt)
qed

lemma fast_reach:
  "\<not> (10 :: u32) \<le> of_nat (Suc (streak (is_fast slow) os)) \<and> spec_degraded slow os
     \<longleftrightarrow> \<not> 10 \<le> Suc (streak (is_fast slow) os) \<and> spec_degraded slow os"
proof (cases "10 \<le> streak (is_fast slow) os")
  case True
  then show ?thesis using spec_degraded_fast by blast
next
  case False
  then have "streak (is_fast slow) os \<in> {0, 1, 2, 3, 4, 5, 6, 7, 8, 9}" by auto
  then show ?thesis by (auto simp: word_le_nat_alt)
qed

lemma observe_rel: "health_rel slow stall os h \<Longrightarrow> health_rel slow stall (x # os) (observe x h)"
proof (cases x)
  case Failed
  assume "health_rel slow stall os h"
  with Failed show ?thesis by (simp add: health_rel_def health_fail_def streak_Cons)
next
  case (Served ms)
  assume rel: "health_rel slow stall os h"
  consider "of_int slow \<le> ms" | "ms < of_int slow" "ms < of_int slow * (3 / 4)"
    | "ms < of_int slow" "\<not> ms < of_int slow * (3 / 4)" by linarith
  then show ?thesis
  proof cases
    case 1
    then show ?thesis using rel Served slow_reach [of slow os]
      by (auto simp: health_rel_def health_end_def streak_Cons Let_def add.commute)
  next
    case 2
    then show ?thesis using rel Served fast_reach [of slow os]
      by (auto simp: health_rel_def health_end_def streak_Cons Let_def add.commute)
  next
    case 3
    then show ?thesis using rel Served
      by (auto simp: health_rel_def health_end_def streak_Cons Let_def)
  qed
qed

lemma observe_all_rel: "health_rel slow stall os (observe_all os (InferenceHealth slow stall))"
proof (induction os)
  case Nil
  then show ?case by (simp add: health_rel_def InferenceHealth_def streak_def)
next
  case (Cons x os)
  then show ?case by (simp add: observe_rel)
qed

text \<open>The specification without recursion: a slow run happened, and no fast run since.\<close>

lemma spec_degraded_iff:
  "spec_degraded slow os \<longleftrightarrow>
     (\<exists>i \<le> length os. 3 \<le> streak (is_slow slow) (drop i os) \<and>
        (\<forall>j < i. streak (is_fast slow) (drop j os) < 10))"
proof (induction os)
  case Nil
  then show ?case by (simp add: streak_def)
next
  case (Cons x xs)
  let ?P = "\<lambda>os i. 3 \<le> streak (is_slow slow) (drop i os) \<and>
    (\<forall>j < i. streak (is_fast slow) (drop j os) < 10)"
  have shift: "?P (x # xs) (Suc i) \<longleftrightarrow> streak (is_fast slow) (x # xs) < 10 \<and> ?P xs i" for i
    by (auto simp: less_Suc_eq_0_disj)
  have "(\<exists>i \<le> length (x # xs). ?P (x # xs) i) \<longleftrightarrow>
      ?P (x # xs) 0 \<or> (\<exists>i \<le> length xs. ?P (x # xs) (Suc i))"
    unfolding list.size(4) add_0_right add_Suc_right One_nat_def by (rule ex_le_Suc)
  also have "\<dots> \<longleftrightarrow> 3 \<le> streak (is_slow slow) (x # xs) \<or>
      (streak (is_fast slow) (x # xs) < 10 \<and> (\<exists>i \<le> length xs. ?P xs i))"
    unfolding shift by auto
  finally show ?case using Cons.IH by auto
qed

section \<open>Properties of the monitor\<close>

text \<open>C28: After any history of completed and failed frames, on a monitor built with any thresholds,
  \<open>degraded\<close> answers exactly the documented rule: at some point of the history three services in a
  row took at least \<open>slow_ms\<close>, and since then there have never been ten in a row below three
  quarters of it. The wrap-around of the 32-bit streak counters never shows.\<close>

theorem degraded_iff_history:
  "degraded (observe_all os (InferenceHealth slow stall)) \<longleftrightarrow>
     (\<exists>i \<le> length os. 3 \<le> streak (is_slow slow) (drop i os) \<and>
        (\<forall>j < i. streak (is_fast slow) (drop j os) < 10))"
  using observe_all_rel [of slow stall os] by (simp add: health_rel_def degraded_def spec_degraded_iff)

theorem degraded_iff_history_witness:
  "degraded (observe_all [Served 120, Served 200, Served 150, Served 151, Failed] (InferenceHealth 150 2000)) \<and>
   \<not> degraded (observe_all [Served 200, Served 200, Served 149, Served 200] (InferenceHealth 150 2000))"
  unfolding degraded_iff_history
  by (auto simp: ex_le_Suc numeral_eq_Suc streak_def )

lemma health_frame [simp]:
  "ih_stall_ms (health_begin now h) = ih_stall_ms h"
  "ih_stall_ms (health_end ms h) = ih_stall_ms h"
  "ih_stall_ms (health_fail h) = ih_stall_ms h"
  "\<not> ih_active (health_end ms h)"
  "\<not> ih_active (health_fail h)"
  by (auto simp: health_begin_def health_end_def health_fail_def Let_def)

text \<open>With a positive stall threshold, \<open>snapshot\<close> reports \<open>stalled\<close> exactly while a call is in
  flight and has been for at least \<open>stall_ms\<close>: a monitor that was begun at \<open>t\<close> is stalled at \<open>now\<close>
  iff \<open>stall_ms\<close> milliseconds have passed, and once the call has ended or failed it is not.\<close>

theorem stalled_iff_in_flight:
  assumes "0 < ih_stall_ms h" and "t \<le> now"
  shows "(hr_state (health_snapshot now (health_begin t h)) = Stalled \<longleftrightarrow>
            ih_stall_ms h * 1000000 \<le> int (now - t)) \<and>
         hr_state (health_snapshot now (health_end ms h)) \<noteq> Stalled \<and>
         hr_state (health_snapshot now (health_fail h)) \<noteq> Stalled"
proof -
  have "rat_of_int (ih_stall_ms h) \<le> (rat_of_nat now - rat_of_nat t) / 1000000 \<longleftrightarrow>
      rat_of_int (ih_stall_ms h * 1000000) \<le> rat_of_int (int (now - t))"
    using assms(2) by (simp add: field_simps of_nat_diff)
  then have "rat_of_int (ih_stall_ms h) \<le> (rat_of_nat now - rat_of_nat t) / 1000000 \<longleftrightarrow>
      ih_stall_ms h * 1000000 \<le> int (now - t)"
    unfolding of_int_le_iff .
  with assms show ?thesis
    by (simp add: health_snapshot_def Let_def of_nat_diff) (simp add: health_begin_def)
qed

theorem stalled_iff_in_flight_witness:
  "hr_state (health_snapshot 3000000000 (health_begin 0 (InferenceHealth 150 2000))) = Stalled \<and>
   hr_state (health_snapshot 1999999999 (health_begin 0 (InferenceHealth 150 2000))) \<noteq> Stalled"
proof -
  have "0 < ih_stall_ms (InferenceHealth 150 2000)" by (simp add: InferenceHealth_def)
  from stalled_iff_in_flight [OF this, of 0 3000000000] stalled_iff_in_flight [OF this, of 0 1999999999]
  show ?thesis by (simp add: InferenceHealth_def)
qed

end
