(* ===== verification/EventStorage.thy ===== *)
theory EventStorage
  imports Json
begin

text \<open>
  The recording directory of \<open>media/EventStorage.h\<close>: which files are ours, which of them may be deleted,
  and the eviction of the oldest ones until a budget holds. A directory is the list of its entries in the
  order the iterator yields them. What the file system answers when a file is removed, and the space that
  is available after some removals, are parameters. Sizes are numbers without a bound.
\<close>

section \<open>The directory\<close>

record storage_limits =
  sl_bytes :: nat
  sl_files :: nat
  sl_free_bytes :: nat
  sl_event_seconds :: int

definition StorageLimits :: storage_limits where
  "StorageLimits = \<lparr>sl_bytes = 256 * 1024 * 1024, sl_files = 128, sl_free_bytes = 64 * 1024 * 1024,
     sl_event_seconds = 60\<rparr>"

text \<open>
  The manifest beside an entry: a regular file with its size and its content, where \<open>None\<close> stands for
  content that does not parse. \<open>de_manifest\<close> is \<open>None\<close> when there is none, or only a symbolic link.
\<close>

record dir_entry =
  de_name :: string
  de_symlink :: bool
  de_regular :: bool
  de_size :: nat
  de_time :: int
  de_manifest :: "(nat \<times> json option) option"

record storage_item =
  it_name :: string
  it_size :: nat
  it_time :: int
  it_removable :: bool

section \<open>Recognized names\<close>

text \<open>The regular expression \<open>event-[0-9]+-[0-9]+\.h264\<close>, for the whole name.\<close>

definition is_digit :: "char \<Rightarrow> bool" where
  "is_digit c \<longleftrightarrow> c \<in> set ''0123456789''"

fun strip_prefix :: "string \<Rightarrow> string \<Rightarrow> string option" where
  "strip_prefix [] s = Some s"
| "strip_prefix (p # ps) [] = None"
| "strip_prefix (p # ps) (c # cs) = (if p = c then strip_prefix ps cs else None)"

text \<open>One or more digits; taking as many as there are is right, since no digit can follow.\<close>

definition strip_digits :: "string \<Rightarrow> string option" where
  "strip_digits s = (if s \<noteq> [] \<and> is_digit (hd s) then Some (dropWhile is_digit s) else None)"

definition event_name :: "string \<Rightarrow> bool" where
  "event_name s \<longleftrightarrow>
     Option.bind (Option.bind (Option.bind (Option.bind (strip_prefix ''event-'' s) strip_digits)
       (strip_prefix ''-'')) strip_digits) (strip_prefix ''.h264'') = Some []"

section \<open>Reserving space\<close>

text \<open>\<open>directory / name\<close> of \<open>std::filesystem\<close>.\<close>

definition join_path :: "string \<Rightarrow> string \<Rightarrow> string" where
  "join_path d n = (if d = [] then n else if last d = CHR ''/'' then d @ n else d @ ''/'' @ n)"

text \<open>A finished recording: each of the conditions is only evaluated when those before it hold.\<close>

definition manifest_removable :: "json \<Rightarrow> bool result" where
  "manifest_removable data =
     and_result (Inr (is_object data))
       (and_result (bind_result (json_value get_string data ''format'' []) (\<lambda>f. Inr (f = ''Annex-B H264'')))
         (and_result (json_value get_bool data ''write_ok'' False)
           (and_result (json_value get_bool data ''complete'' False)
             (Inr (contains data ''reason'')))))"

text \<open>The loop over the directory: the recognized regular files, with the bytes they use.\<close>

fun scan :: "string \<Rightarrow> string \<Rightarrow> dir_entry list \<Rightarrow> (storage_item list \<times> nat) result" where
  "scan dir active [] = Inr ([], 0)"
| "scan dir active (e # es) =
     (if \<not> event_name (de_name e) \<or> de_symlink e \<or> \<not> de_regular e then scan dir active es
      else
        bind_result
          (case de_manifest e of
             None \<Rightarrow> Inr (de_size e, False)
           | Some (msize, data) \<Rightarrow>
               bind_result (case data of None \<Rightarrow> Inr False | Some j \<Rightarrow> manifest_removable j)
                 (\<lambda>removable. Inr (de_size e + msize, removable)))
          (\<lambda>(size, removable).
             bind_result (scan dir active es)
               (\<lambda>(items, used). Inr
                  (\<lparr>it_name = de_name e, it_size = size, it_time = de_time e,
                    it_removable = (removable \<and> join_path dir (de_name e) \<noteq> active)\<rparr> # items,
                   size + used))))"

text \<open>
  \<open>space removed\<close> is what \<open>fs::space\<close> reports as available after the files \<open>removed\<close> are gone.
\<close>

definition enough :: "storage_limits \<Rightarrow> (string list \<Rightarrow> nat) \<Rightarrow> nat \<Rightarrow> nat \<Rightarrow> nat \<Rightarrow> string list \<Rightarrow> bool" where
  "enough lims space incoming used files removed \<longleftrightarrow>
     incoming \<le> sl_bytes lims \<and> used \<le> sl_bytes lims - incoming \<and> files \<le> sl_files lims \<and>
     sl_free_bytes lims + incoming \<le> space removed"

text \<open>
  The eviction loop. \<open>rm name\<close> is what \<open>fs::remove\<close> does with a name in the directory: whether there
  was something to remove, or an exception. The files removed so far are returned in any case.
\<close>

fun evict :: "storage_limits \<Rightarrow> (string list \<Rightarrow> nat) \<Rightarrow> (string \<Rightarrow> bool result) \<Rightarrow> nat \<Rightarrow>
    storage_item list \<Rightarrow> nat \<Rightarrow> nat \<Rightarrow> string list \<Rightarrow> string list \<times> (nat \<times> nat) result" where
  "evict lims space rm incoming [] used files removed = (removed, Inr (used, files))"
| "evict lims space rm incoming (it # its) used files removed =
     (if enough lims space incoming used files removed then (removed, Inr (used, files))
      else if \<not> it_removable it then evict lims space rm incoming its used files removed
      else
        case rm (it_name it) of
          Inl e \<Rightarrow> (removed, Inl e)
        | Inr False \<Rightarrow> evict lims space rm incoming its used files removed
        | Inr True \<Rightarrow>
            (case rm (it_name it @ ''.json'') of
               Inl e \<Rightarrow> (removed @ [it_name it], Inl e)
             | Inr _ \<Rightarrow>
                 evict lims space rm incoming its (used - it_size it) (files - 1) (removed @ [it_name it])))"

text \<open>
  \<open>reserve\<close>: the names removed and the answer. Entries with equal times keep their order here;
  \<open>std::sort\<close> may order them in any way.
\<close>

definition reserve ::
  "(string list \<Rightarrow> nat) \<Rightarrow> (string \<Rightarrow> bool result) \<Rightarrow> string \<Rightarrow> bool \<Rightarrow> storage_limits \<Rightarrow>
   dir_entry list \<Rightarrow> nat \<Rightarrow> string \<Rightarrow> bool \<Rightarrow> string list \<times> bool result" where
  "reserve space rm dir dir_is_symlink lims entries incoming active opening =
     (if dir_is_symlink then ([], Inr False)
      else
        case scan dir active entries of
          Inl e \<Rightarrow> ([], Inl e)
        | Inr (items, used) \<Rightarrow>
            let files = length items + (if opening then 1 else 0);
                (removed, r) = evict lims space rm incoming (sort_key it_time items) used files []
            in (removed,
                bind_result r (\<lambda>(used1, files1). Inr (enough lims space incoming used1 files1 removed))))"

definition maxSeconds :: "storage_limits \<Rightarrow> int" where
  "maxSeconds lims = sl_event_seconds lims"

section \<open>Properties\<close>

text \<open>The bytes of the recognized files whose names satisfy \<open>P\<close>, manifests included, and their number.\<close>

definition recognized :: "dir_entry \<Rightarrow> bool" where
  "recognized e \<longleftrightarrow> event_name (de_name e) \<and> \<not> de_symlink e \<and> de_regular e"

definition entry_size :: "dir_entry \<Rightarrow> nat" where
  "entry_size e = de_size e + (case de_manifest e of None \<Rightarrow> 0 | Some (n, _) \<Rightarrow> n)"

definition left_entries :: "string list \<Rightarrow> dir_entry list \<Rightarrow> dir_entry list" where
  "left_entries removed es = filter (\<lambda>e. recognized e \<and> de_name e \<notin> set removed) es"

text \<open>A finished recording other than the active one.\<close>

definition finished :: "string \<Rightarrow> string \<Rightarrow> dir_entry \<Rightarrow> bool" where
  "finished dir active e \<longleftrightarrow> recognized e \<and> join_path dir (de_name e) \<noteq> active \<and>
     (case de_manifest e of Some (_, Some j) \<Rightarrow> manifest_removable j = Inr True | _ \<Rightarrow> False)"

lemma scan_items:
  "scan dir active es = Inr (items, used) \<Longrightarrow>
     map it_name items = map de_name (filter recognized es) \<and>
     map it_size items = map entry_size (filter recognized es) \<and>
     map it_removable items = map (finished dir active) (filter recognized es) \<and>
     map it_time items = map de_time (filter recognized es) \<and> used = sum_list (map it_size items)"
proof (induction es arbitrary: items used)
  case (Cons e es)
  show ?case
  proof (cases "recognized e")
    case False
    then have "\<not> event_name (de_name e) \<or> de_symlink e \<or> \<not> de_regular e" by (auto simp: recognized_def)
    with Cons False show ?thesis by simp
  next
    case True
    then have rec: "event_name (de_name e)" "\<not> de_symlink e" "de_regular e" by (auto simp: recognized_def)
    with Cons.prems obtain size removable items' used' where
      first: "(case de_manifest e of
             None \<Rightarrow> Inr (de_size e, False)
           | Some (msize, data) \<Rightarrow>
               bind_result (case data of None \<Rightarrow> Inr False | Some j \<Rightarrow> manifest_removable j)
                 (\<lambda>removable. Inr (de_size e + msize, removable))) = Inr (size, removable)" and
      rest: "scan dir active es = Inr (items', used')" and
      new: "items = \<lparr>it_name = de_name e, it_size = size, it_time = de_time e,
          it_removable = (removable \<and> join_path dir (de_name e) \<noteq> active)\<rparr> # items'" "used = size + used'"
      by (fastforce simp: bind_result_Inr)
    from first have "size = entry_size e"
      by (auto simp: entry_size_def bind_result_Inr split: option.splits)
    moreover from first have "removable = (case de_manifest e of Some (_, Some j) \<Rightarrow> manifest_removable j = Inr True | _ \<Rightarrow> False)"
      by (auto simp: bind_result_Inr split: option.splits)
    ultimately show ?thesis using Cons.IH [OF rest] new True by (auto simp: finished_def)
  qed
qed simp

text \<open>The items the loop deletes when it looks at the first \<open>k\<close>.\<close>

definition evicted :: "(string \<Rightarrow> bool result) \<Rightarrow> nat \<Rightarrow> storage_item list \<Rightarrow> storage_item list" where
  "evicted rm k its = filter (\<lambda>it. it_removable it \<and> rm (it_name it) = Inr True) (take k its)"

lemma evicted_0 [simp]: "evicted rm 0 its = []"
  by (simp add: evicted_def)

lemma evicted_Suc:
  "evicted rm (Suc k) (it # its) =
     (if it_removable it \<and> rm (it_name it) = Inr True then it # evicted rm k its else evicted rm k its)"
  by (simp add: evicted_def)

lemma evict_spec:
  "evict lims space rm incoming its used files removed = (removed', r) \<Longrightarrow>
     sum_list (map it_size its) \<le> used \<Longrightarrow> length its \<le> files \<Longrightarrow>
   \<exists>k. let D = evicted rm k its in
     removed' = removed @ map it_name D \<and>
     (\<forall>u f. r = Inr (u, f) \<longrightarrow> u + sum_list (map it_size D) = used \<and> f + length D = files) \<and>
     (\<forall>n < length D. \<not> enough lims space incoming (used - sum_list (map it_size (take n D))) (files - n)
        (removed @ map it_name (take n D)))"
proof (induction its arbitrary: used files removed)
  case Nil
  then show ?case by (intro exI [of _ 0]) auto
next
  case (Cons it its)
  show ?case
  proof (cases "enough lims space incoming used files removed")
    case True
    with Cons.prems show ?thesis by (intro exI [of _ 0]) auto
  next
    case short: False
    show ?thesis
    proof (cases "it_removable it \<and> rm (it_name it) = Inr True")
      case True
      let ?removed = "removed @ [it_name it]"
      show ?thesis
      proof (cases "rm (it_name it @ ''.json'')")
        case (Inl e)
        then have "removed' = ?removed" "r = Inl e" using short True Cons.prems(1) by simp_all
        then show ?thesis using True short
          by (intro exI [of _ "Suc 0"]) (simp add: evicted_Suc)
      next
        case (Inr b)
        then have ev: "evict lims space rm incoming its (used - it_size it) (files - 1) ?removed = (removed', r)"
          using short True Cons.prems(1) by simp
        have "sum_list (map it_size its) \<le> used - it_size it" "length its \<le> files - 1"
          using Cons.prems(2,3) by simp_all
        from Cons.IH [OF ev this] obtain k where k: "removed' = ?removed @ map it_name (evicted rm k its)"
          "\<And>u f. r = Inr (u, f) \<Longrightarrow> u + sum_list (map it_size (evicted rm k its)) = used - it_size it \<and>
             f + length (evicted rm k its) = files - 1"
          "\<And>n. n < length (evicted rm k its) \<Longrightarrow>
             \<not> enough lims space incoming (used - it_size it - sum_list (map it_size (take n (evicted rm k its))))
               (files - 1 - n) (?removed @ map it_name (take n (evicted rm k its)))"
          by (auto simp: Let_def)
        have D: "evicted rm (Suc k) (it # its) = it # evicted rm k its" using True by (simp add: evicted_Suc)
        have "\<not> enough lims space incoming (used - sum_list (map it_size (take n (it # evicted rm k its)))) (files - n)
               (removed @ map it_name (take n (it # evicted rm k its)))"
          if "n < Suc (length (evicted rm k its))" for n
          using that short k(3) by (cases n) simp_all
        then show ?thesis using k(1,2) Cons.prems(2,3) D
          by (intro exI [of _ "Suc k"]) (auto simp: Let_def)
      qed
    next
      case False
      show ?thesis
      proof (cases "it_removable it \<and> (\<exists>e. rm (it_name it) = Inl e)")
        case True
        with short Cons.prems(1) show ?thesis by (intro exI [of _ 0]) auto
      next
        case no_throw: False
        then have "evict lims space rm incoming its used files removed = (removed', r)"
          using short False Cons.prems(1)
          by (cases "rm (it_name it)") (auto split: if_splits bool.splits)
        moreover have "sum_list (map it_size its) \<le> used" "length its \<le> files" using Cons.prems(2,3) by simp_all
        ultimately obtain k where "let D = evicted rm k its in
            removed' = removed @ map it_name D \<and>
            (\<forall>u f. r = Inr (u, f) \<longrightarrow> u + sum_list (map it_size D) = used \<and> f + length D = files) \<and>
            (\<forall>n < length D. \<not> enough lims space incoming (used - sum_list (map it_size (take n D))) (files - n)
               (removed @ map it_name (take n D)))"
          using Cons.IH by blast
        moreover have "evicted rm (Suc k) (it # its) = evicted rm k its" using False by (auto simp: evicted_Suc)
        ultimately show ?thesis by (intro exI [of _ "Suc k"]) simp
      qed
    qed
  qed
qed

text \<open>Splitting a list by the names of some of its elements.\<close>

lemma split_by_name:
  fixes g :: "'a \<Rightarrow> nat"
  assumes "distinct (map f xs)" and "distinct ds" and sub: "set ds \<subseteq> set xs"
  shows "sum_list (map g (filter (\<lambda>x. f x \<notin> f ` set ds) xs)) + sum_list (map g ds) = sum_list (map g xs)"
    and "length (filter (\<lambda>x. f x \<notin> f ` set ds) xs) + length ds = length xs"
proof -
  have inj: "inj_on f (set xs)" "distinct xs" using assms(1) by (simp_all add: distinct_map)
  have "set (filter (\<lambda>x. f x \<in> f ` set ds) xs) = set ds"
    using sub inj(1) by (auto simp: inj_on_def)
  then have in_ds: "mset (filter (\<lambda>x. f x \<in> f ` set ds) xs) = mset ds"
    using inj(2) assms(2) by (metis distinct_filter set_eq_iff_mset_eq_distinct)
  have parts: "mset xs = mset (filter (\<lambda>x. f x \<notin> f ` set ds) xs) + mset ds"
    using multiset_partition [of "mset xs" "\<lambda>x. f x \<in> f ` set ds"] in_ds
    unfolding mset_filter by (metis add.commute)
  from arg_cong [OF this, of "image_mset g"]
  have "mset (map g xs) = mset (map g (filter (\<lambda>x. f x \<notin> f ` set ds) xs) @ map g ds)" by simp
  from arg_cong [OF this, of sum_mset]
  show "sum_list (map g (filter (\<lambda>x. f x \<notin> f ` set ds) xs)) + sum_list (map g ds) = sum_list (map g xs)"
    by (simp only: sum_mset_sum_list sum_list_append)
  have "size (mset xs) = size (mset (filter (\<lambda>x. f x \<notin> f ` set ds) xs)) + size (mset ds)"
    unfolding parts by (rule size_union)
  then show "length (filter (\<lambda>x. f x \<notin> f ` set ds) xs) + length ds = length xs"
    by (simp only: size_mset)
qed

lemma evicted_sub:
  "set (evicted rm k its) \<subseteq> set its" "distinct its \<Longrightarrow> distinct (evicted rm k its)"
  by (auto simp: evicted_def dest: in_set_takeD)

text \<open>The items of a directory without the deleted ones are its remaining recognized entries.\<close>

lemma left_sums:
  assumes "scan dir active es = Inr (items, used)" and "distinct (map de_name es)"
    and "distinct ds" and "set ds \<subseteq> set items"
  shows "sum_list (map entry_size (left_entries (map it_name ds) es)) + sum_list (map it_size ds) = used"
    and "length (left_entries (map it_name ds) es) + length ds = length items"
proof -
  note items = scan_items [OF assms(1)]
  have names: "distinct (map it_name items)" using assms(2) items by (simp add: distinct_map_filter)
  have zip: "map (\<lambda>it. (it_name it, it_size it)) items = map (\<lambda>e. (de_name e, entry_size e)) (filter recognized es)"
    by (rule map_pair_eq) (use items in blast)+
  have left: "map (\<lambda>it. (it_name it, it_size it)) (filter (\<lambda>it. it_name it \<notin> it_name ` set ds) items) =
      map (\<lambda>e. (de_name e, entry_size e)) (left_entries (map it_name ds) es)"
  proof -
    have "filter (\<lambda>(n, z). n \<notin> it_name ` set ds) (map (\<lambda>it. (it_name it, it_size it)) items) =
        filter (\<lambda>(n, z). n \<notin> it_name ` set ds) (map (\<lambda>e. (de_name e, entry_size e)) (filter recognized es))"
      by (simp only: zip)
    then show ?thesis by (simp add: filter_map comp_def left_entries_def conj_commute)
  qed
  then have "map it_size (filter (\<lambda>it. it_name it \<notin> it_name ` set ds) items) =
      map entry_size (left_entries (map it_name ds) es)"
    by (metis (no_types, lifting) list.map_comp comp_def map_eq_conv snd_conv)
  then show "sum_list (map entry_size (left_entries (map it_name ds) es)) + sum_list (map it_size ds) = used"
    using split_by_name(1) [OF names assms(3,4), of it_size] items by simp
  from arg_cong [OF left, of length]
  show "length (left_entries (map it_name ds) es) + length ds = length items"
    using split_by_name(2) [OF names assms(3,4)] by simp
qed

text \<open>C21: What \<open>reserve\<close> promises when it says yes: the recognized files left in the directory, manifests
  included, together with the incoming bytes stay within the byte limit, their number (with the new file,
  when one is being opened) within the file limit, and the file system has the incoming bytes and the
  configured reserve available.\<close>

theorem reserve_within_budget:
  assumes "distinct (map de_name entries)"
    and "reserve space rm dir is_link lims entries incoming active opening = (removed, Inr True)"
  defines "left \<equiv> left_entries removed entries"
  shows "sum_list (map entry_size left) + incoming \<le> sl_bytes lims \<and>
         length left + (if opening then 1 else 0) \<le> sl_files lims \<and>
         sl_free_bytes lims + incoming \<le> space removed"
proof -
  obtain items used u f where scan: "scan dir active entries = Inr (items, used)"
    and ev: "evict lims space rm incoming (sort_key it_time items) used
        (length items + (if opening then 1 else 0)) [] = (removed, Inr (u, f))"
    and enough: "enough lims space incoming u f removed"
    using assms(2) by (auto simp: reserve_def Let_def bind_result_Inr split: if_splits sum.splits prod.splits)
  let ?its = "sort_key it_time items"
  have used: "used = sum_list (map it_size items)" using scan_items [OF scan] by simp
  have "sum_list (map it_size ?its) = sum_list (map it_size items)"
    by (metis mset_map mset_sort sum_mset_sum_list)
  then have "sum_list (map it_size ?its) \<le> used" "length ?its \<le> length items + (if opening then 1 else 0)"
    using used by simp_all
  from evict_spec [OF ev this] obtain k where
    k: "removed = map it_name (evicted rm k ?its)" "u + sum_list (map it_size (evicted rm k ?its)) = used"
      "f + length (evicted rm k ?its) = length items + (if opening then 1 else 0)"
    by (auto simp: Let_def)
  have "distinct (map it_name items)" using scan_items [OF scan] assms(1) by (simp add: distinct_map_filter)
  then have "distinct (evicted rm k ?its)" "set (evicted rm k ?its) \<subseteq> set items"
    using evicted_sub(1) [of rm k ?its] evicted_sub(2) [of ?its rm k] by (auto simp: distinct_map)
  from left_sums [OF scan assms(1) this] k
  have "sum_list (map entry_size left) = u" "length left + (if opening then 1 else 0) = f"
    by (simp_all add: left_def)
  moreover have "u + incoming \<le> sl_bytes lims" "f \<le> sl_files lims" "sl_free_bytes lims + incoming \<le> space removed"
    using enough by (auto simp: enough_def)
  ultimately show ?thesis by simp
qed

text \<open>What \<open>reserve\<close> went through: nothing, or the items of the directory from the oldest on.\<close>

lemma scanned_keys:
  assumes "scan dir active es = Inr (items, used)"
  shows "map (\<lambda>i. (it_name i, it_time i, it_removable i)) items =
           map (\<lambda>e. (de_name e, de_time e, finished dir active e)) (filter recognized es)"
  by (rule map_pair_eq [OF _ map_pair_eq]) (use scan_items [OF assms] in blast)+

lemma scanned_item:
  assumes "scan dir active es = Inr (items, used)" and "e \<in> set es" and "recognized e"
  shows "\<exists>i \<in> set items. it_name i = de_name e \<and> it_time i = de_time e \<and> (finished dir active e \<longleftrightarrow> it_removable i)"
proof -
  have "(de_name e, de_time e, finished dir active e)
      \<in> set (map (\<lambda>e. (de_name e, de_time e, finished dir active e)) (filter recognized es))"
    using assms(2,3) by simp
  then show ?thesis unfolding scanned_keys [OF assms(1), symmetric] by auto
qed

lemma scanned_entry:
  assumes "scan dir active es = Inr (items, used)" and "i \<in> set items"
  shows "\<exists>e \<in> set es. recognized e \<and> de_name e = it_name i \<and> de_time e = it_time i \<and>
           (finished dir active e \<longleftrightarrow> it_removable i)"
proof -
  have "(it_name i, it_time i, it_removable i) \<in> set (map (\<lambda>i. (it_name i, it_time i, it_removable i)) items)"
    using assms(2) by simp
  then show ?thesis unfolding scanned_keys [OF assms(1)] by auto
qed

lemma evicted_oldest:
  assumes i: "i \<in> set (evicted rm k its)"
    and i': "i' \<in> set its" "i' \<notin> set (evicted rm k its)" "it_removable i'" "rm (it_name i') = Inr True"
    and sorted: "sorted (map it_time its)"
  shows "it_time i \<le> it_time i'"
proof -
  obtain a where a: "a < k" "a < length its" "its ! a = i"
    using i by (auto simp: evicted_def in_set_conv_nth)
  obtain b where b: "b < length its" "its ! b = i'" using i'(1) by (auto simp: in_set_conv_nth)
  have "\<not> b < k"
  proof
    assume "b < k"
    then have "i' \<in> set (take k its)" using b by (force simp: in_set_conv_nth)
    then show False using i'(2-4) by (simp add: evicted_def)
  qed
  then show ?thesis using sorted_nth_mono [OF sorted, of a b] a b by simp
qed

lemma reserve_evicts:
  assumes "reserve space rm dir is_link lims es incoming active opening = (removed, r)"
  obtains (kept) "removed = []"
  | (evicted) items used k where "scan dir active es = Inr (items, used)"
      and "removed = map it_name (evicted rm k (sort_key it_time items))"
      and "enough lims space incoming used (length items + (if opening then 1 else 0)) [] \<Longrightarrow>
             evicted rm k (sort_key it_time items) = []"
proof (cases "\<exists>items used. \<not> is_link \<and> scan dir active es = Inr (items, used)")
  case False
  then have "removed = []" using assms by (auto simp: reserve_def split: if_splits sum.splits)
  then show ?thesis by (rule kept)
next
  case True
  then obtain items used where scan: "\<not> is_link" "scan dir active es = Inr (items, used)" by blast
  let ?its = "sort_key it_time items" and ?n = "length items + (if opening then 1 else 0)"
  obtain r' where ev: "evict lims space rm incoming ?its used ?n [] = (removed, r')"
    using assms scan by (auto simp: reserve_def Let_def split: prod.splits)
  have "sum_list (map it_size ?its) = sum_list (map it_size items)"
    by (metis mset_map mset_sort sum_mset_sum_list)
  then have "sum_list (map it_size ?its) \<le> used" "length ?its \<le> ?n" using scan_items [OF scan(2)] by simp_all
  from evict_spec [OF ev this] obtain k where k: "removed = map it_name (evicted rm k ?its)"
    "\<And>n. n < length (evicted rm k ?its) \<Longrightarrow>
       \<not> enough lims space incoming (used - sum_list (map it_size (take n (evicted rm k ?its)))) (?n - n)
         (map it_name (take n (evicted rm k ?its)))"
    by (auto simp: Let_def)
  have "evicted rm k ?its = []" if "enough lims space incoming used ?n []"
    using k(2) [of 0] that by auto
  with scan(2) k(1) show ?thesis by (rule evicted)
qed

text \<open>C22: \<open>reserve\<close> deletes only what it may: whatever it answers, also when it throws half-way, every file
  it removed was a recognized, regular, finished recording that is not the active one; nothing is removed
  when the budget holds already, and the oldest finished recordings go first: one that is kept although it
  could be removed is not older than any that was removed.\<close>

theorem reserve_deletes_oldest_finished:
  assumes "distinct (map de_name entries)"
    and "reserve space rm dir is_link lims entries incoming active opening = (removed, r)"
  shows "(\<forall>n \<in> set removed. \<exists>e \<in> set entries. de_name e = n \<and> finished dir active e) \<and>
         (\<forall>e \<in> set entries. \<forall>e' \<in> set entries.
            de_name e \<in> set removed \<and> de_name e' \<notin> set removed \<and> finished dir active e' \<and>
            rm (de_name e') = Inr True \<longrightarrow> de_time e \<le> de_time e') \<and>
         (enough lims space incoming (sum_list (map entry_size (filter recognized entries)))
            (length (filter recognized entries) + (if opening then 1 else 0)) [] \<longrightarrow> removed = [])"
  using assms(2)
proof (cases rule: reserve_evicts)
  case (evicted items used k)
  let ?its = "sort_key it_time items"
  note entry = scanned_entry [OF evicted(1)] and item = scanned_item [OF evicted(1)]
  have "\<exists>e \<in> set entries. de_name e = n \<and> finished dir active e" if n: "n \<in> set removed" for n
  proof -
    obtain i where i: "i \<in> set (evicted rm k ?its)" "it_name i = n" using n evicted(2) by auto
    then have "i \<in> set items" "it_removable i" using evicted_sub(1) [of rm k ?its] by (auto simp: evicted_def)
    with entry i(2) show ?thesis by blast
  qed
  moreover have "de_time e \<le> de_time e'"
    if e: "e \<in> set entries" "e' \<in> set entries" "de_name e \<in> set removed" "de_name e' \<notin> set removed"
      "finished dir active e'" "rm (de_name e') = Inr True" for e e'
  proof -
    obtain i where i: "i \<in> set (evicted rm k ?its)" "it_name i = de_name e" using e(3) evicted(2) by auto
    then have "i \<in> set items" using evicted_sub(1) [of rm k ?its] by auto
    from entry [OF this] i(2) assms(1) e(1) have time: "it_time i = de_time e"
      by (auto simp: distinct_map inj_on_def)
    have "recognized e'" using e(5) by (simp add: finished_def)
    from item [OF e(2) this] e(5) obtain i' where i': "i' \<in> set ?its" "it_name i' = de_name e'"
        "it_time i' = de_time e'" "it_removable i'"
      by auto
    moreover have "it_name i' \<in> set removed" if "i' \<in> set (evicted rm k ?its)"
      using that unfolding evicted(2) by simp
    then have "i' \<notin> set (evicted rm k ?its)" using e(4) i'(2) by auto
    ultimately show ?thesis using evicted_oldest [OF i(1) i'(1)] e(6) time sorted_sort_key [of it_time items] by simp
  qed
  moreover have "length items = length (filter recognized entries)"
      "used = sum_list (map entry_size (filter recognized entries))"
    using arg_cong [OF scanned_keys [OF evicted(1)], of length] scan_items [OF evicted(1)] by simp_all
  ultimately show ?thesis using evicted(2,3) by auto
qed simp

text \<open>
  An example directory: two finished recordings, one without a manifest, and a foreign file; the limit of
  two files lets the older finished one go when a new recording is opened.
\<close>

definition demo_manifest :: json where
  "demo_manifest = JObject [(''format'', JString ''Annex-B H264''), (''complete'', JBool True),
     (''write_ok'', JBool True), (''reason'', JString ''tail_complete'')]"

definition demo_entry :: "string \<Rightarrow> int \<Rightarrow> (nat \<times> json option) option \<Rightarrow> dir_entry" where
  "demo_entry n t m = \<lparr>de_name = n, de_symlink = False, de_regular = True, de_size = 100, de_time = t,
     de_manifest = m\<rparr>"

definition demo_dir :: "dir_entry list" where
  "demo_dir = [demo_entry ''event-5-2.h264'' 7 (Some (10, Some demo_manifest)), demo_entry ''notes.txt'' 1 None,
     demo_entry ''event-4-1.h264'' 3 (Some (10, Some demo_manifest)), demo_entry ''event-9-3.h264'' 9 None]"

definition demo_limits :: storage_limits where
  "demo_limits = \<lparr>sl_bytes = 1000, sl_files = 3, sl_free_bytes = 50, sl_event_seconds = 60\<rparr>"

lemma demo_reserve:
  "reserve (\<lambda>_. 500) (\<lambda>_. Inr True) ''rec'' False demo_limits demo_dir 200 ''rec/event-9-3.h264'' True =
     ([''event-4-1.h264''], Inr True)"
  by code_simp

lemma demo_dir_distinct: "distinct (map de_name demo_dir)"
  by code_simp

theorem reserve_within_budget_witness:
  "sum_list (map entry_size (left_entries [''event-4-1.h264''] demo_dir)) = 210 \<and>
   sum_list (map entry_size (left_entries [''event-4-1.h264''] demo_dir)) + 200 \<le> sl_bytes demo_limits"
proof -
  have "sum_list (map entry_size (left_entries [''event-4-1.h264''] demo_dir)) = 210" by code_simp
  with reserve_within_budget [OF demo_dir_distinct demo_reserve] show ?thesis by blast
qed

theorem reserve_deletes_oldest_finished_witness:
  "\<exists>e \<in> set demo_dir. de_name e = ''event-4-1.h264'' \<and> finished ''rec'' ''rec/event-9-3.h264'' e"
  using reserve_deletes_oldest_finished [OF demo_dir_distinct demo_reserve] by simp

end
