(* ===== verification/Config.thy ===== *)
theory Config
  imports Json Float32 FramePool BoundedQueue InferenceHealth EventStorage
begin

text \<open>
  The configuration of \<open>app/Config.h\<close>: the fields with their defaults, the READ macro that overwrites a
  field from the JSON file when its key is present, and the checks that a configuration has to pass. What
  the file stream and the JSON parser answer for a path is an argument; a \<open>float\<close> field is a \<open>fp\<close>.
\<close>

section \<open>The configuration and its reader\<close>

record config =
  c_device :: string
  c_model :: string
  c_preprocess :: string
  c_output :: string
  c_output_activation :: string
  c_replay_yuyv :: string
  c_width :: int
  c_height :: int
  c_fps :: int
  c_port :: int
  c_rtsp_port :: int
  c_bitrate :: int
  c_queue :: int
  c_pool :: int
  c_run_seconds :: int
  c_infer_delay_ms :: int
  c_infer_slow_ms :: int
  c_infer_stall_ms :: int
  c_infer_max_age_ms :: int
  c_infer_degraded_interval_ms :: int
  c_allow_fault_injection :: bool
  c_record_max_mb :: int
  c_record_max_files :: int
  c_record_min_free_mb :: int
  c_record_max_seconds :: int
  c_event_confirm :: int
  c_event_tail :: int
  c_event_pre :: int
  c_video :: bool
  c_synthetic :: bool
  c_native_outputs :: bool
  c_threshold :: fp
  c_nms :: fp
  c_roi :: "fp list"

definition Config :: config where
  "Config =
    \<lparr>c_device = ''/dev/video10'', c_model = ''models/yolov5s-640-640.rknn'', c_preprocess = ''cpu'',
     c_output = ''output'', c_output_activation = ''logits'', c_replay_yuyv = [], c_width = 640,
     c_height = 480, c_fps = 30, c_port = 9000, c_rtsp_port = 8554, c_bitrate = 2000000, c_queue = 2,
     c_pool = 12, c_run_seconds = 0, c_infer_delay_ms = 0, c_infer_slow_ms = 150,
     c_infer_stall_ms = 2000, c_infer_max_age_ms = 500, c_infer_degraded_interval_ms = 200,
     c_allow_fault_injection = False, c_record_max_mb = 256, c_record_max_files = 128,
     c_record_min_free_mb = 64, c_record_max_seconds = 60, c_event_confirm = 3, c_event_tail = 5,
     c_event_pre = 3, c_video = True, c_synthetic = False, c_native_outputs = True,
     c_threshold = to_float (35 / 100), c_nms = to_float (45 / 100),
     c_roi = [Fin 0, Fin 0, Fin 1, Fin 1]\<rparr>"

fun get_float :: "json \<Rightarrow> fp result" where
  "get_float (JInt i) = Inr (to_float (of_int i))"
| "get_float (JFloat r) = Inr (to_float r)"
| "get_float (JBool b) = Inr (Fin (of_bool b))"
| "get_float _ = Inl type_error"

fun get_all :: "(json \<Rightarrow> 'a result) \<Rightarrow> json list \<Rightarrow> 'a list result" where
  "get_all get [] = Inr []"
| "get_all get (j # js) = bind_result (get j) (\<lambda>x. bind_result (get_all get js) (\<lambda>xs. Inr (x # xs)))"

fun get_floats :: "json \<Rightarrow> fp list result" where
  "get_floats (JArray js) = get_all get_float js"
| "get_floats _ = Inl type_error"

definition READ :: "string \<Rightarrow> (json \<Rightarrow> 'a result) \<Rightarrow> ('a \<Rightarrow> config \<Rightarrow> config) \<Rightarrow> json \<Rightarrow> config \<Rightarrow> config result" where
  "READ k get assign j c =
     (case jfind k j of None \<Rightarrow> Inr c | Some v \<Rightarrow> bind_result (get v) (\<lambda>x. Inr (assign x c)))"

fun in_order :: "(json \<Rightarrow> config \<Rightarrow> config result) list \<Rightarrow> json \<Rightarrow> config \<Rightarrow> config result" where
  "in_order [] j c = Inr c"
| "in_order (r # rs) j c = bind_result (r j c) (in_order rs j)"

definition read_fields :: "(rat \<Rightarrow> int) \<Rightarrow> json \<Rightarrow> config \<Rightarrow> config result" where
  "read_fields fc = in_order
     [READ ''device'' get_string (\<lambda>x. c_device_update (\<lambda>_. x)),
      READ ''model'' get_string (\<lambda>x. c_model_update (\<lambda>_. x)),
      READ ''preprocess'' get_string (\<lambda>x. c_preprocess_update (\<lambda>_. x)),
      READ ''output'' get_string (\<lambda>x. c_output_update (\<lambda>_. x)),
      READ ''output_activation'' get_string (\<lambda>x. c_output_activation_update (\<lambda>_. x)),
      READ ''replay_yuyv'' get_string (\<lambda>x. c_replay_yuyv_update (\<lambda>_. x)),
      READ ''width'' (get_int fc) (\<lambda>x. c_width_update (\<lambda>_. x)),
      READ ''height'' (get_int fc) (\<lambda>x. c_height_update (\<lambda>_. x)),
      READ ''fps'' (get_int fc) (\<lambda>x. c_fps_update (\<lambda>_. x)),
      READ ''port'' (get_int fc) (\<lambda>x. c_port_update (\<lambda>_. x)),
      READ ''rtsp_port'' (get_int fc) (\<lambda>x. c_rtsp_port_update (\<lambda>_. x)),
      READ ''bitrate'' (get_int fc) (\<lambda>x. c_bitrate_update (\<lambda>_. x)),
      READ ''queue'' (get_int fc) (\<lambda>x. c_queue_update (\<lambda>_. x)),
      READ ''pool'' (get_int fc) (\<lambda>x. c_pool_update (\<lambda>_. x)),
      READ ''run_seconds'' (get_int fc) (\<lambda>x. c_run_seconds_update (\<lambda>_. x)),
      READ ''infer_delay_ms'' (get_int fc) (\<lambda>x. c_infer_delay_ms_update (\<lambda>_. x)),
      READ ''infer_slow_ms'' (get_int fc) (\<lambda>x. c_infer_slow_ms_update (\<lambda>_. x)),
      READ ''infer_stall_ms'' (get_int fc) (\<lambda>x. c_infer_stall_ms_update (\<lambda>_. x)),
      READ ''infer_max_age_ms'' (get_int fc) (\<lambda>x. c_infer_max_age_ms_update (\<lambda>_. x)),
      READ ''infer_degraded_interval_ms'' (get_int fc) (\<lambda>x. c_infer_degraded_interval_ms_update (\<lambda>_. x)),
      READ ''allow_fault_injection'' get_bool (\<lambda>x. c_allow_fault_injection_update (\<lambda>_. x)),
      READ ''record_max_mb'' (get_int fc) (\<lambda>x. c_record_max_mb_update (\<lambda>_. x)),
      READ ''record_max_files'' (get_int fc) (\<lambda>x. c_record_max_files_update (\<lambda>_. x)),
      READ ''record_min_free_mb'' (get_int fc) (\<lambda>x. c_record_min_free_mb_update (\<lambda>_. x)),
      READ ''record_max_seconds'' (get_int fc) (\<lambda>x. c_record_max_seconds_update (\<lambda>_. x)),
      READ ''event_confirm'' (get_int fc) (\<lambda>x. c_event_confirm_update (\<lambda>_. x)),
      READ ''event_tail'' (get_int fc) (\<lambda>x. c_event_tail_update (\<lambda>_. x)),
      READ ''event_pre'' (get_int fc) (\<lambda>x. c_event_pre_update (\<lambda>_. x)),
      READ ''video'' get_bool (\<lambda>x. c_video_update (\<lambda>_. x)),
      READ ''synthetic'' get_bool (\<lambda>x. c_synthetic_update (\<lambda>_. x)),
      READ ''native_outputs'' get_bool (\<lambda>x. c_native_outputs_update (\<lambda>_. x)),
      READ ''threshold'' get_float (\<lambda>x. c_threshold_update (\<lambda>_. x)),
      READ ''nms'' get_float (\<lambda>x. c_nms_update (\<lambda>_. x)),
      READ ''roi'' get_floats (\<lambda>x. c_roi_update (\<lambda>_. x))]"

definition outside_limits :: "config \<Rightarrow> bool" where
  "outside_limits c \<longleftrightarrow>
     c_width c < 96 \<or> c_width c > 1920 \<or> c_width c mod 16 \<noteq> 0 \<or> c_height c < 64 \<or> c_height c > 1080 \<or>
     c_height c mod 2 \<noteq> 0 \<or> c_fps c < 1 \<or> c_fps c > 60 \<or> c_queue c < 1 \<or> c_queue c > 8 \<or>
     c_pool c < c_queue c + 6 \<or> c_pool c > 64 \<or> c_port c < 1024 \<or> c_port c > 65535 \<or>
     c_rtsp_port c < 1024 \<or> c_rtsp_port c > 65535 \<or> c_port c = c_rtsp_port c \<or>
     fp_le (c_threshold c) (Fin 0) \<or> fp_le (Fin 1) (c_threshold c) \<or>
     fp_le (c_nms c) (Fin 0) \<or> fp_le (Fin 1) (c_nms c) \<or>
     c_event_confirm c < 1 \<or> c_event_tail c < 1 \<or> c_event_tail c > 60 \<or> c_event_pre c < 0 \<or>
     c_event_pre c > 15 \<or> c_infer_slow_ms c < 10 \<or> c_infer_slow_ms c > 5000 \<or>
     c_infer_stall_ms c \<le> c_infer_slow_ms c \<or> c_infer_stall_ms c > 60000 \<or>
     c_infer_max_age_ms c < 50 \<or> c_infer_max_age_ms c > 10000 \<or>
     c_infer_degraded_interval_ms c < 0 \<or> c_infer_degraded_interval_ms c > 5000 \<or>
     c_record_max_mb c < 1 \<or> c_record_max_mb c > 65536 \<or> c_record_max_files c < 1 \<or>
     c_record_max_files c > 10000 \<or> c_record_min_free_mb c < 0 \<or>
     c_record_min_free_mb c > 65536 \<or> c_record_max_seconds c < 1 \<or>
     c_record_max_seconds c > 3600 \<or> c_run_seconds c < 0 \<or> c_infer_delay_ms c < 0 \<or>
     c_infer_delay_ms c > 5000 \<or> c_bitrate c < 100000 \<or> c_bitrate c > 20000000"

definition invalid_roi :: "fp list \<Rightarrow> bool" where
  "invalid_roi roi \<longleftrightarrow>
     length roi \<noteq> 4 \<or> fp_less (roi ! 0) (Fin 0) \<or> fp_less (roi ! 1) (Fin 0) \<or> fp_less (Fin 1) (roi ! 2) \<or>
     fp_less (Fin 1) (roi ! 3) \<or> fp_le (roi ! 2) (roi ! 0) \<or> fp_le (roi ! 3) (roi ! 1)"

definition check_config :: "config \<Rightarrow> config result" where
  "check_config c =
     (if outside_limits c then Inl (RuntimeError ''config values outside supported limits'')
      else if c_preprocess c \<noteq> ''cpu'' \<and> c_preprocess c \<noteq> ''rga'' then Inl (RuntimeError ''preprocess must be cpu/rga'')
      else if c_output_activation c \<noteq> ''logits'' \<and> c_output_activation c \<noteq> ''probabilities''
        then Inl (RuntimeError ''output_activation must be logits/probabilities'')
      else if list_ex (\<lambda>v. \<not> fp_finite v) (c_roi c) then Inl (RuntimeError ''nonfinite ROI'')
      else if invalid_roi (c_roi c) then Inl (RuntimeError ''invalid normalized ROI'')
      else Inr (if c_replay_yuyv c \<noteq> [] then c\<lparr>c_synthetic := True\<rparr> else c))"

text \<open>
  \<open>file\<close> is \<open>None\<close> when the stream does not open, otherwise the parser's answer for its contents.
\<close>

definition load :: "(rat \<Rightarrow> int) \<Rightarrow> string \<Rightarrow> json result option \<Rightarrow> config result" where
  "load fc path file =
     (case file of
        None \<Rightarrow> Inl (RuntimeError (''cannot open config: '' @ path))
      | Some parsed \<Rightarrow> bind_result parsed (\<lambda>j.
          if \<not> is_object j then Inl (RuntimeError ''config must be a JSON object'')
          else bind_result (read_fields fc j Config) check_config))"

section \<open>What a loaded configuration guarantees\<close>

lemma in_order_inv:
  assumes "in_order rs j c = Inr c'" and "P c" and "list_all (\<lambda>r. \<forall>c c'. r j c = Inr c' \<longrightarrow> P c \<longrightarrow> P c') rs"
  shows "P c'"
  using assms by (induction rs arbitrary: c) (auto simp: bind_result_Inr)

lemma READ_inv:
  "(\<And>v x c. jfind k j = Some v \<Longrightarrow> get v = Inr x \<Longrightarrow> P c \<Longrightarrow> P (assign x c)) \<Longrightarrow>
     \<forall>c c'. READ k get assign j c = Inr c' \<longrightarrow> P c \<longrightarrow> P c'"
  by (auto simp: READ_def bind_result_Inr split: option.splits)

lemma to_float_not_nan [simp]: "to_float r \<noteq> NaN"
  by (simp add: to_float_def Let_def)

lemma get_float_not_nan: "get_float j = Inr v \<Longrightarrow> v \<noteq> NaN"
  by (cases j) auto

text \<open>A NaN would pass the range checks of the two thresholds, but no JSON value reads as one.\<close>

lemma read_not_nan:
  assumes "read_fields fc j c = Inr c'" and "c_threshold c \<noteq> NaN \<and> c_nms c \<noteq> NaN"
  shows "c_threshold c' \<noteq> NaN \<and> c_nms c' \<noteq> NaN"
  using assms unfolding read_fields_def
  by (rule in_order_inv) (unfold list.pred_inject, intro conjI READ_inv; simp add: get_float_not_nan)

lemma Config_not_nan: "c_threshold Config \<noteq> NaN \<and> c_nms Config \<noteq> NaN"
  by (simp add: Config_def)

lemma check_config_cases:
  assumes "check_config c = Inr c'"
  shows "\<not> outside_limits c" and "list_all fp_finite (c_roi c)" and "\<not> invalid_roi (c_roi c)"
    and "c' = (if c_replay_yuyv c \<noteq> [] then c\<lparr>c_synthetic := True\<rparr> else c)"
  using assms by (auto simp: check_config_def list_ex_iff list_all_iff split: if_splits)

lemma load_cases:
  assumes "load fc path file = Inr c'"
  obtains j c where "file = Some (Inr j)" and "is_object j" and "read_fields fc j Config = Inr c"
    and "check_config c = Inr c'"
  using assms by (auto simp: load_def bind_result_Inr split: option.splits if_splits)

lemma unit_fp: "v \<noteq> NaN \<Longrightarrow> \<not> fp_le v (Fin 0) \<Longrightarrow> \<not> fp_le (Fin 1) v \<Longrightarrow> \<exists>t. v = Fin t \<and> 0 < t \<and> t < 1"
  by (cases v) (auto simp: fp_le_def)

lemma roi_cases:
  assumes "list_all fp_finite roi" and "\<not> invalid_roi roi"
  shows "\<exists>x0 y0 x1 y1. roi = [Fin x0, Fin y0, Fin x1, Fin y1] \<and> 0 \<le> x0 \<and> x0 < x1 \<and> x1 \<le> 1 \<and>
           0 \<le> y0 \<and> y0 < y1 \<and> y1 \<le> 1"
proof -
  have fin: "\<exists>r. v = Fin r" if "fp_finite v" for v using that by (cases v) auto
  from assms(2) have "length roi = Suc (Suc (Suc (Suc 0)))" by (simp add: invalid_roi_def)
  then obtain a b c d where "roi = [a, b, c, d]" by (auto simp: length_Suc_conv)
  with assms show ?thesis
    by (auto simp: invalid_roi_def not_le not_less dest!: fin)
qed

text \<open>C36: Every configuration that \<open>load\<close> accepts makes the components safe to build and to run, whatever
  the file holds: the frame pool and the inference queue are constructed without an exception, the pool
  has at least six frames beyond a full queue, a frame is a whole number of YUYV pixel pairs and at most
  4147200 bytes, the health thresholds are positive and ordered, the two detection thresholds are numbers
  strictly between 0 and 1, the region of interest is a non-empty rectangle of the unit square, and the two
  servers do not share a port.\<close>

theorem config_establishes:
  assumes "load fc path file = Inr c"
  shows "(\<exists>p. FramePool (nat (c_pool c)) (nat (c_width c) * nat (c_height c) * 2) = Inr p \<and>
            nat (c_queue c) + 6 \<le> available p) \<and>
         (\<exists>q. BoundedQueue (nat (c_queue c)) = Inr (q :: nat bqueue)) \<and>
         4 dvd nat (c_width c) * nat (c_height c) * 2 \<and> nat (c_width c) * nat (c_height c) * 2 \<le> 4147200 \<and>
         0 < c_infer_slow_ms c \<and> c_infer_slow_ms c < c_infer_stall_ms c \<and>
         (\<exists>t. c_threshold c = Fin t \<and> 0 < t \<and> t < 1) \<and> (\<exists>t. c_nms c = Fin t \<and> 0 < t \<and> t < 1) \<and>
         (\<exists>x0 y0 x1 y1. c_roi c = [Fin x0, Fin y0, Fin x1, Fin y1] \<and>
            0 \<le> x0 \<and> x0 < x1 \<and> x1 \<le> 1 \<and> 0 \<le> y0 \<and> y0 < y1 \<and> y1 \<le> 1) \<and>
         c_port c \<noteq> c_rtsp_port c \<and> (c_replay_yuyv c \<noteq> [] \<longrightarrow> c_synthetic c)"
proof -
  from assms obtain j c0 where read: "read_fields fc j Config = Inr c0" and check: "check_config c0 = Inr c"
    by (rule load_cases)
  note ok = check_config_cases [OF check]
  have nan: "c_threshold c0 \<noteq> NaN \<and> c_nms c0 \<noteq> NaN" by (rule read_not_nan [OF read Config_not_nan])
  from ok(1) have lim: "96 \<le> c_width c0" "c_width c0 \<le> 1920" "64 \<le> c_height c0" "c_height c0 \<le> 1080"
      "c_height c0 mod 2 = 0" "1 \<le> c_queue c0" "c_queue c0 + 6 \<le> c_pool c0"
      "10 \<le> c_infer_slow_ms c0" "c_infer_slow_ms c0 < c_infer_stall_ms c0" "c_port c0 \<noteq> c_rtsp_port c0"
      "\<not> fp_le (c_threshold c0) (Fin 0)" "\<not> fp_le (Fin 1) (c_threshold c0)"
      "\<not> fp_le (c_nms c0) (Fin 0)" "\<not> fp_le (Fin 1) (c_nms c0)"
    unfolding outside_limits_def by simp_all
  define w h where "w = nat (c_width c0)" and "h = nat (c_height c0)"
  have wh: "0 < w" "w \<le> 1920" "0 < h" "h \<le> 1080" using lim by (simp_all add: w_def h_def)
  have "2 dvd h" using lim(3,5) by (auto simp: h_def even_nat_iff)
  then have "2 * 2 dvd w * h * 2" by (intro mult_dvd_mono dvd_mult) simp_all
  then have dvd: "4 dvd w * h * 2" by simp
  have "w * h \<le> 1920 * 1080" by (rule mult_le_mono [OF wh(2,4)])
  then have size: "w * h * 2 \<le> 4147200" by linarith
  have pool: "\<exists>p. FramePool (nat (c_pool c0)) (w * h * 2) = Inr p \<and> nat (c_queue c0) + 6 \<le> available p"
    using lim wh by (simp add: FramePool_def available_def)
  have queue: "\<exists>q. BoundedQueue (nat (c_queue c0)) = Inr (q :: nat bqueue)"
    using lim by (simp add: BoundedQueue_def)
  note th = unit_fp [OF conjunct1 [OF nan] lim(11,12)] unit_fp [OF conjunct2 [OF nan] lim(13,14)]
  show ?thesis
    unfolding ok(4)
    using pool queue dvd size lim th roi_cases [OF ok(2,3)]
    by (simp flip: w_def h_def)
qed

lemma default_floats:
  "to_float (7 / 20) = Fin (11744051 / 33554432)" "to_float (9 / 20) = Fin (7549747 / 16777216)"
  "to_float (11744051 / 33554432) = Fin (11744051 / 33554432)"
  "to_float (7549747 / 16777216) = Fin (7549747 / 16777216)"
  "to_float 0 = Fin 0" "to_float 1 = Fin 1"
proof -
  show "to_float (7 / 20) = Fin (11744051 / 33554432)" "to_float (9 / 20) = Fin (7549747 / 16777216)"
    by (rule to_float_eval [where e = "- 2" and k = 11744051], simp_all add: power_int_minus)
      (rule to_float_eval [where e = "- 2" and k = 15099494], simp_all add: power_int_minus)
  show "to_float (11744051 / 33554432) = Fin (11744051 / 33554432)"
    by (rule to_float_exact [of _ 11744051 "- 25"]) simp_all
  show "to_float (7549747 / 16777216) = Fin (7549747 / 16777216)"
    by (rule to_float_exact [of _ 7549747 "- 24"]) simp_all
  show "to_float 1 = Fin 1" by (rule to_float_exact [of _ 1 0]) simp_all
qed (simp add: to_float_def)

theorem config_establishes_witness:
  "\<exists>c. load (\<lambda>_. 0) ''agent.json'' (Some (Inr (JObject [(''width'', JInt 1280), (''height'', JInt 720), (''pool'', JInt 9)])))
        = Inr c \<and> c_width c = 1280 \<and> c_pool c = 9 \<and> (\<exists>t. c_threshold c = Fin t \<and> 0 < t \<and> t < 1)"
proof -
  let ?j = "JObject [(''width'', JInt 1280), (''height'', JInt 720), (''pool'', JInt 9)]"
  let ?c = "Config\<lparr>c_width := 1280, c_height := 720, c_pool := 9\<rparr>"
  have "read_fields (\<lambda>_. 0) ?j Config = Inr ?c"
    unfolding read_fields_def in_order.simps by (simp add: READ_def wrap32_def)
  moreover have "check_config ?c = Inr ?c"
    by (simp add: check_config_def outside_limits_def invalid_roi_def Config_def default_floats)
  ultimately have "load (\<lambda>_. 0) ''agent.json'' (Some (Inr ?j)) = Inr ?c" by (simp add: load_def)
  moreover from config_establishes [OF this] have "\<exists>t. c_threshold ?c = Fin t \<and> 0 < t \<and> t < 1" by blast
  ultimately show ?thesis by (intro exI [of _ ?c]) simp
qed

section \<open>Printing and reading back\<close>

fun fp_value :: "fp \<Rightarrow> rat" where
  "fp_value (Fin r) = r"
| "fp_value _ = 0"

text \<open>The JSON object with every field of a configuration under the field's name.\<close>

definition config_json :: "config \<Rightarrow> json" where
  "config_json c = JObject
     [(''device'', JString (c_device c)),
      (''model'', JString (c_model c)),
      (''preprocess'', JString (c_preprocess c)),
      (''output'', JString (c_output c)),
      (''output_activation'', JString (c_output_activation c)),
      (''replay_yuyv'', JString (c_replay_yuyv c)),
      (''width'', JInt (c_width c)),
      (''height'', JInt (c_height c)),
      (''fps'', JInt (c_fps c)),
      (''port'', JInt (c_port c)),
      (''rtsp_port'', JInt (c_rtsp_port c)),
      (''bitrate'', JInt (c_bitrate c)),
      (''queue'', JInt (c_queue c)),
      (''pool'', JInt (c_pool c)),
      (''run_seconds'', JInt (c_run_seconds c)),
      (''infer_delay_ms'', JInt (c_infer_delay_ms c)),
      (''infer_slow_ms'', JInt (c_infer_slow_ms c)),
      (''infer_stall_ms'', JInt (c_infer_stall_ms c)),
      (''infer_max_age_ms'', JInt (c_infer_max_age_ms c)),
      (''infer_degraded_interval_ms'', JInt (c_infer_degraded_interval_ms c)),
      (''allow_fault_injection'', JBool (c_allow_fault_injection c)),
      (''record_max_mb'', JInt (c_record_max_mb c)),
      (''record_max_files'', JInt (c_record_max_files c)),
      (''record_min_free_mb'', JInt (c_record_min_free_mb c)),
      (''record_max_seconds'', JInt (c_record_max_seconds c)),
      (''event_confirm'', JInt (c_event_confirm c)),
      (''event_tail'', JInt (c_event_tail c)),
      (''event_pre'', JInt (c_event_pre c)),
      (''video'', JBool (c_video c)),
      (''synthetic'', JBool (c_synthetic c)),
      (''native_outputs'', JBool (c_native_outputs c)),
      (''threshold'', JFloat (fp_value (c_threshold c))),
      (''nms'', JFloat (fp_value (c_nms c))),
      (''roi'', JArray (map (JFloat \<circ> fp_value) (c_roi c)))]"

definition int_fields :: "config \<Rightarrow> int list" where
  "int_fields c =
     [c_width c, c_height c, c_fps c, c_port c, c_rtsp_port c, c_bitrate c, c_queue c, c_pool c,
      c_run_seconds c, c_infer_delay_ms c, c_infer_slow_ms c, c_infer_stall_ms c, c_infer_max_age_ms c,
      c_infer_degraded_interval_ms c, c_record_max_mb c, c_record_max_files c, c_record_min_free_mb c,
      c_record_max_seconds c, c_event_confirm c, c_event_tail c, c_event_pre c]"

definition representable :: "config \<Rightarrow> bool" where
  "representable c \<longleftrightarrow>
     list_all (\<lambda>i. - (2 ^ 31) \<le> i \<and> i < 2 ^ 31) (int_fields c) \<and>
     list_all (\<lambda>v. fp_finite v \<and> to_float (fp_value v) = v) (c_threshold c # c_nms c # c_roi c)"

lemma get_all_floats:
  "list_all (\<lambda>v. fp_finite v \<and> to_float (fp_value v) = v) vs \<Longrightarrow>
     get_all get_float (map (JFloat \<circ> fp_value) vs) = Inr vs"
  by (induction vs) simp_all

lemma READ_present:
  "map_of kvs k = Some v \<Longrightarrow> get v = Inr x \<Longrightarrow> READ k get assign (JObject kvs) c = Inr (assign x c)"
  by (simp add: READ_def)

text \<open>C37: No key is read into a wrong field, none is forgotten and none is read with a wrong type: for any
  values that the fields can hold, writing them under their names and loading the result yields exactly
  these values, subject only to the checks.\<close>

theorem config_roundtrip:
  assumes "representable c"
  shows "load fc path (Some (Inr (config_json c))) = check_config c"
proof -
  have ints: "list_all (\<lambda>i. wrap32 i = i) (int_fields c)"
    using assms by (auto simp: representable_def list_all_iff intro: wrap32_id)
  have floats: "get_float (JFloat (fp_value (c_threshold c))) = Inr (c_threshold c)"
      "get_float (JFloat (fp_value (c_nms c))) = Inr (c_nms c)"
      "get_all get_float (map (JFloat \<circ> fp_value) (c_roi c)) = Inr (c_roi c)"
    using assms by (auto simp: representable_def intro: get_all_floats)
  have "read_fields fc (config_json c) Config = Inr c"
    using ints floats
    unfolding read_fields_def config_json_def in_order.simps int_fields_def list.pred_inject
    by (simp add: READ_present del: get_float.simps)
  then show ?thesis by (simp add: load_def config_json_def)
qed

lemma load_default: "check_config Config = Inr Config" and representable_default: "representable Config"
proof -
  show "check_config Config = Inr Config"
    by (simp add: check_config_def outside_limits_def invalid_roi_def Config_def default_floats)
  have "list_all (\<lambda>v. fp_finite v \<and> to_float (fp_value v) = v) (c_threshold Config # c_nms Config # c_roi Config)"
    by (simp add: Config_def default_floats)
  moreover have "list_all (\<lambda>i. - (2 ^ 31) \<le> i \<and> i < 2 ^ 31) (int_fields Config)" by code_simp
  ultimately show "representable Config" by (simp add: representable_def)
qed

theorem config_roundtrip_witness:
  "load (\<lambda>_. 0) ''agent.json'' (Some (Inr (config_json Config))) = Inr Config"
  by (subst config_roundtrip [OF representable_default]) (rule load_default)


end
