(* ===== verification/Metrics.thy ===== *)
theory Metrics
  imports Prelude Float32
begin

text \<open>
  The metrics of \<open>core/metrics/Metrics.h\<close>: counters, a window of the latest 1024 observations per stage,
  rates that are recomputed at most once a second, and the statistics of a snapshot. A \<open>double\<close> is the
  exact number without rounding, and \<open>fp\<close> where a division by zero can make it infinite or NaN.
\<close>

section \<open>State and operations\<close>

record rates =
  rt_capture_fps :: fp
  rt_process_fps :: fp
  rt_encode_fps :: fp
  rt_cpu_percent :: fp
  rt_window_s :: rat

record metrics =
  mt_counts :: "string \<rightharpoonup> u64"
  mt_samples :: "string \<rightharpoonup> rat list"
  mt_start :: nat
  mt_last :: nat
  mt_last_cpu :: rat
  mt_cached_rates :: "rates option"
  mt_last_capture :: u64
  mt_last_process :: u64
  mt_last_encode :: u64

definition Metrics :: "nat \<Rightarrow> metrics" where
  "Metrics now = \<lparr>mt_counts = Map.empty, mt_samples = Map.empty, mt_start = now, mt_last = now, mt_last_cpu = 0,
     mt_cached_rates = None, mt_last_capture = 0, mt_last_process = 0, mt_last_encode = 0\<rparr>"

definition counted :: "string \<Rightarrow> metrics \<Rightarrow> u64" where
  "counted key m = (case mt_counts m key of None \<Rightarrow> 0 | Some n \<Rightarrow> n)"

definition increment :: "string \<Rightarrow> u64 \<Rightarrow> metrics \<Rightarrow> metrics" where
  "increment key n m = m\<lparr>mt_counts := (mt_counts m)(key \<mapsto> counted key m + n)\<rparr>"

definition samples_of :: "string \<Rightarrow> metrics \<Rightarrow> rat list" where
  "samples_of key m = (case mt_samples m key of None \<Rightarrow> [] | Some s \<Rightarrow> s)"

definition observe :: "string \<Rightarrow> rat \<Rightarrow> metrics \<Rightarrow> metrics" where
  "observe key value m =
     (let s = samples_of key m; s1 = (if length s = 1024 then tl s else s)
      in m\<lparr>mt_samples := (mt_samples m)(key \<mapsto> s1 @ [value])\<rparr>)"

record stage_stats =
  ss_count :: nat
  ss_average :: rat
  ss_p50 :: rat
  ss_p95 :: rat
  ss_maximum :: rat

definition percentile :: "rat list \<Rightarrow> rat \<Rightarrow> rat" where
  "percentile xs p = sort xs ! min (length xs - 1) (nat \<lceil>p * of_nat (length xs)\<rceil> - 1)"

definition stage_stats_of :: "rat list \<Rightarrow> stage_stats" where
  "stage_stats_of s = \<lparr>ss_count = length s, ss_average = sum_list s / of_nat (length s),
     ss_p50 = percentile s (1 / 2), ss_p95 = percentile s (95 / 100), ss_maximum = last (sort s)\<rparr>"

definition rate :: "u64 \<Rightarrow> rat \<Rightarrow> fp" where
  "rate n elapsed =
     (if elapsed = 0 then (if n = 0 then NaN else PInf) else Fin (of_nat (unat n) / elapsed))"

text \<open>The answers of the operating system: the processor time used, the resident pages, the page size, the descriptors.\<close>

record os_usage =
  os_cpu :: rat
  os_resident :: nat
  os_page_size :: nat
  os_fds :: nat

record metrics_report =
  mr_uptime_s :: rat
  mr_counts :: "string \<rightharpoonup> u64"
  mr_rates :: "rates option"
  mr_stages :: "string \<rightharpoonup> stage_stats"
  mr_rss_mb :: rat
  mr_fd_count :: nat

text \<open>Reading \<open>counts_[key]\<close> inserts the key.\<close>

definition touch :: "string \<Rightarrow> metrics \<Rightarrow> metrics" where
  "touch key m = m\<lparr>mt_counts := (mt_counts m)(key \<mapsto> counted key m)\<rparr>"

definition refresh_rates :: "os_usage \<Rightarrow> nat \<Rightarrow> rat \<Rightarrow> metrics \<Rightarrow> metrics" where
  "refresh_rates os now elapsed m0 =
     (let m = touch ''encoded'' (touch ''processed'' (touch ''captured'' m0));
          r = \<lparr>rt_capture_fps = rate (counted ''captured'' m - mt_last_capture m) elapsed,
               rt_process_fps = rate (counted ''processed'' m - mt_last_process m) elapsed,
               rt_encode_fps = rate (counted ''encoded'' m - mt_last_encode m) elapsed,
               rt_cpu_percent = (if 0 < elapsed then Fin (100 * (os_cpu os - mt_last_cpu m) / elapsed) else Fin 0),
               rt_window_s = elapsed\<rparr>
      in m\<lparr>mt_last_cpu := os_cpu os, mt_last := now, mt_last_capture := counted ''captured'' m,
           mt_last_process := counted ''processed'' m, mt_last_encode := counted ''encoded'' m,
           mt_cached_rates := Some r\<rparr>)"

definition snapshot :: "os_usage \<Rightarrow> nat \<Rightarrow> metrics \<Rightarrow> metrics_report \<times> metrics" where
  "snapshot os now m =
     (let elapsed = of_nat (now - mt_last m) / of_nat ns_per_s;
          m1 = (if 1 \<le> elapsed \<or> mt_cached_rates m = None then refresh_rates os now elapsed m else m)
      in (\<lparr>mr_uptime_s = of_nat (now - mt_start m) / of_nat ns_per_s, mr_counts = mt_counts m,
           mr_rates = mt_cached_rates m1,
           mr_stages = (\<lambda>key. case mt_samples m key of None \<Rightarrow> None
                              | Some s \<Rightarrow> if s = [] then None else Some (stage_stats_of s)),
           mr_rss_mb = of_nat (os_resident os * os_page_size os) / 1048576, mr_fd_count = os_fds os\<rparr>, m1))"

section \<open>Windows and percentiles\<close>

fun record_all :: "(string \<times> rat) list \<Rightarrow> metrics \<Rightarrow> metrics" where
  "record_all [] m = m"
| "record_all ((key, v) # rest) m = record_all rest (observe key v m)"

definition values_of :: "string \<Rightarrow> (string \<times> rat) list \<Rightarrow> rat list" where
  "values_of key obs = map snd (filter (\<lambda>(k, v). k = key) obs)"

lemma newest_snoc: "newest n (newest n xs @ ys) = newest n (xs @ ys)"
  by (cases "length xs \<le> n") (simp_all add: newest_def add.commute)

lemma samples_observe:
  assumes "length (samples_of key m) \<le> 1024"
  shows "samples_of key (observe k v m) = (if k = key then newest 1024 (samples_of key m @ [v]) else samples_of key m)"
proof (cases "k = key \<and> length (samples_of key m) = 1024")
  case True
  then show ?thesis by (simp add: observe_def samples_of_def Let_def newest_full del: newest_short)
next
  case False
  with assms show ?thesis by (auto simp: observe_def samples_of_def Let_def)
qed

lemma record_all_samples:
  "length (samples_of key m) \<le> 1024 \<Longrightarrow>
     samples_of key (record_all obs m) = newest 1024 (samples_of key m @ values_of key obs)"
proof (induction obs m rule: record_all.induct)
  case (2 k v rest m)
  have "length (samples_of key (observe k v m)) \<le> 1024"
    using 2(2) by (simp add: samples_observe)
  from 2(1) [OF this] 2(2) show ?case
    by (simp add: samples_observe values_of_def newest_snoc)
qed (simp add: values_of_def)

text \<open>The nearest-rank percentile.\<close>

lemma sorted_rank:
  fixes ys :: "'a :: linorder list"
  assumes "sorted ys" and "1 \<le> k" and "k \<le> length ys"
  shows "k \<le> length (filter (\<lambda>y. y \<le> ys ! (k - 1)) ys)"
    and "length (filter (\<lambda>y. y < ys ! (k - 1)) ys) \<le> k - 1"
proof -
  let ?P = "\<lambda>y. y \<le> ys ! (k - 1)" and ?Q = "\<lambda>y. y < ys ! (k - 1)"
  have "?P y" if "y \<in> set (take k ys)" for y
    using that assms by (auto simp: in_set_conv_nth intro!: sorted_nth_mono)
  then have "filter ?P (take k ys) = take k ys" by (simp add: filter_id_conv)
  moreover have "length (filter ?P ys) \<ge> length (filter ?P (take k ys))"
    by (metis append_take_drop_id filter_append le_add1 length_append)
  ultimately show "k \<le> length (filter ?P ys)" using assms by simp
  have "\<not> ?Q y" if "y \<in> set (drop (k - 1) ys)" for y
  proof -
    from that obtain i where "i < length (drop (k - 1) ys)" "y = drop (k - 1) ys ! i"
      unfolding in_set_conv_nth by blast
    then have "k - 1 \<le> k - 1 + i" "k - 1 + i < length ys" "y = ys ! (k - 1 + i)" by auto
    with sorted_nth_mono [OF assms(1), of "k - 1" "k - 1 + i"] show ?thesis by (simp add: not_less)
  qed
  then have "filter ?Q (drop (k - 1) ys) = []" by (simp add: filter_empty_conv)
  then have "filter ?Q ys = filter ?Q (take (k - 1) ys)"
    by (metis append.right_neutral append_take_drop_id filter_append)
  then show "length (filter ?Q ys) \<le> k - 1" by (metis le_trans length_filter_le length_take min.cobounded2)
qed

lemma nearest_rank:
  fixes p :: rat
  assumes "0 < n" and "0 < p" and "p \<le> 1"
  defines "k \<equiv> nat \<lceil>p * of_nat n\<rceil>"
  shows "1 \<le> k" and "k \<le> n" and "p * of_nat n \<le> of_nat k" and "of_nat (k - 1) < p * of_nat n"
proof -
  have pn: "0 < p * of_nat n" "p * of_nat n \<le> of_nat n" using assms by (simp_all add: mult_le_cancel_right1)
  show k: "1 \<le> k" "k \<le> n" using pn by (auto simp: k_def le_nat_iff nat_le_iff ceiling_le_iff)
  have "p * of_nat n \<le> of_int \<lceil>p * of_nat n\<rceil>" "of_int \<lceil>p * of_nat n\<rceil> - 1 < p * of_nat n" by linarith+
  moreover have "(of_nat k :: rat) = of_int \<lceil>p * of_nat n\<rceil>" using pn(1) by (simp add: k_def)
  ultimately show "p * of_nat n \<le> of_nat k" "of_nat (k - 1) < p * of_nat n"
    using k(1) by (simp_all add: of_nat_diff)
qed

lemma percentile_rank:
  assumes "xs \<noteq> []" and "0 < p" and "p \<le> 1"
  shows "percentile xs p \<in> set xs"
    and "p * of_nat (length xs) \<le> of_nat (length (filter (\<lambda>x. x \<le> percentile xs p) xs))"
    and "of_nat (length (filter (\<lambda>x. x < percentile xs p) xs)) < p * of_nat (length xs)"
proof -
  define k where "k = nat \<lceil>p * of_nat (length xs)\<rceil>"
  have "0 < length xs" using assms(1) by simp
  note k = nearest_rank [OF this assms(2,3), folded k_def]
  have "min (length xs - 1) (k - 1) = k - 1" using k(2) by simp
  then have perc: "percentile xs p = sort xs ! (k - 1)" by (simp only: percentile_def k_def)
  have "sort xs ! (k - 1) \<in> set (sort xs)" by (rule nth_mem) (use k(1,2) in simp)
  then show "percentile xs p \<in> set xs" by (simp add: perc)
  have same: "length (filter P xs) = length (filter P (sort xs))" for P
    by (metis mset_filter mset_sort size_mset)
  have "k \<le> length (sort xs)" using k(2) by simp
  note rank = sorted_rank [OF sorted_sort k(1) this, folded perc, folded same]
  from rank(1) k(3) show "p * of_nat (length xs) \<le> of_nat (length (filter (\<lambda>x. x \<le> percentile xs p) xs))"
    by (meson of_nat_mono order_trans)
  from rank(2) k(4) show "of_nat (length (filter (\<lambda>x. x < percentile xs p) xs)) < p * of_nat (length xs)"
    by (meson le_less_trans of_nat_mono)
qed

text \<open>C39: The statistics that a snapshot shows for a stage are those of its latest 1024 observations, whatever
  was observed for other stages in between: their number, and as median and 95th percentile the
  nearest-rank ones, observed values that at least that share of the window does not exceed and fewer than
  that share fall below; the maximum is the greatest.\<close>

theorem latency_statistics:
  assumes "values_of key obs \<noteq> []"
  shows "let w = newest 1024 (values_of key obs); st = mr_stages (fst (snapshot os now (record_all obs (Metrics t)))) key
         in \<exists>s. st = Some s \<and> ss_count s = length w \<and>
              (\<forall>(p, v) \<in> {(1 / 2 :: rat, ss_p50 s), (95 / 100, ss_p95 s)}. v \<in> set w \<and>
                 p * of_nat (length w) \<le> of_nat (length (filter (\<lambda>x. x \<le> v) w)) \<and>
                 of_nat (length (filter (\<lambda>x. x < v) w)) < p * of_nat (length w)) \<and>
              ss_maximum s = Max (set w)"
proof -
  define w where "w = newest 1024 (values_of key obs)"
  have "length w \<noteq> 0" using assms by (simp add: w_def)
  then have w: "w \<noteq> []" by auto
  have s0: "samples_of key (Metrics t) = []" by (simp add: samples_of_def Metrics_def)
  have "samples_of key (record_all obs (Metrics t)) = w"
    using record_all_samples [of key "Metrics t" obs] by (simp add: s0 w_def)
  then have "mt_samples (record_all obs (Metrics t)) key = Some w"
    using w by (auto simp: samples_of_def split: option.splits)
  then have st: "mr_stages (fst (snapshot os now (record_all obs (Metrics t)))) key = Some (stage_stats_of w)"
    using w by (simp add: snapshot_def Let_def)
  have "last (sort w) = Max (set w)"
  proof (rule Max_eqI [symmetric])
    have "sort w \<noteq> []" using w by (metis length_0_conv length_sort)
    from last_in_set [OF this] show "last (sort w) \<in> set w" by (simp only: set_sort)
    show "y \<le> last (sort w)" if "y \<in> set w" for y
    proof -
      have "y \<in> set (sort w)" using that by simp
      then obtain i where "i < length (sort w)" "y = sort w ! i" unfolding in_set_conv_nth by blast
      moreover have "sort w \<noteq> []" using w by (metis length_0_conv length_sort)
      then have "last (sort w) = sort w ! (length (sort w) - 1)" by (rule last_conv_nth)
      ultimately show ?thesis using sorted_nth_mono [OF sorted_sort, of i "length (sort w) - 1" w] by (simp only:)
    qed
  qed simp
  with st percentile_rank [OF w, of "1 / 2"] percentile_rank [OF w, of "95 / 100"] show ?thesis
    unfolding Let_def w_def [symmetric] by (auto simp: stage_stats_of_def)
qed

theorem latency_statistics_witness:
  "\<exists>s. mr_stages (fst (snapshot \<lparr>os_cpu = 0, os_resident = 1, os_page_size = 4096, os_fds = 3\<rparr> 5
      (record_all [(''a'', 4), (''b'', 9), (''a'', 1)] (Metrics 0)))) ''a'' = Some s \<and> ss_count s = 2 \<and> ss_maximum s = 4"
proof -
  have w: "newest 1024 (values_of ''a'' [(''a'', 4), (''b'', 9), (''a'', 1)]) = [4, 1]"
      and ne: "values_of ''a'' [(''a'', 4), (''b'', 9), (''a'', 1)] \<noteq> []"
    by (simp_all add: values_of_def)
  have "Max {4, 1 :: rat} = 4" by simp
  with latency_statistics [OF ne, of "\<lparr>os_cpu = 0, os_resident = 1, os_page_size = 4096, os_fds = 3\<rparr>" 5 0]
  show ?thesis unfolding w Let_def by auto
qed

end
