(* ===== verification/EventLoop.thy ===== *)
theory EventLoop
  imports Prelude
begin

text \<open>
  The reactor of \<open>core/reactor/EventLoop.h\<close>. The kernel's epoll instance is the map from watched
  descriptors to event masks; the \<open>eventfd\<close> is whether its counter is not zero, which is all that
  \<open>epoll_wait\<close> and the non-blocking read and write show of it. A registered callback is a name, and
  what it does when it is invoked is given by a parameter \<open>body\<close>: the list of its calls on the loop,
  which may be different at each invocation, since \<open>body\<close> also gets the number of invocations so far.
  The loop's thread and the other threads are interleaved call by call.
\<close>

section \<open>Descriptors\<close>

datatype 'c handler = HandleWakeup | HandleTimers | Handler 'c

record 'c fd_ctx =
  fc_events :: u32
  fc_callback :: "'c handler"

abbreviation EPOLLIN :: u32 where "EPOLLIN \<equiv> 1"
abbreviation EPOLLOUT :: u32 where "EPOLLOUT \<equiv> 4"
abbreviation EPOLLERR :: u32 where "EPOLLERR \<equiv> 8"
abbreviation EPOLLHUP :: u32 where "EPOLLHUP \<equiv> 16"
abbreviation EPOLLRDHUP :: u32 where "EPOLLRDHUP \<equiv> 0x2000"

record 'c loop =
  lp_epoll_fd :: int
  lp_wakeup_fd :: int
  lp_epoll :: "int \<rightharpoonup> u32"
  lp_ctxs :: "int \<rightharpoonup> 'c fd_ctx"
  lp_pending :: "'c list"
  lp_calling :: bool
  lp_wake :: bool
  lp_running :: bool
  lp_stop_requested :: bool
  lp_active :: bool

text \<open>
  \<open>ctl fd\<close> says whether the kernel can watch the descriptor at all; adding one that is already
  watched fails in any case (\<open>EEXIST\<close>), and modifying one that is not watched does (\<open>ENOENT\<close>).
\<close>

definition addFd ::
  "(int \<Rightarrow> bool) \<Rightarrow> int \<Rightarrow> u32 \<Rightarrow> 'c handler \<Rightarrow> 'c loop \<Rightarrow> bool \<times> 'c loop" where
  "addFd ctl fd events cb s =
     (if lp_epoll_fd s < 0 then (False, s)
      else
        let s1 = s\<lparr>lp_ctxs := (lp_ctxs s)(fd \<mapsto> \<lparr>fc_events = events, fc_callback = cb\<rparr>)\<rparr>
        in if lp_epoll s1 fd \<noteq> None \<or> \<not> ctl fd
           then (False, s1\<lparr>lp_ctxs := (lp_ctxs s1)(fd := None)\<rparr>)
           else (True, s1\<lparr>lp_epoll := (lp_epoll s1)(fd \<mapsto> events)\<rparr>))"

definition updateFd :: "int \<Rightarrow> u32 \<Rightarrow> 'c loop \<Rightarrow> bool \<times> 'c loop" where
  "updateFd fd events s =
     (case lp_ctxs s fd of
        None \<Rightarrow> (False, s)
      | Some ctx \<Rightarrow>
          let s1 = s\<lparr>lp_ctxs := (lp_ctxs s)(fd \<mapsto> ctx\<lparr>fc_events := events\<rparr>)\<rparr>
          in if lp_epoll s1 fd = None then (False, s1)
             else (True, s1\<lparr>lp_epoll := (lp_epoll s1)(fd \<mapsto> events)\<rparr>))"

definition removeFd :: "int \<Rightarrow> 'c loop \<Rightarrow> 'c loop" where
  "removeFd fd s =
     s\<lparr>lp_ctxs := (lp_ctxs s)(fd := None), lp_epoll := (lp_epoll s)(fd := None)\<rparr>"

text \<open>The constructor: a negative descriptor stands for one that could not be created.\<close>

definition EventLoop :: "(int \<Rightarrow> bool) \<Rightarrow> int \<Rightarrow> int \<Rightarrow> int \<Rightarrow> 'c loop" where
  "EventLoop ctl epoll_fd wakeup_fd timer_fd =
     (let s = \<lparr>lp_epoll_fd = epoll_fd, lp_wakeup_fd = wakeup_fd, lp_epoll = Map.empty,
               lp_ctxs = Map.empty, lp_pending = [], lp_calling = False, lp_wake = False,
               lp_running = False, lp_stop_requested = False, lp_active = False\<rparr>
      in if epoll_fd < 0 \<or> wakeup_fd < 0 then s
         else
           let s1 = snd (addFd ctl wakeup_fd EPOLLIN HandleWakeup s)
           in if 0 \<le> timer_fd then snd (addFd ctl timer_fd EPOLLIN HandleTimers s1) else s1)"

subsection \<open>The registry and epoll agree\<close>

text \<open>\<open>interest s fd\<close>: the handler and the mask that an event of \<open>fd\<close> is dispatched with.\<close>

definition interest :: "'c loop \<Rightarrow> int \<Rightarrow> (u32 \<times> 'c handler) option" where
  "interest s fd = map_option (\<lambda>c. (fc_events c, fc_callback c)) (lp_ctxs s fd)"

definition registry_ok :: "'c loop \<Rightarrow> bool" where
  "registry_ok s \<longleftrightarrow> (\<forall>fd. lp_epoll s fd = map_option fc_events (lp_ctxs s fd))"

text \<open>What a user of the loop relies on, for descriptors it adds when they are not registered.\<close>

locale fd_registry =
  fixes add :: "int \<Rightarrow> u32 \<Rightarrow> 'h \<Rightarrow> 's \<Rightarrow> bool \<times> 's"
    and upd :: "int \<Rightarrow> u32 \<Rightarrow> 's \<Rightarrow> bool \<times> 's"
    and del :: "int \<Rightarrow> 's \<Rightarrow> 's"
    and watch :: "'s \<Rightarrow> int \<Rightarrow> (u32 \<times> 'h) option"
    and sound :: "'s \<Rightarrow> bool"
  assumes add_sound: "sound s \<Longrightarrow> watch s fd = None \<Longrightarrow> sound (snd (add fd ev h s))"
    and add_watch: "sound s \<Longrightarrow> watch s fd = None \<Longrightarrow>
      watch (snd (add fd ev h s)) = (if fst (add fd ev h s) then (watch s)(fd \<mapsto> (ev, h)) else watch s)"
    and upd_sound: "sound s \<Longrightarrow> sound (snd (upd fd ev s))"
    and upd_watch: "sound s \<Longrightarrow>
      watch (snd (upd fd ev s)) = (watch s)(fd := map_option (\<lambda>w. (ev, snd w)) (watch s fd))"
    and upd_result: "sound s \<Longrightarrow> fst (upd fd ev s) \<longleftrightarrow> watch s fd \<noteq> None"
    and del_sound: "sound s \<Longrightarrow> sound (del fd s)"
    and del_watch: "sound s \<Longrightarrow> watch (del fd s) = (watch s)(fd := None)"
begin

lemma add_then_del: "sound s \<Longrightarrow> watch s fd = None \<Longrightarrow> watch (del fd (snd (add fd ev h s))) = watch s"
  using add_sound [of s fd ev h] by (auto simp: del_watch add_watch)

lemma other_descriptors:
  assumes "sound s" and "fd' \<noteq> fd"
  shows "watch s fd = None \<Longrightarrow> watch (snd (add fd ev h s)) fd' = watch s fd'"
    and "watch (snd (upd fd ev s)) fd' = watch s fd'"
    and "watch (del fd s) fd' = watch s fd'"
  using assms by (simp_all add: add_watch upd_watch del_watch)

lemma upd_idem: "sound s \<Longrightarrow> watch (snd (upd fd ev (snd (upd fd ev' s)))) = watch (snd (upd fd ev s))"
  by (simp add: upd_watch upd_sound option.map_comp comp_def)

end

lemma registry_addFd:
  "registry_ok s \<Longrightarrow> lp_ctxs s fd = None \<Longrightarrow>
     registry_ok (snd (addFd ctl fd ev h s)) \<and>
     lp_ctxs (snd (addFd ctl fd ev h s)) =
       (if fst (addFd ctl fd ev h s) then (lp_ctxs s)(fd \<mapsto> \<lparr>fc_events = ev, fc_callback = h\<rparr>)
        else lp_ctxs s)"
  by (auto simp: addFd_def registry_ok_def Let_def)

interpretation reactor: fd_registry "addFd ctl" updateFd removeFd interest registry_ok for ctl
proof
  fix s :: "'c loop" and fd ev h
  assume ok: "registry_ok s"
  show "registry_ok (snd (updateFd fd ev s))"
    using ok by (auto simp: updateFd_def registry_ok_def Let_def split: option.splits)
  show "interest (snd (updateFd fd ev s)) =
      (interest s)(fd := map_option (\<lambda>w. (ev, snd w)) (interest s fd))"
    by (rule ext) (auto simp: updateFd_def interest_def Let_def split: option.splits)
  show "fst (updateFd fd ev s) \<longleftrightarrow> interest s fd \<noteq> None"
    using ok by (auto simp: updateFd_def interest_def registry_ok_def Let_def split: option.splits)
  show "registry_ok (removeFd fd s)" using ok by (simp add: removeFd_def registry_ok_def)
  show "interest (removeFd fd s) = (interest s)(fd := None)"
    by (rule ext) (simp add: removeFd_def interest_def)
  assume "interest s fd = None"
  then have none: "lp_ctxs s fd = None" by (simp add: interest_def)
  show "registry_ok (snd (addFd ctl fd ev h s))" using registry_addFd [OF ok none] by blast
  show "interest (snd (addFd ctl fd ev h s)) =
      (if fst (addFd ctl fd ev h s) then (interest s)(fd \<mapsto> (ev, h)) else interest s)"
    using registry_addFd [OF ok none] by (auto simp: interest_def fun_eq_iff)
qed

text \<open>What callbacks and other code call on the loop's own thread between two of its steps.\<close>

datatype 'c lact =
    AddFd int u32 'c
  | UpdateFd int u32
  | RemoveFd int
  | QueueInLoop 'c
  | Stop

section \<open>Functors, wakeups and stopping\<close>

text \<open>
  \<open>queueInLoop\<close> in its two parts, since other threads run between them: the push under the mutex, and
  the write to the \<open>eventfd\<close> when the caller is another thread or the functors are being called.
\<close>

definition queue_push :: "'c \<Rightarrow> 'c loop \<Rightarrow> 'c loop" where
  "queue_push f s = s\<lparr>lp_pending := lp_pending s @ [f]\<rparr>"

definition queue_wake :: "bool \<Rightarrow> 'c loop \<Rightarrow> 'c loop" where
  "queue_wake in_loop_thread s =
     (if \<not> in_loop_thread \<or> lp_calling s then s\<lparr>lp_wake := True\<rparr> else s)"

definition queueInLoop :: "bool \<Rightarrow> 'c \<Rightarrow> 'c loop \<Rightarrow> 'c loop" where
  "queueInLoop in_loop_thread f s = queue_wake in_loop_thread (queue_push f s)"

definition runInLoop :: "bool \<Rightarrow> ('c \<Rightarrow> 'c loop \<Rightarrow> 'c loop) \<Rightarrow> 'c \<Rightarrow> 'c loop \<Rightarrow> 'c loop" where
  "runInLoop in_loop_thread call f s =
     (if in_loop_thread then call f s else queueInLoop in_loop_thread f s)"

text \<open>\<open>stop\<close> is three writes that other threads can see one by one.\<close>

definition stop_request :: "'c loop \<Rightarrow> 'c loop" where
  "stop_request s = s\<lparr>lp_stop_requested := True\<rparr>"

definition stop_running :: "'c loop \<Rightarrow> 'c loop" where
  "stop_running s = s\<lparr>lp_running := False\<rparr>"

definition stop_wake :: "'c loop \<Rightarrow> 'c loop" where
  "stop_wake s = s\<lparr>lp_wake := True\<rparr>"

definition handleWakeup :: "'c loop \<Rightarrow> 'c loop" where
  "handleWakeup s = s\<lparr>lp_wake := False\<rparr>"

fun run_lact :: "(int \<Rightarrow> bool) \<Rightarrow> 'c lact \<Rightarrow> 'c loop \<Rightarrow> 'c loop" where
  "run_lact ctl (AddFd fd ev c) s = snd (addFd ctl fd ev (Handler c) s)"
| "run_lact ctl (UpdateFd fd ev) s = snd (updateFd fd ev s)"
| "run_lact ctl (RemoveFd fd) s = removeFd fd s"
| "run_lact ctl (QueueInLoop f) s = queueInLoop True f s"
| "run_lact ctl Stop s = stop_wake (stop_running (stop_request s))"

text \<open>
  Where the loop's thread stands. \<open>Starting b\<close> is between the two halves of
  \<open>running_ = !stop_requested_\<close>: \<open>b\<close> was computed and is not yet stored. \<open>Dispatching as evs\<close> has the
  rest of the current callback and of the batch, \<open>Calling as fs\<close> the rest of the current functor and
  of the swapped-out functors.
\<close>

datatype 'c pc =
    NotRunning
  | Starting bool
  | Head
  | Waiting
  | Dispatching "'c lact list" "(int \<times> u32) list"
  | Calling "'c lact list" "'c list"

text \<open>
  The whole process: the loop, its thread, the other threads that are in the middle of
  \<open>queueInLoop\<close> (\<open>sy_queuers\<close>) or of \<open>stop\<close> (before the second and before the third write), and, as
  ghost state, the functors that were queued and those that were called.
\<close>

record 'c sys =
  sy_loop :: "'c loop"
  sy_pc :: "'c pc"
  sy_queuers :: nat
  sy_stop2 :: nat
  sy_stop3 :: nat
  sy_stops :: nat
  sy_calls :: nat
  sy_queued :: "'c list"
  sy_called :: "'c list"

definition sys_init :: "'c loop \<Rightarrow> 'c sys" where
  "sys_init l = \<lparr>sy_loop = l, sy_pc = NotRunning, sy_queuers = 0, sy_stop2 = 0, sy_stop3 = 0,
     sy_stops = 0, sy_calls = 0, sy_queued = [], sy_called = []\<rparr>"

text \<open>One call made by the code that runs on the loop's thread.\<close>

definition sys_act :: "(int \<Rightarrow> bool) \<Rightarrow> 'c lact \<Rightarrow> 'c sys \<Rightarrow> 'c sys" where
  "sys_act ctl a s =
     s\<lparr>sy_loop := run_lact ctl a (sy_loop s),
       sy_queued := sy_queued s @ (case a of QueueInLoop f \<Rightarrow> [f] | _ \<Rightarrow> []),
       sy_stops := sy_stops s + (case a of Stop \<Rightarrow> 1 | _ \<Rightarrow> 0)\<rparr>"

text \<open>
  The dispatch of one event: the context is looked up now, not when the batch was fetched.
\<close>

definition dispatch ::
  "('c handler \<Rightarrow> u32 \<Rightarrow> nat \<Rightarrow> 'c lact list) \<Rightarrow> int \<times> u32 \<Rightarrow> 'c sys \<Rightarrow> 'c lact list \<times> 'c sys" where
  "dispatch body ev s =
     (case lp_ctxs (sy_loop s) (fst ev) of
        None \<Rightarrow> ([], s)
      | Some ctx \<Rightarrow>
          let s1 = s\<lparr>sy_calls := sy_calls s + 1\<rparr>
          in case fc_callback ctx of
               HandleWakeup \<Rightarrow> ([], s1\<lparr>sy_loop := handleWakeup (sy_loop s1)\<rparr>)
             | cb \<Rightarrow> (body cb (snd ev) (sy_calls s), s1))"

text \<open>
  One step of the loop's thread, \<open>run\<close> with \<open>doPendingFunctors\<close>. \<open>LoopEvents\<close> is what
  \<open>epoll_wait\<close> returns, \<open>LoopIntr\<close> is \<open>EINTR\<close>, \<open>LoopErr\<close> any other error. The other threads'
  steps queue functors and stop the loop.
\<close>

datatype 'c choice =
    LoopStep
  | LoopEvents "(int \<times> u32) list"
  | LoopIntr
  | LoopErr
  | ExtPush 'c
  | ExtWake
  | ExtStop1
  | ExtStop2
  | ExtStop3

definition loop_end :: "'c sys \<Rightarrow> 'c sys" where
  "loop_end s = s\<lparr>sy_loop := (sy_loop s)\<lparr>lp_running := False, lp_active := False\<rparr>, sy_pc := NotRunning\<rparr>"

fun loop_step ::
  "(int \<Rightarrow> bool) \<Rightarrow> ('c handler \<Rightarrow> u32 \<Rightarrow> nat \<Rightarrow> 'c lact list) \<Rightarrow> 'c pc \<Rightarrow> 'c sys \<Rightarrow> 'c sys option" where
  "loop_step ctl body NotRunning s =
     Some (s\<lparr>sy_loop := (sy_loop s)\<lparr>lp_active := True\<rparr>,
             sy_pc := Starting (\<not> lp_stop_requested (sy_loop s))\<rparr>)"
| "loop_step ctl body (Starting b) s =
     Some (s\<lparr>sy_loop := (sy_loop s)\<lparr>lp_running := b\<rparr>, sy_pc := Head\<rparr>)"
| "loop_step ctl body Head s =
     Some (if lp_running (sy_loop s) then s\<lparr>sy_pc := Waiting\<rparr> else loop_end s)"
| "loop_step ctl body Waiting s = None"
| "loop_step ctl body (Dispatching (a # as) evs) s =
     Some ((sys_act ctl a s)\<lparr>sy_pc := Dispatching as evs\<rparr>)"
| "loop_step ctl body (Dispatching [] (ev # evs)) s =
     (let (as, s1) = dispatch body ev s in Some (s1\<lparr>sy_pc := Dispatching as evs\<rparr>))"
| "loop_step ctl body (Dispatching [] []) s =
     Some (s\<lparr>sy_loop := (sy_loop s)\<lparr>lp_pending := [], lp_calling := True\<rparr>,
             sy_pc := Calling [] (lp_pending (sy_loop s))\<rparr>)"
| "loop_step ctl body (Calling (a # as) fs) s = Some ((sys_act ctl a s)\<lparr>sy_pc := Calling as fs\<rparr>)"
| "loop_step ctl body (Calling [] (f # fs)) s =
     Some (s\<lparr>sy_pc := Calling (body (Handler f) 0 (sy_calls s)) fs, sy_calls := sy_calls s + 1,
             sy_called := sy_called s @ [f]\<rparr>)"
| "loop_step ctl body (Calling [] []) s =
     Some (s\<lparr>sy_loop := (sy_loop s)\<lparr>lp_calling := False\<rparr>, sy_pc := Head\<rparr>)"

text \<open>
  \<open>epoll_wait\<close> without a timeout returns at least one event, each for a watched descriptor; it does
  return while the counter of the watched \<open>eventfd\<close> is not zero, so a batch is possible then.
\<close>

fun sys_step ::
  "(int \<Rightarrow> bool) \<Rightarrow> ('c handler \<Rightarrow> u32 \<Rightarrow> nat \<Rightarrow> 'c lact list) \<Rightarrow> 'c choice \<Rightarrow> 'c sys \<Rightarrow> 'c sys option" where
  "sys_step ctl body LoopStep s = loop_step ctl body (sy_pc s) s"
| "sys_step ctl body (LoopEvents evs) s =
     (if sy_pc s = Waiting \<and> evs \<noteq> [] \<and> length evs \<le> 64 \<and>
         list_all (\<lambda>ev. lp_epoll (sy_loop s) (fst ev) \<noteq> None \<and>
                        (fst ev = lp_wakeup_fd (sy_loop s) \<longrightarrow> lp_wake (sy_loop s))) evs
      then Some (s\<lparr>sy_pc := Dispatching [] evs\<rparr>) else None)"
| "sys_step ctl body LoopIntr s = (if sy_pc s = Waiting then Some (s\<lparr>sy_pc := Head\<rparr>) else None)"
| "sys_step ctl body LoopErr s = (if sy_pc s = Waiting then Some (loop_end s) else None)"
| "sys_step ctl body (ExtPush f) s =
     Some (s\<lparr>sy_loop := queue_push f (sy_loop s), sy_queuers := sy_queuers s + 1,
             sy_queued := sy_queued s @ [f]\<rparr>)"
| "sys_step ctl body ExtWake s =
     (if 0 < sy_queuers s
      then Some (s\<lparr>sy_loop := queue_wake False (sy_loop s), sy_queuers := sy_queuers s - 1\<rparr>)
      else None)"
| "sys_step ctl body ExtStop1 s =
     Some (s\<lparr>sy_loop := stop_request (sy_loop s), sy_stop2 := sy_stop2 s + 1\<rparr>)"
| "sys_step ctl body ExtStop2 s =
     (if 0 < sy_stop2 s
      then Some (s\<lparr>sy_loop := stop_running (sy_loop s), sy_stop2 := sy_stop2 s - 1,
                   sy_stop3 := sy_stop3 s + 1\<rparr>)
      else None)"
| "sys_step ctl body ExtStop3 s =
     (if 0 < sy_stop3 s
      then Some (s\<lparr>sy_loop := stop_wake (sy_loop s), sy_stop3 := sy_stop3 s - 1,
                   sy_stops := sy_stops s + 1\<rparr>)
      else None)"

inductive sys_reach ::
  "(int \<Rightarrow> bool) \<Rightarrow> ('c handler \<Rightarrow> u32 \<Rightarrow> nat \<Rightarrow> 'c lact list) \<Rightarrow> 'c sys \<Rightarrow> 'c sys \<Rightarrow> bool"
  for ctl body s where
  sys_refl: "sys_reach ctl body s s"
| sys_next: "sys_reach ctl body s s1 \<Longrightarrow> sys_step ctl body c s1 = Some s2 \<Longrightarrow> sys_reach ctl body s s2"

fun sys_run ::
  "(int \<Rightarrow> bool) \<Rightarrow> ('c handler \<Rightarrow> u32 \<Rightarrow> nat \<Rightarrow> 'c lact list) \<Rightarrow> 'c choice list \<Rightarrow> 'c sys \<Rightarrow> 'c sys option" where
  "sys_run ctl body [] s = Some s"
| "sys_run ctl body (c # cs) s = Option.bind (sys_step ctl body c s) (sys_run ctl body cs)"

lemma sys_run_reach: "sys_run ctl body cs s = Some s' \<Longrightarrow> sys_reach ctl body s0 s \<Longrightarrow> sys_reach ctl body s0 s'"
  by (induction cs arbitrary: s) (auto split: Option.bind_splits intro: sys_next)

text \<open>
  The cases of a step: the one case analysis that the invariants below use. It leaves out which
  calls the client's code makes: those are \<open>sys_act\<close>.
\<close>

lemma pc_cases:
  fixes pc :: "'c pc"
  obtains (idle) "pc = NotRunning" | (starting) b where "pc = Starting b" | (head) "pc = Head" | (waiting) "pc = Waiting"
  | (handling) a as evs where "pc = Dispatching (a # as) evs" | (next_event) ev evs where "pc = Dispatching [] (ev # evs)"
  | (handled) "pc = Dispatching [] []" | (calling) a as fs where "pc = Calling (a # as) fs"
  | (next_functor) f fs where "pc = Calling [] (f # fs)" | (called) "pc = Calling [] []"
  by (cases "(undefined, undefined, pc, undefined) :: (int \<Rightarrow> bool) \<times> ('c handler \<Rightarrow> u32 \<Rightarrow> nat \<Rightarrow> 'c lact list) \<times> 'c pc \<times> 'c sys"
        rule: loop_step.cases) auto

lemma sys_step_cases:
  assumes "sys_step ctl body c s = Some s'"
  obtains
    (start) "sy_pc s = NotRunning" "c = LoopStep"
      "s' = s\<lparr>sy_loop := (sy_loop s)\<lparr>lp_active := True\<rparr>,
              sy_pc := Starting (\<not> lp_stop_requested (sy_loop s))\<rparr>"
  | (started) b where "sy_pc s = Starting b" "c = LoopStep"
      "s' = s\<lparr>sy_loop := (sy_loop s)\<lparr>lp_running := b\<rparr>, sy_pc := Head\<rparr>"
  | (enter_wait) "sy_pc s = Head" "c = LoopStep" "lp_running (sy_loop s)" "s' = s\<lparr>sy_pc := Waiting\<rparr>"
  | (leave) "sy_pc s = Head \<and> \<not> lp_running (sy_loop s) \<or> sy_pc s = Waiting" "s' = loop_end s"
  | (act) a as evs where "sy_pc s = Dispatching (a # as) evs" "c = LoopStep"
      "s' = (sys_act ctl a s)\<lparr>sy_pc := Dispatching as evs\<rparr>"
  | (event) ev evs where "sy_pc s = Dispatching [] (ev # evs)" "c = LoopStep"
      "s' = (snd (dispatch body ev s))\<lparr>sy_pc := Dispatching (fst (dispatch body ev s)) evs\<rparr>"
  | (swap) "sy_pc s = Dispatching [] []" "c = LoopStep"
      "s' = s\<lparr>sy_loop := (sy_loop s)\<lparr>lp_pending := [], lp_calling := True\<rparr>,
              sy_pc := Calling [] (lp_pending (sy_loop s))\<rparr>"
  | (fun_act) a as fs where "sy_pc s = Calling (a # as) fs" "c = LoopStep"
      "s' = (sys_act ctl a s)\<lparr>sy_pc := Calling as fs\<rparr>"
  | (call) f fs where "sy_pc s = Calling [] (f # fs)" "c = LoopStep"
      "s' = s\<lparr>sy_pc := Calling (body (Handler f) 0 (sy_calls s)) fs, sy_calls := sy_calls s + 1,
              sy_called := sy_called s @ [f]\<rparr>"
  | (finished) "sy_pc s = Calling [] []" "c = LoopStep"
      "s' = s\<lparr>sy_loop := (sy_loop s)\<lparr>lp_calling := False\<rparr>, sy_pc := Head\<rparr>"
  | (batch) evs where "sy_pc s = Waiting" "c = LoopEvents evs" "s' = s\<lparr>sy_pc := Dispatching [] evs\<rparr>"
  | (intr) "sy_pc s = Waiting" "c = LoopIntr" "s' = s\<lparr>sy_pc := Head\<rparr>"
  | (other) "(\<exists>f. c = ExtPush f) \<or> c = ExtWake \<or> c = ExtStop1 \<or> c = ExtStop2 \<or> c = ExtStop3"
proof (cases c)
  case LoopStep
  with assms have step: "Some s' = loop_step ctl body (sy_pc s) s" by simp
  show thesis
  proof (cases "sy_pc s" rule: pc_cases)
    case idle
    with step LoopStep show thesis by (intro start) simp_all
  next
    case starting
    with step LoopStep show thesis by (intro started) simp_all
  next
    case head
    with step LoopStep show thesis by (cases "lp_running (sy_loop s)") (auto intro: enter_wait leave)
  next
    case waiting
    with step show thesis by simp
  next
    case handling
    with step LoopStep show thesis by (intro act) simp_all
  next
    case next_event
    with step LoopStep show thesis by (intro event) (simp_all add: split_beta)
  next
    case handled
    with step LoopStep show thesis by (intro swap) simp_all
  next
    case calling
    with step LoopStep show thesis by (intro fun_act) simp_all
  next
    case next_functor
    with step LoopStep show thesis by (intro call) simp_all
  next
    case called
    with step LoopStep show thesis by (intro finished) simp_all
  qed
next
  case (LoopEvents evs)
  with assms [symmetric] show thesis by (intro batch) (simp_all split: if_splits)
next
  case LoopIntr
  with assms [symmetric] show thesis by (intro intr) (simp_all split: if_splits)
next
  case LoopErr
  with assms [symmetric] show thesis by (intro leave) (simp_all split: if_splits)
next
  case ExtPush
  then show thesis by (intro other) simp
next
  case ExtWake
  then show thesis by (intro other) simp
next
  case ExtStop1
  then show thesis by (intro other) simp
next
  case ExtStop2
  then show thesis by (intro other) simp
next
  case ExtStop3
  then show thesis by (intro other) simp
qed

subsection \<open>Functors run once, in order\<close>

fun pc_functors :: "'c pc \<Rightarrow> 'c list" where
  "pc_functors (Calling as fs) = fs"
| "pc_functors _ = []"

definition fifo_inv :: "'c sys \<Rightarrow> bool" where
  "fifo_inv s \<longleftrightarrow> sy_queued s = sy_called s @ pc_functors (sy_pc s) @ lp_pending (sy_loop s)"

lemma loop_ops_pending [simp]:
  "lp_pending (snd (addFd ctl fd ev h l)) = lp_pending l"
  "lp_pending (snd (updateFd fd ev l)) = lp_pending l"
  "lp_calling (snd (addFd ctl fd ev h l)) = lp_calling l"
  "lp_calling (snd (updateFd fd ev l)) = lp_calling l"
  "lp_wake (snd (addFd ctl fd ev h l)) = lp_wake l"
  "lp_wake (snd (updateFd fd ev l)) = lp_wake l"
  "lp_running (snd (addFd ctl fd ev h l)) = lp_running l"
  "lp_running (snd (updateFd fd ev l)) = lp_running l"
  "lp_stop_requested (snd (addFd ctl fd ev h l)) = lp_stop_requested l"
  "lp_stop_requested (snd (updateFd fd ev l)) = lp_stop_requested l"
  "lp_wakeup_fd (snd (addFd ctl fd ev h l)) = lp_wakeup_fd l"
  "lp_wakeup_fd (snd (updateFd fd ev l)) = lp_wakeup_fd l"
  by (simp_all add: addFd_def updateFd_def Let_def split: option.splits)

lemmas loop_ops_defs = removeFd_def queueInLoop_def queue_push_def queue_wake_def stop_request_def
  stop_running_def stop_wake_def handleWakeup_def

lemma fifo_inv_act:
  assumes "sy_queued s = sy_called s @ fs @ lp_pending (sy_loop s)"
  shows "sy_queued (sys_act ctl a s) = sy_called (sys_act ctl a s) @ fs @ lp_pending (sy_loop (sys_act ctl a s))"
  using assms by (cases a) (simp_all add: sys_act_def loop_ops_defs)

lemma dispatch_frame [simp]:
  "sy_queued (snd (dispatch body ev s)) = sy_queued s"
  "sy_called (snd (dispatch body ev s)) = sy_called s"
  "sy_queuers (snd (dispatch body ev s)) = sy_queuers s"
  "sy_stop2 (snd (dispatch body ev s)) = sy_stop2 s"
  "sy_stop3 (snd (dispatch body ev s)) = sy_stop3 s"
  "lp_pending (sy_loop (snd (dispatch body ev s))) = lp_pending (sy_loop s)"
  "lp_calling (sy_loop (snd (dispatch body ev s))) = lp_calling (sy_loop s)"
  "lp_running (sy_loop (snd (dispatch body ev s))) = lp_running (sy_loop s)"
  "lp_stop_requested (sy_loop (snd (dispatch body ev s))) = lp_stop_requested (sy_loop s)"
  "lp_epoll (sy_loop (snd (dispatch body ev s))) = lp_epoll (sy_loop s)"
  "lp_ctxs (sy_loop (snd (dispatch body ev s))) = lp_ctxs (sy_loop s)"
  "lp_wakeup_fd (sy_loop (snd (dispatch body ev s))) = lp_wakeup_fd (sy_loop s)"
  by (simp_all add: dispatch_def handleWakeup_def Let_def split: option.splits handler.splits)

lemma fifo_step: "fifo_inv s \<Longrightarrow> sys_step ctl body c s = Some s' \<Longrightarrow> fifo_inv s'"
proof -
  assume inv: "fifo_inv s" and step: "sys_step ctl body c s = Some s'"
  note inv1 = inv [unfolded fifo_inv_def]
  from step show ?thesis
  proof (cases rule: sys_step_cases)
    case leave
    with inv show ?thesis by (auto simp: fifo_inv_def loop_end_def)
  next
    case (act a as evs)
    with inv1 fifo_inv_act [of s "[]" ctl a] show ?thesis by (simp add: fifo_inv_def)
  next
    case (fun_act a as fs)
    with inv1 fifo_inv_act [of s fs ctl a] show ?thesis by (simp add: fifo_inv_def)
  next
    case other
    with step inv show ?thesis by (auto simp: fifo_inv_def loop_ops_defs split: if_splits)
  qed (use inv1 in \<open>simp_all add: fifo_inv_def\<close>)
qed

text \<open>C18: Functors are called exactly once and in the order they were queued, whatever threads queue them
  and whenever: at every moment the queued functors are those already called, then those of the current
  \<open>doPendingFunctors\<close> that are still to come, then the pending ones; a functor queued by a functor waits
  for the next round.\<close>

theorem functors_fifo:
  assumes "sys_reach ctl body (sys_init l) s" and "lp_pending l = []"
  shows "sy_queued s = sy_called s @ pc_functors (sy_pc s) @ lp_pending (sy_loop s)"
proof -
  have "fifo_inv (sys_init l)" using assms(2) by (simp add: fifo_inv_def sys_init_def)
  with assms(1) have "fifo_inv s" by induction (auto intro: fifo_step)
  then show ?thesis by (simp add: fifo_inv_def)
qed

subsection \<open>No functor is stranded\<close>

text \<open>Client code that leaves the loop's own \<open>eventfd\<close> registration alone.\<close>

fun spares :: "int \<Rightarrow> 'c lact \<Rightarrow> bool" where
  "spares w (AddFd fd ev c) = (fd \<noteq> w)"
| "spares w (UpdateFd fd ev) = (fd \<noteq> w)"
| "spares w (RemoveFd fd) = (fd \<noteq> w)"
| "spares w _ = True"

fun pc_script :: "'c pc \<Rightarrow> 'c lact list" where
  "pc_script (Dispatching as evs) = as"
| "pc_script (Calling as fs) = as"
| "pc_script _ = []"

fun pc_calling :: "'c pc \<Rightarrow> bool" where
  "pc_calling (Calling as fs) = True"
| "pc_calling _ = False"

fun pc_dispatching :: "'c pc \<Rightarrow> bool" where
  "pc_dispatching (Dispatching as evs) = True"
| "pc_dispatching _ = False"

definition watches_wakeup :: "int \<Rightarrow> 'c loop \<Rightarrow> bool" where
  "watches_wakeup w l \<longleftrightarrow> lp_wakeup_fd l = w \<and> lp_epoll l w = Some EPOLLIN \<and>
     lp_ctxs l w = Some \<lparr>fc_events = EPOLLIN, fc_callback = HandleWakeup\<rparr>"

definition wake_inv :: "int \<Rightarrow> 'c sys \<Rightarrow> bool" where
  "wake_inv w s \<longleftrightarrow> watches_wakeup w (sy_loop s) \<and> list_all (spares w) (pc_script (sy_pc s)) \<and>
     lp_calling (sy_loop s) = pc_calling (sy_pc s) \<and>
     (pc_dispatching (sy_pc s) \<or> lp_pending (sy_loop s) = [] \<or> lp_wake (sy_loop s) \<or> 0 < sy_queuers s)"

lemma watches_act: "watches_wakeup w l \<Longrightarrow> spares w a \<Longrightarrow> watches_wakeup w (run_lact ctl a l)"
  by (cases a) (auto simp: watches_wakeup_def loop_ops_defs addFd_def updateFd_def Let_def
      split: option.splits)

lemma watches_fields [simp]:
  "watches_wakeup w (l\<lparr>lp_pending := p\<rparr>) = watches_wakeup w l"
  "watches_wakeup w (l\<lparr>lp_calling := b\<rparr>) = watches_wakeup w l"
  "watches_wakeup w (l\<lparr>lp_wake := b\<rparr>) = watches_wakeup w l"
  "watches_wakeup w (l\<lparr>lp_running := b\<rparr>) = watches_wakeup w l"
  "watches_wakeup w (l\<lparr>lp_stop_requested := b\<rparr>) = watches_wakeup w l"
  "watches_wakeup w (l\<lparr>lp_active := b\<rparr>) = watches_wakeup w l"
  by (simp_all add: watches_wakeup_def)

lemma run_lact_flags:
  "lp_calling (run_lact ctl a l) = lp_calling l"
  "lp_wake l \<Longrightarrow> lp_wake (run_lact ctl a l)"
  "lp_calling l \<Longrightarrow> lp_pending (run_lact ctl a l) \<noteq> lp_pending l \<Longrightarrow> lp_wake (run_lact ctl a l)"
  "lp_stop_requested l \<Longrightarrow> lp_stop_requested (run_lact ctl a l)"
  "\<not> lp_running l \<Longrightarrow> \<not> lp_running (run_lact ctl a l)"
  by (cases a; simp add: loop_ops_defs)+

lemma wake_step:
  assumes "wake_inv w s" and "\<forall>h r n. list_all (spares w) (body h r n)" and "sys_step ctl body c s = Some s'"
  shows "wake_inv w s'"
  using assms(3)
proof (cases rule: sys_step_cases)
  case leave
  with assms(1) show ?thesis by (auto simp: wake_inv_def loop_end_def)
next
  case (act a as evs)
  with assms(1) watches_act [of w "sy_loop s" a ctl] show ?thesis
    by (simp add: wake_inv_def sys_act_def run_lact_flags)
next
  case (event ev evs)
  with assms(1,2) show ?thesis
    by (auto simp: wake_inv_def dispatch_def handleWakeup_def Let_def split: option.splits handler.splits)
next
  case (fun_act a as fs)
  with assms(1) watches_act [of w "sy_loop s" a ctl] run_lact_flags(1) [of ctl a "sy_loop s"]
    run_lact_flags(2,3) [of "sy_loop s" ctl a]
  show ?thesis by (auto simp: wake_inv_def sys_act_def)
next
  case other
  with assms(1,3) show ?thesis by (auto simp: wake_inv_def loop_ops_defs split: if_splits)
qed (use assms(1,2) in \<open>simp_all add: wake_inv_def\<close>)

lemma wake_init:
  "0 \<le> epoll_fd \<Longrightarrow> 0 \<le> w \<Longrightarrow> ctl w \<Longrightarrow> timer_fd \<noteq> w \<Longrightarrow>
     wake_inv w (sys_init (EventLoop ctl epoll_fd w timer_fd))"
  by (simp add: wake_inv_def sys_init_def EventLoop_def addFd_def watches_wakeup_def Let_def)

text \<open>C17: No queued functor waits for an unrelated event: when the loop is in \<open>epoll_wait\<close> with functors
  pending, and no thread is still between its push and its write, then the watched \<open>eventfd\<close> is readable,
  so \<open>epoll_wait\<close> can return with it, and two steps later exactly the pending functors are being called.
  This holds for every interleaving of threads, and for functors queued by functors.\<close>

theorem no_stranded_functor:
  assumes "sys_reach ctl body (sys_init (EventLoop ctl epoll_fd w timer_fd)) s"
    and "0 \<le> epoll_fd" and "0 \<le> w" and "ctl w" and "timer_fd \<noteq> w"
    and "\<forall>h r n. list_all (spares w) (body h r n)"
    and "sy_pc s = Waiting" and "lp_pending (sy_loop s) \<noteq> []" and "sy_queuers s = 0"
  shows "lp_wake (sy_loop s) \<and>
         (\<exists>s'. sys_run ctl body [LoopEvents [(w, EPOLLIN)], LoopStep, LoopStep] s = Some s' \<and>
               sy_pc s' = Calling [] (lp_pending (sy_loop s)) \<and> lp_pending (sy_loop s') = [])"
proof -
  from assms(1) have "wake_inv w s"
    by induction (use wake_init assms(2-5) wake_step [OF _ assms(6)] in blast)+
  then have "watches_wakeup w (sy_loop s)" and wake: "lp_wake (sy_loop s)"
    using assms(7-9) by (auto simp: wake_inv_def)
  then show ?thesis
    using assms(7) by (simp add: watches_wakeup_def dispatch_def handleWakeup_def Let_def)
qed

subsection \<open>Stopping\<close>

text \<open>Once the second write of a \<open>stop\<close> is done, outside of the window in \<open>run\<close>.\<close>

definition stopping :: "'c sys \<Rightarrow> bool" where
  "stopping s \<longleftrightarrow> lp_stop_requested (sy_loop s) \<and> \<not> lp_running (sy_loop s) \<and> sy_pc s \<noteq> Starting True \<and>
     (sy_pc s = Waiting \<longrightarrow> lp_wake (sy_loop s) \<or> 0 < sy_stop3 s)"

lemma stopping_step: "stopping s \<Longrightarrow> sys_step ctl body c s = Some s' \<Longrightarrow> stopping s'"
proof -
  assume inv: "stopping s" and step: "sys_step ctl body c s = Some s'"
  from step show ?thesis
  proof (cases rule: sys_step_cases)
    case leave
    with inv show ?thesis by (auto simp: stopping_def loop_end_def)
  next
    case (act a as evs)
    with inv run_lact_flags(4,5) [of "sy_loop s" ctl a] show ?thesis by (simp add: stopping_def sys_act_def)
  next
    case (fun_act a as fs)
    with inv run_lact_flags(4,5) [of "sy_loop s" ctl a] show ?thesis by (simp add: stopping_def sys_act_def)
  next
    case other
    with step inv show ?thesis by (auto simp: stopping_def loop_ops_defs split: if_splits)
  qed (use inv in \<open>simp_all add: stopping_def\<close>)
qed

definition stop_requested_inv :: "'c sys \<Rightarrow> bool" where
  "stop_requested_inv s \<longleftrightarrow> (0 < sy_stop2 s \<longrightarrow> lp_stop_requested (sy_loop s))"

lemma stop_requested_step:
  "stop_requested_inv s \<Longrightarrow> sys_step ctl body c s = Some s' \<Longrightarrow> stop_requested_inv s'"
proof -
  assume inv: "stop_requested_inv s" and step: "sys_step ctl body c s = Some s'"
  from step show ?thesis
  proof (cases rule: sys_step_cases)
    case leave
    with inv show ?thesis by (auto simp: stop_requested_inv_def loop_end_def)
  next
    case (act a as evs)
    with inv run_lact_flags(4) [of "sy_loop s" ctl a] show ?thesis
      by (simp add: stop_requested_inv_def sys_act_def)
  next
    case (fun_act a as fs)
    with inv run_lact_flags(4) [of "sy_loop s" ctl a] show ?thesis
      by (simp add: stop_requested_inv_def sys_act_def)
  next
    case other
    with step inv show ?thesis by (auto simp: stop_requested_inv_def loop_ops_defs split: if_splits)
  qed (use inv in \<open>simp_all add: stop_requested_inv_def\<close>)
qed

text \<open>C19: A \<open>stop\<close> from another thread ends the loop, unless its second write falls between the two halves
  of \<open>running_ = !stop_requested_\<close>: from that write on \<open>running_\<close> is never true again, the loop never
  stays in \<open>epoll_wait\<close> without a wakeup that is readable or about to be written, and the next test of the
  loop condition leaves \<open>run\<close>.\<close>

theorem stop_ends_loop:
  assumes "sys_reach ctl body (sys_init l) s" and "sy_pc s \<noteq> Starting True"
    and "sys_step ctl body ExtStop2 s = Some s1" and "sys_reach ctl body s1 s2"
  shows "\<not> lp_running (sy_loop s2) \<and>
         (sy_pc s2 = Waiting \<longrightarrow> lp_wake (sy_loop s2) \<or> 0 < sy_stop3 s2) \<and>
         (sy_pc s2 = Head \<longrightarrow> sys_step ctl body LoopStep s2 = Some (loop_end s2))"
proof -
  from assms(1) have "stop_requested_inv s"
  proof induction
    case sys_refl
    show ?case by (simp add: sys_init_def stop_requested_inv_def)
  qed (rule stop_requested_step)
  with assms(2,3) have "stopping s1"
    by (auto simp: stopping_def stop_requested_inv_def loop_ops_defs split: if_splits)
  with assms(4) have "stopping s2" by induction (auto intro: stopping_step)
  then show ?thesis by (simp add: stopping_def)
qed

text \<open>
  Example runs: the other threads of these runs are a queuer and a stopper; functors and handlers do
  nothing.
\<close>

abbreviation quiet :: "nat handler \<Rightarrow> u32 \<Rightarrow> nat \<Rightarrow> nat lact list" where
  "quiet h r n \<equiv> []"

definition loop0 :: "nat loop" where
  "loop0 = EventLoop (\<lambda>_. True) 3 4 5"

lemmas loop_eval = sys_init_def loop0_def EventLoop_def addFd_def loop_ops_defs dispatch_def loop_end_def
  Let_def sys_act_def


text \<open>A functor queued while the loop waits.\<close>

theorem no_stranded_functor_witness:
  "\<exists>s. sys_run (\<lambda>_. True) quiet [LoopStep, LoopStep, LoopStep, ExtPush 7, ExtWake] (sys_init loop0) = Some s \<and>
     lp_wake (sy_loop s) \<and>
     (\<exists>s'. sys_run (\<lambda>_. True) quiet [LoopEvents [(4, EPOLLIN)], LoopStep, LoopStep] s = Some s' \<and>
           sy_pc s' = Calling [] [7] \<and> lp_pending (sy_loop s') = [])"
proof -
  obtain s where s: "sys_run (\<lambda>_. True) quiet [LoopStep, LoopStep, LoopStep, ExtPush 7, ExtWake]
      (sys_init loop0) = Some s" "sy_pc s = Waiting" "lp_pending (sy_loop s) = [7]" "sy_queuers s = 0"
    by (simp add: loop_eval)
  from sys_run_reach [OF s(1) sys_refl]
  have "sys_reach (\<lambda>_. True) quiet (sys_init (EventLoop (\<lambda>_. True) 3 4 5)) s" by (simp add: loop0_def)
  from no_stranded_functor [OF this] have "lp_wake (sy_loop s) \<and>
      (\<exists>s'. sys_run (\<lambda>_. True) quiet [LoopEvents [(4, EPOLLIN)], LoopStep, LoopStep] s = Some s' \<and>
            sy_pc s' = Calling [] [7] \<and> lp_pending (sy_loop s') = [])"
    using s(2-4) by (simp del: sys_run.simps)
  with s(1) show ?thesis by blast
qed

text \<open>The functor 8 is queued while the functor 7 is called.\<close>

theorem functors_fifo_witness:
  "\<exists>s. sys_run (\<lambda>_. True) (\<lambda>h r n. if h = Handler 7 then [QueueInLoop 8] else [])
       [LoopStep, LoopStep, LoopStep, ExtPush 7, ExtPush 9, ExtWake, LoopEvents [(4, EPOLLIN)], LoopStep, LoopStep,
        LoopStep, LoopStep] (sys_init loop0) = Some s \<and>
     sy_called s = [7] \<and> pc_functors (sy_pc s) = [9] \<and> lp_pending (sy_loop s) = [8] \<and>
     sy_queued s = sy_called s @ pc_functors (sy_pc s) @ lp_pending (sy_loop s)"
proof -
  let ?body = "\<lambda>h r n. if h = Handler (7::nat) then [QueueInLoop 8] else []"
  let ?run = "[LoopStep, LoopStep, LoopStep, ExtPush 7, ExtPush 9, ExtWake, LoopEvents [(4, EPOLLIN)],
     LoopStep, LoopStep, LoopStep, LoopStep]"
  obtain s where s: "sys_run (\<lambda>_. True) ?body ?run (sys_init loop0) = Some s" "sy_called s = [7]"
      "pc_functors (sy_pc s) = [9]" "lp_pending (sy_loop s) = [8]"
    by (simp add: loop_eval)
  have "lp_pending loop0 = []" by (simp add: loop_eval)
  from functors_fifo [OF sys_run_reach [OF s(1) sys_refl] this] s show ?thesis by blast
qed

text \<open>The same \<open>stop\<close> after \<open>running_\<close> was stored: the loop leaves.\<close>

theorem stop_ends_loop_witness:
  "\<exists>s s1. sys_run (\<lambda>_. True) quiet [LoopStep, LoopStep, LoopStep, ExtStop1] (sys_init loop0) = Some s \<and>
     sys_step (\<lambda>_. True) quiet ExtStop2 s = Some s1 \<and> sy_pc s1 = Waiting \<and> \<not> lp_running (sy_loop s1) \<and>
     (lp_wake (sy_loop s1) \<or> 0 < sy_stop3 s1)"
proof -
  obtain s s1 where s: "sys_run (\<lambda>_. True) quiet [LoopStep, LoopStep, LoopStep, ExtStop1] (sys_init loop0) = Some s"
      "sy_pc s = Waiting" "sys_step (\<lambda>_. True) quiet ExtStop2 s = Some s1" "sy_pc s1 = Waiting"
    by (simp add: loop_eval)
  from stop_ends_loop [OF sys_run_reach [OF s(1) sys_refl] _ s(3) sys_refl] s show ?thesis by auto
qed

subsection \<open>Runs of the registry\<close>

fun run_lacts :: "(int \<Rightarrow> bool) \<Rightarrow> 'c lact list \<Rightarrow> 'c loop \<Rightarrow> 'c loop" where
  "run_lacts ctl [] s = s"
| "run_lacts ctl (a # as) s = run_lacts ctl as (run_lact ctl a s)"

text \<open>Every \<open>AddFd\<close> of the run is for a descriptor that is not registered then.\<close>

fun adds_new :: "(int \<Rightarrow> bool) \<Rightarrow> 'c lact list \<Rightarrow> 'c loop \<Rightarrow> bool" where
  "adds_new ctl [] s = True"
| "adds_new ctl (a # as) s =
     ((case a of AddFd fd ev c \<Rightarrow> lp_ctxs s fd = None | _ \<Rightarrow> True) \<and> adds_new ctl as (run_lact ctl a s))"

lemma registry_act:
  assumes "registry_ok s" and "case a of AddFd fd ev c \<Rightarrow> lp_ctxs s fd = None | _ \<Rightarrow> True"
  shows "registry_ok (run_lact ctl a s)"
proof (cases a)
  case (AddFd fd ev c)
  with assms show ?thesis by (simp add: reactor.add_sound interest_def)
next
  case (QueueInLoop f)
  with assms(1) show ?thesis by (simp add: registry_ok_def loop_ops_defs)
next
  case Stop
  with assms(1) show ?thesis by (simp add: registry_ok_def loop_ops_defs)
qed (use assms(1) in \<open>simp_all add: reactor.upd_sound reactor.del_sound\<close>)

lemma registry_acts: "registry_ok s \<Longrightarrow> adds_new ctl as s \<Longrightarrow> registry_ok (run_lacts ctl as s)"
  by (induction as arbitrary: s) (auto intro: registry_act)

text \<open>C29: The registry and the kernel agree: from the constructor on, after any calls that add only
  descriptors that are not registered, epoll watches exactly the descriptors with a context, each with the
  mask stored in its context. Adding a registered one again breaks that: the call fails, the descriptor's
  context is gone, and epoll goes on watching it, so its events are reported but never handled.\<close>

theorem registry_matches_epoll:
  assumes "adds_new ctl as (EventLoop ctl epoll_fd w t)" and "t \<noteq> w"
  defines "s \<equiv> run_lacts ctl as (EventLoop ctl epoll_fd w t)"
  shows "(\<forall>fd. lp_epoll s fd = map_option fc_events (lp_ctxs s fd)) \<and>
         (\<forall>fd ctx ev c. lp_ctxs s fd = Some ctx \<and> 0 \<le> lp_epoll_fd s \<longrightarrow>
            (let (r, s') = addFd ctl fd ev (Handler c) s
             in \<not> r \<and> lp_ctxs s' fd = None \<and> lp_epoll s' fd = Some (fc_events ctx)))"
proof -
  have "registry_ok (EventLoop ctl epoll_fd w t :: 'a loop)"
    using assms(2) by (simp add: EventLoop_def addFd_def registry_ok_def Let_def)
  then have ok: "registry_ok s" using assms(1) unfolding s_def by (rule registry_acts)
  then show ?thesis by (auto simp: registry_ok_def addFd_def Let_def)
qed

theorem registry_matches_epoll_witness:
  "lp_epoll (run_lacts (\<lambda>_. True) [AddFd 9 EPOLLIN (1::nat), UpdateFd 9 EPOLLOUT] loop0) 9 = Some EPOLLOUT \<and>
   (\<forall>fd. lp_epoll (run_lacts (\<lambda>_. True) [AddFd 9 EPOLLIN (1::nat), UpdateFd 9 EPOLLOUT] loop0) fd =
     map_option fc_events (lp_ctxs (run_lacts (\<lambda>_. True) [AddFd 9 EPOLLIN 1, UpdateFd 9 EPOLLOUT] loop0) fd))"
proof -
  have "adds_new (\<lambda>_. True) [AddFd 9 EPOLLIN (1::nat), UpdateFd 9 EPOLLOUT] (EventLoop (\<lambda>_. True) 3 4 5)"
    by (simp add: EventLoop_def addFd_def Let_def)
  from registry_matches_epoll [OF this]
  have "\<forall>fd. lp_epoll (run_lacts (\<lambda>_. True) [AddFd 9 EPOLLIN (1::nat), UpdateFd 9 EPOLLOUT] loop0) fd =
     map_option fc_events (lp_ctxs (run_lacts (\<lambda>_. True) [AddFd 9 EPOLLIN 1, UpdateFd 9 EPOLLOUT] loop0) fd)"
    unfolding loop0_def by simp
  moreover have "lp_epoll (run_lacts (\<lambda>_. True) [AddFd 9 EPOLLIN (1::nat), UpdateFd 9 EPOLLOUT] loop0) 9 = Some EPOLLOUT"
    by (simp add: loop_eval updateFd_def)
  ultimately show ?thesis by blast
qed

end
