(* ===== verification/TcpServer.thy ===== *)
theory TcpServer
  imports EventLoop "HOL-Library.AList"
begin

unbundle bit_operations_syntax

text \<open>
  The line-oriented control server of \<open>core/reactor/TcpServer.h\<close>, on top of the reactor: client
  buffers, connection ids, half-close, framing and back pressure. The results of the socket calls are
  parameters, indexed by the number of socket calls so far. The message callback is a parameter that
  gives, for each message, the list of the server's own operations it calls; the descriptors that are
  open are tracked because \<open>accept4\<close> returns one that is not.
\<close>

section \<open>The sockets\<close>

datatype accept_result = Accepted int | AcceptIntr | AcceptErr
datatype recv_result = Received string | RecvEof | RecvIntr | RecvAgain | RecvErr
datatype send_result = Sent nat | SendRetry | SendErr

text \<open>
  \<open>accept4\<close> sees the set of open descriptors, \<open>send\<close> the number of bytes it is given; \<open>SendRetry\<close>
  stands for \<open>EAGAIN\<close>, \<open>EWOULDBLOCK\<close> and \<open>EINTR\<close>, \<open>RecvAgain\<close> for the first two. \<open>net_ctl\<close> says
  which descriptors epoll can watch.
\<close>

record net =
  net_accept :: "nat \<Rightarrow> int set \<Rightarrow> accept_result"
  net_recv :: "nat \<Rightarrow> recv_result"
  net_send :: "nat \<Rightarrow> nat \<Rightarrow> send_result"
  net_ctl :: "int \<Rightarrow> bool"

definition net_ok :: "net \<Rightarrow> bool" where
  "net_ok net \<longleftrightarrow>
     (\<forall>n U fd. net_accept net n U = Accepted fd \<longrightarrow> 0 \<le> fd \<and> fd \<notin> U) \<and>
     (\<forall>n d. net_recv net n = Received d \<longrightarrow> d \<noteq> [] \<and> length d \<le> 4096) \<and>
     (\<forall>n len k. net_send net n len = Sent k \<longrightarrow> k \<le> len)"

section \<open>State\<close>

record client =
  cl_id :: nat
  cl_in :: string
  cl_out :: string
  cl_eof :: bool
  cl_reading :: bool
  cl_pending :: nat

datatype tcp_handler = OnListen | OnClient int

text \<open>What an observer of the connections sees, by connection id.\<close>

datatype sv_event =
    Opened nat
  | Recvd nat string
  | Message nat string
  | Queued nat string
  | Wrote nat string
  | Closed nat

text \<open>\<open>sv_threw\<close> records a \<open>std::out_of_range\<close> of \<open>clients_.at\<close>.\<close>

record server =
  sv_loop :: "tcp_handler loop"
  sv_listen :: int
  sv_next :: nat
  sv_clients :: "(int \<times> client) list"
  sv_ids :: "nat \<rightharpoonup> int"
  sv_message :: bool
  sv_open :: "int set"
  sv_calls :: nat
  sv_threw :: bool
  sv_log :: "sv_event list"

definition TcpServer :: "tcp_handler loop \<Rightarrow> int set \<Rightarrow> server" where
  "TcpServer loop open_fds =
     \<lparr>sv_loop = loop, sv_listen = -1, sv_next = 1, sv_clients = [], sv_ids = Map.empty,
      sv_message = False, sv_open = open_fds, sv_calls = 0, sv_threw = False, sv_log = []\<rparr>"

definition setMessageCallback :: "server \<Rightarrow> server" where
  "setMessageCallback s = s\<lparr>sv_message := True\<rparr>"

abbreviation find_client :: "int \<Rightarrow> server \<Rightarrow> client option" where
  "find_client fd s \<equiv> map_of (sv_clients s) fd"

definition set_client :: "int \<Rightarrow> client \<Rightarrow> server \<Rightarrow> server" where
  "set_client fd c s = s\<lparr>sv_clients := AList.update fd c (sv_clients s)\<rparr>"

definition sv_emit :: "sv_event \<Rightarrow> server \<Rightarrow> server" where
  "sv_emit ev s = s\<lparr>sv_log := sv_log s @ [ev]\<rparr>"

definition connectionCount :: "server \<Rightarrow> nat" where
  "connectionCount s = length (sv_clients s)"

section \<open>Operations\<close>

definition closeClient :: "int \<Rightarrow> server \<Rightarrow> server" where
  "closeClient fd s =
     (case find_client fd s of
        None \<Rightarrow> s
      | Some c \<Rightarrow>
          sv_emit (Closed (cl_id c))
            (s\<lparr>sv_ids := (sv_ids s)(cl_id c := None), sv_loop := removeFd fd (sv_loop s),
               sv_open := sv_open s - {fd}, sv_clients := AList.delete fd (sv_clients s)\<rparr>))"

definition flush_mask :: "client \<Rightarrow> u32" where
  "flush_mask c =
     (if cl_eof c then 0 else EPOLLIN OR EPOLLRDHUP) OR (if cl_out c = [] then 0 else EPOLLOUT)"

text \<open>The part of \<open>flush\<close> after the send.\<close>

definition flush_end :: "int \<Rightarrow> client \<Rightarrow> server \<Rightarrow> server" where
  "flush_end fd c s =
     (if cl_eof c \<and> \<not> cl_reading c \<and> cl_pending c = 0 \<and> cl_out c = [] then closeClient fd s
      else s\<lparr>sv_loop := snd (updateFd fd (flush_mask c) (sv_loop s))\<rparr>)"

definition flush :: "net \<Rightarrow> int \<Rightarrow> server \<Rightarrow> server" where
  "flush net fd s =
     (case find_client fd s of
        None \<Rightarrow> s
      | Some c \<Rightarrow>
          if cl_out c = [] then flush_end fd c s
          else
            let s1 = s\<lparr>sv_calls := sv_calls s + 1\<rparr>
            in case net_send net (sv_calls s) (length (cl_out c)) of
                 Sent n \<Rightarrow>
                   let c1 = c\<lparr>cl_out := drop n (cl_out c)\<rparr>
                   in flush_end fd c1
                        (sv_emit (Wrote (cl_id c) (take n (cl_out c))) (set_client fd c1 s1))
               | SendRetry \<Rightarrow> flush_end fd c s1
               | SendErr \<Rightarrow> closeClient fd s1)"

definition retain :: "nat \<Rightarrow> server \<Rightarrow> server" where
  "retain cid s =
     (case sv_ids s cid of
        None \<Rightarrow> s
      | Some fd \<Rightarrow>
          (case find_client fd s of
             None \<Rightarrow> s\<lparr>sv_threw := True\<rparr>
           | Some c \<Rightarrow> set_client fd (c\<lparr>cl_pending := cl_pending c + 1\<rparr>) s))"

definition release :: "net \<Rightarrow> nat \<Rightarrow> server \<Rightarrow> server" where
  "release net cid s =
     (case sv_ids s cid of
        None \<Rightarrow> s
      | Some fd \<Rightarrow>
          (case find_client fd s of
             None \<Rightarrow> s\<lparr>sv_threw := True\<rparr>
           | Some c \<Rightarrow>
               flush net fd (if cl_pending c \<noteq> 0 then set_client fd (c\<lparr>cl_pending := cl_pending c - 1\<rparr>) s
                             else s)))"

definition sendResponse :: "net \<Rightarrow> nat \<Rightarrow> string \<Rightarrow> server \<Rightarrow> bool \<times> server" where
  "sendResponse net cid data s =
     (case sv_ids s cid of
        None \<Rightarrow> (False, s)
      | Some fd \<Rightarrow>
          (case find_client fd s of
             None \<Rightarrow> (False, s\<lparr>sv_threw := True\<rparr>)
           | Some c \<Rightarrow>
               if 65536 < length (cl_out c) + length data then (False, closeClient fd s)
               else
                 let s1 = sv_emit (Queued cid data) (set_client fd (c\<lparr>cl_out := cl_out c @ data\<rparr>) s);
                     s2 = flush net fd s1
                 in (sv_ids s2 cid \<noteq> None, s2)))"

text \<open>What the message callback does to the server.\<close>

datatype sv_act = Respond nat string | Retain nat | Release nat

fun run_sv_act :: "net \<Rightarrow> sv_act \<Rightarrow> server \<Rightarrow> server" where
  "run_sv_act net (Respond cid data) s = snd (sendResponse net cid data s)"
| "run_sv_act net (Retain cid) s = retain cid s"
| "run_sv_act net (Release cid) s = release net cid s"

definition run_message :: "net \<Rightarrow> sv_act list \<Rightarrow> server \<Rightarrow> server" where
  "run_message net acts s = fold (run_sv_act net) acts s"

text \<open>
  The receive loop of \<open>readClient\<close>, at most \<open>n\<close> more calls; the flag is false when the function
  returns from the middle of it, the connection being closed.
\<close>

fun recv_loop :: "net \<Rightarrow> nat \<Rightarrow> int \<Rightarrow> client \<Rightarrow> server \<Rightarrow> bool \<times> server" where
  "recv_loop net 0 fd c s = (True, s)"
| "recv_loop net (Suc n) fd c s =
     (let s1 = s\<lparr>sv_calls := sv_calls s + 1\<rparr>
      in case net_recv net (sv_calls s) of
           Received d \<Rightarrow>
             let c1 = c\<lparr>cl_in := cl_in c @ d\<rparr>;
                 s2 = sv_emit (Recvd (cl_id c) d) (set_client fd c1 s1)
             in if 65536 < length (cl_in c1) then (False, closeClient fd s2)
                else recv_loop net n fd c1 s2
         | RecvEof \<Rightarrow> (True, set_client fd (c\<lparr>cl_eof := True\<rparr>) s1)
         | RecvIntr \<Rightarrow> recv_loop net n fd c s1
         | RecvAgain \<Rightarrow> (True, s1)
         | RecvErr \<Rightarrow> (False, closeClient fd s1))"

text \<open>
  The operations that the callback can reach close connections or leave the input buffers alone; the
  line loop ends because of that.
\<close>

definition in_kept :: "server \<Rightarrow> server \<Rightarrow> bool" where
  "in_kept s s' \<longleftrightarrow> (\<forall>fd c'. find_client fd s' = Some c' \<longrightarrow>
     (\<exists>c. find_client fd s = Some c \<and> cl_in c' = cl_in c \<and> cl_id c' = cl_id c \<and> cl_eof c' = cl_eof c \<and>
          cl_reading c' = cl_reading c))"

lemma in_kept_refl [simp]: "in_kept s s"
  by (simp add: in_kept_def)

lemma in_kept_trans: "in_kept s s1 \<Longrightarrow> in_kept s1 s2 \<Longrightarrow> in_kept s s2"
  by (fastforce simp: in_kept_def)

lemma find_set [simp]:
  "find_client fd' (set_client fd c s) = (if fd' = fd then Some c else find_client fd' s)"
  by (simp add: set_client_def update_conv')

lemma find_set_length: "find_client fd s = Some c \<Longrightarrow> length (AList.update fd d (sv_clients s)) = length (sv_clients s)"
proof -
  have "map_of xs fd = Some c \<Longrightarrow> length (AList.update fd d xs) = length xs" for xs :: "(int \<times> client) list"
    by (induction xs) auto
  then show "find_client fd s = Some c \<Longrightarrow> ?thesis" .
qed

lemma find_close:
  "find_client fd' (closeClient fd s) = (if fd' = fd then None else find_client fd' s)"
  by (auto simp: closeClient_def sv_emit_def delete_conv' split: option.splits)

lemma find_fields [simp]:
  "find_client fd (s\<lparr>sv_calls := n\<rparr>) = find_client fd s"
  "find_client fd (s\<lparr>sv_threw := b\<rparr>) = find_client fd s"
  "find_client fd (s\<lparr>sv_loop := l\<rparr>) = find_client fd s"
  "find_client fd (s\<lparr>sv_log := g\<rparr>) = find_client fd s"
  "find_client fd (sv_emit ev s) = find_client fd s"
  by (simp_all add: sv_emit_def)

lemma in_kept_close: "in_kept s (closeClient fd s)"
  by (simp add: in_kept_def find_close)

lemma in_kept_set:
  "in_kept s s1 \<Longrightarrow> find_client fd s1 = Some c \<Longrightarrow> cl_in c' = cl_in c \<Longrightarrow> cl_id c' = cl_id c \<Longrightarrow>
     cl_eof c' = cl_eof c \<Longrightarrow> cl_reading c' = cl_reading c \<Longrightarrow> in_kept s (set_client fd c' s1)"
  by (fastforce simp: in_kept_def)

lemma in_kept_fields [simp]:
  "in_kept s (s1\<lparr>sv_calls := n\<rparr>) = in_kept s s1"
  "in_kept s (s1\<lparr>sv_threw := b\<rparr>) = in_kept s s1"
  "in_kept s (s1\<lparr>sv_loop := l\<rparr>) = in_kept s s1"
  "in_kept s (sv_emit ev s1) = in_kept s s1"
  by (simp_all add: in_kept_def)

lemma in_kept_flush_end: "in_kept s1 s \<Longrightarrow> in_kept s1 (flush_end fd c s)"
  by (simp add: flush_end_def in_kept_trans [OF _ in_kept_close])

lemma in_kept_flush: "in_kept s (flush net fd s)"
  by (auto simp: flush_def Let_def
      intro!: in_kept_flush_end in_kept_set in_kept_trans [OF _ in_kept_close] split: option.splits send_result.splits)

lemma in_kept_retain: "in_kept s (retain cid s)"
  by (auto simp: retain_def in_kept_set split: option.splits)

lemma in_kept_release: "in_kept s (release net cid s)"
  by (auto simp: release_def in_kept_set
      intro!: in_kept_trans [OF _ in_kept_flush] split: option.splits)

lemma in_kept_send: "in_kept s (snd (sendResponse net cid d s))"
  by (auto simp: sendResponse_def Let_def in_kept_set in_kept_close
      intro!: in_kept_trans [OF _ in_kept_flush] split: option.splits)

lemma in_kept_act: "in_kept s (run_sv_act net a s)"
  by (cases a) (simp_all add: in_kept_send in_kept_retain in_kept_release)

lemma in_kept_message: "in_kept s (run_message net as s)"
proof -
  have "in_kept s (fold (run_sv_act net) as s)"
    by (induction as arbitrary: s) (auto intro: in_kept_trans in_kept_act)
  then show ?thesis by (simp add: run_message_def)
qed

text \<open>The position of the first newline, as \<open>std::string::find\<close> returns it.\<close>

fun find_nl :: "string \<Rightarrow> nat option" where
  "find_nl [] = None"
| "find_nl (c # cs) = (if c = CHR 0x0A then Some 0 else map_option Suc (find_nl cs))"

lemma find_nl_less: "find_nl xs = Some p \<Longrightarrow> p < length xs"
  by (induction xs arbitrary: p) (auto split: if_splits)

text \<open>
  The line loop of \<open>readClient\<close>. \<open>msg id line n\<close> is what the callback does with the message, \<open>n\<close> being
  the number of socket calls so far.
\<close>

function line_loop ::
  "net \<Rightarrow> (nat \<Rightarrow> string \<Rightarrow> nat \<Rightarrow> sv_act list) \<Rightarrow> int \<Rightarrow> server \<Rightarrow> bool \<times> server" where
  "line_loop net msg fd s =
     (case find_client fd s of
        None \<Rightarrow> (True, s)
      | Some c \<Rightarrow>
          (case find_nl (cl_in c) of
             None \<Rightarrow> if 8192 < length (cl_in c) then (False, closeClient fd s) else (True, s)
           | Some pos \<Rightarrow>
               if 8192 < pos then (False, closeClient fd s)
               else
                 let line = take pos (cl_in c);
                     s1 = set_client fd (c\<lparr>cl_in := drop (pos + 1) (cl_in c)\<rparr>) s
                 in line_loop net msg fd
                      (if sv_message s1 \<and> line \<noteq> []
                       then run_message net (msg (cl_id c) line (sv_calls s1))
                              (sv_emit (Message (cl_id c) line) s1)
                       else s1)))"
  by pat_completeness auto
termination
proof (relation "measure (\<lambda>(net, msg, fd, s). case find_client fd s of None \<Rightarrow> 0 | Some c \<Rightarrow> length (cl_in c) + 1)")
  fix net msg fd s c pos line s1
  assume c: "find_client fd s = Some c" and pos: "find_nl (cl_in c) = Some pos"
    and s1: "s1 = set_client fd (c\<lparr>cl_in := drop (pos + 1) (cl_in c)\<rparr>) s"
  let ?s2 = "if sv_message s1 \<and> line \<noteq> []
    then run_message net (msg (cl_id c) line (sv_calls s1)) (sv_emit (Message (cl_id c) line) s1) else s1"
  have kept: "in_kept s1 ?s2"
    using in_kept_message [of "sv_emit (Message (cl_id c) line) s1"] by (simp add: in_kept_def)
  have pos_less: "pos < length (cl_in c)" by (rule find_nl_less [OF pos])
  show "((net, msg, fd, ?s2), net, msg, fd, s)
      \<in> measure (\<lambda>(net, msg, fd, s). case find_client fd s of None \<Rightarrow> 0 | Some c \<Rightarrow> length (cl_in c) + 1)"
  proof (cases "find_client fd ?s2")
    case None
    with c show ?thesis by simp
  next
    case (Some c2)
    with kept s1 have "cl_in c2 = drop (pos + 1) (cl_in c)" by (fastforce simp: in_kept_def)
    with Some c pos_less show ?thesis by simp
  qed
qed simp

declare line_loop.simps [simp del]

definition readClient ::
  "net \<Rightarrow> (nat \<Rightarrow> string \<Rightarrow> nat \<Rightarrow> sv_act list) \<Rightarrow> int \<Rightarrow> server \<Rightarrow> server" where
  "readClient net msg fd s =
     (case find_client fd s of
        None \<Rightarrow> s
      | Some c \<Rightarrow>
          let c0 = c\<lparr>cl_reading := True\<rparr>;
              (going, s1) = recv_loop net 4 fd c0 (set_client fd c0 s)
          in if \<not> going then s1
             else
               let (going, s2) = line_loop net msg fd s1
               in if \<not> going then s2
                  else flush net fd
                         (case find_client fd s2 of
                            None \<Rightarrow> s2
                          | Some c2 \<Rightarrow> set_client fd (c2\<lparr>cl_reading := False\<rparr>) s2))"

text \<open>The accept loop, \<open>n\<close> turns.\<close>

fun accept_loop :: "net \<Rightarrow> nat \<Rightarrow> server \<Rightarrow> server" where
  "accept_loop net 0 s = s"
| "accept_loop net (Suc n) s =
     (let s1 = s\<lparr>sv_calls := sv_calls s + 1\<rparr>
      in case net_accept net (sv_calls s) (sv_open s) of
           AcceptIntr \<Rightarrow> accept_loop net n s1
         | AcceptErr \<Rightarrow> s1
         | Accepted fd \<Rightarrow>
             if 16 \<le> length (sv_clients s1) then accept_loop net n s1
             else
               let cid = sv_next s1;
                   c = \<lparr>cl_id = cid, cl_in = [], cl_out = [], cl_eof = False, cl_reading = False,
                        cl_pending = 0\<rparr>;
                   s2 = sv_emit (Opened cid)
                          (s1\<lparr>sv_next := cid + 1, sv_open := insert fd (sv_open s1),
                              sv_clients := (if find_client fd s1 = None then (fd, c) # sv_clients s1
                                             else sv_clients s1),
                              sv_ids := (sv_ids s1)(cid \<mapsto> fd)\<rparr>);
                   (added, loop) = addFd (net_ctl net) fd (EPOLLIN OR EPOLLRDHUP)
                                     (Handler (OnClient fd)) (sv_loop s2);
                   s3 = s2\<lparr>sv_loop := loop\<rparr>
               in accept_loop net n (if added then s3 else closeClient fd s3))"

definition acceptClients :: "net \<Rightarrow> server \<Rightarrow> server" where
  "acceptClients net s = accept_loop net 32 s"

text \<open>The lambda that is registered for a client.\<close>

definition client_event ::
  "net \<Rightarrow> (nat \<Rightarrow> string \<Rightarrow> nat \<Rightarrow> sv_act list) \<Rightarrow> int \<Rightarrow> u32 \<Rightarrow> server \<Rightarrow> server" where
  "client_event net msg fd events s =
     (if events AND EPOLLERR \<noteq> 0 then closeClient fd s
      else
        let s1 = (if events AND (EPOLLIN OR EPOLLRDHUP OR EPOLLHUP) \<noteq> 0 then readClient net msg fd s else s)
        in if events AND EPOLLOUT \<noteq> 0 then flush net fd s1 else s1)"

text \<open>
  \<open>sock\<close> is the new socket or negative, \<open>bound\<close> whether \<open>bind\<close> and \<open>listen\<close> succeed.
\<close>

definition start :: "net \<Rightarrow> int \<Rightarrow> bool \<Rightarrow> server \<Rightarrow> bool \<times> server" where
  "start net sock bound s =
     (if sock < 0 then (False, s\<lparr>sv_listen := sock\<rparr>)
      else if \<not> bound then (False, s\<lparr>sv_listen := -1\<rparr>)
      else
        let (added, loop) = addFd (net_ctl net) sock EPOLLIN (Handler OnListen) (sv_loop s)
        in (added, s\<lparr>sv_listen := sock, sv_open := insert sock (sv_open s), sv_loop := loop\<rparr>))"

function close_all :: "server \<Rightarrow> server" where
  "close_all s =
     (if sv_clients s = [] then s else close_all (closeClient (fst (hd (sv_clients s))) s))"
  by pat_completeness auto
termination
proof (relation "measure (\<lambda>s. length (sv_clients s))")
  fix s :: server
  assume "sv_clients s \<noteq> []"
  then obtain fd c cs where cs: "sv_clients s = (fd, c) # cs" by (cases "sv_clients s") auto
  have "length (AList.delete fd cs) \<le> length cs" by (simp add: AList.delete_eq)
  with cs show "(closeClient (fst (hd (sv_clients s))) s, s) \<in> measure (\<lambda>s. length (sv_clients s))"
    by (simp add: closeClient_def sv_emit_def)
qed simp

declare close_all.simps [simp del]

definition stop :: "server \<Rightarrow> server" where
  "stop s =
     (let s1 = close_all s
      in if 0 \<le> sv_listen s1
         then s1\<lparr>sv_loop := removeFd (sv_listen s1) (sv_loop s1),
                 sv_open := sv_open s1 - {sv_listen s1}, sv_listen := -1\<rparr>
         else s1)"

section \<open>The invariant\<close>

subsection \<open>What the log says of a connection\<close>

fun ev_id :: "sv_event \<Rightarrow> nat" where
  "ev_id (Opened i) = i"
| "ev_id (Recvd i d) = i"
| "ev_id (Message i l) = i"
| "ev_id (Queued i d) = i"
| "ev_id (Wrote i d) = i"
| "ev_id (Closed i) = i"

definition received :: "nat \<Rightarrow> sv_event list \<Rightarrow> string" where
  "received i log = concat (map (\<lambda>ev. case ev of Recvd j d \<Rightarrow> if j = i then d else [] | _ \<Rightarrow> []) log)"

definition messages :: "nat \<Rightarrow> sv_event list \<Rightarrow> string list" where
  "messages i log = concat (map (\<lambda>ev. case ev of Message j l \<Rightarrow> if j = i then [l] else [] | _ \<Rightarrow> []) log)"

definition queued :: "nat \<Rightarrow> sv_event list \<Rightarrow> string" where
  "queued i log = concat (map (\<lambda>ev. case ev of Queued j d \<Rightarrow> if j = i then d else [] | _ \<Rightarrow> []) log)"

definition written :: "nat \<Rightarrow> sv_event list \<Rightarrow> string" where
  "written i log = concat (map (\<lambda>ev. case ev of Wrote j d \<Rightarrow> if j = i then d else [] | _ \<Rightarrow> []) log)"

lemmas log_defs = received_def messages_def queued_def written_def

text \<open>
  The reference for framing: the complete lines of a stream of bytes, and what follows the last
  newline.
\<close>

fun split_lines :: "string \<Rightarrow> string list \<times> string" where
  "split_lines [] = ([], [])"
| "split_lines (c # cs) =
     (let (ls, rest) = split_lines cs
      in if c = CHR 0x0A then ([] # ls, rest)
         else case ls of [] \<Rightarrow> ([], c # rest) | l # ls' \<Rightarrow> ((c # l) # ls', rest))"

lemma split_no_nl: "find_nl xs = None \<Longrightarrow> split_lines xs = ([], xs)"
  by (induction xs) (auto split: if_splits)

lemma split_first:
  "find_nl xs = Some p \<Longrightarrow>
     split_lines xs = (take p xs # fst (split_lines (drop (Suc p) xs)), snd (split_lines (drop (Suc p) xs)))"
  by (induction xs arbitrary: p) (auto split: if_splits simp: split_beta)

text \<open>Framing a longer stream: the rest of the first part is completed by the second one.\<close>

lemma split_append:
  "split_lines (xs @ ys) =
     (fst (split_lines xs) @ fst (split_lines (snd (split_lines xs) @ ys)),
      snd (split_lines (snd (split_lines xs) @ ys)))"
  by (induction xs) (auto simp: split_beta split: list.splits)

text \<open>
  \<open>framed r ms b\<close>: of the received bytes \<open>r\<close>, a prefix of complete lines was consumed, whose non-empty
  lines are the messages \<open>ms\<close>, and \<open>b\<close> is buffered.
\<close>

definition framed :: "string \<Rightarrow> string list \<Rightarrow> string \<Rightarrow> bool" where
  "framed r ms b \<longleftrightarrow> (\<exists>used. r = used @ b \<and> snd (split_lines used) = [] \<and>
     ms = filter (\<lambda>l. l \<noteq> []) (fst (split_lines used)))"

lemma framed_recv: "framed r ms b \<Longrightarrow> framed (r @ d) ms (b @ d)"
  by (auto simp: framed_def)

lemma framed_line:
  assumes "framed r ms b" and "find_nl b = Some p"
  shows "framed r (if take p b = [] then ms else ms @ [take p b]) (drop (Suc p) b)"
proof -
  from assms(1) obtain used where used: "r = used @ b" "snd (split_lines used) = []"
      "ms = filter (\<lambda>l. l \<noteq> []) (fst (split_lines used))"
    by (auto simp: framed_def)
  have p: "p < length b" by (rule find_nl_less [OF assms(2)])
  have nl: "find_nl (take (Suc p) b) = Some p" using assms(2)
    by (induction b arbitrary: p) (auto split: if_splits)
  have first: "split_lines (take (Suc p) b) = ([take p b], [])"
    using split_first [OF nl] p by (simp add: take_drop min_def)
  have "r = (used @ take (Suc p) b) @ drop (Suc p) b" using used(1) by simp
  moreover have "split_lines (used @ take (Suc p) b) = (fst (split_lines used) @ [take p b], [])"
    using split_append [of used "take (Suc p) b"] used(2) first by simp
  ultimately show ?thesis using used(3)
    unfolding framed_def by (intro exI [of _ "used @ take (Suc p) b"]) auto
qed

definition client_log :: "bool \<Rightarrow> sv_event list \<Rightarrow> client \<Rightarrow> bool" where
  "client_log m log c \<longleftrightarrow> written (cl_id c) log @ cl_out c = queued (cl_id c) log \<and>
     (m \<longrightarrow> framed (received (cl_id c) log) (messages (cl_id c) log) (cl_in c))"

lemma other_id_log:
  assumes "\<forall>ev \<in> set evs. ev_id ev = i" and "j \<noteq> i"
  shows "received j (log @ evs) = received j log" and "messages j (log @ evs) = messages j log"
    and "queued j (log @ evs) = queued j log" and "written j (log @ evs) = written j log"
proof -
  have none: "concat (map f evs) = []" if "\<forall>ev. ev_id ev = i \<longrightarrow> f ev = []" for f :: "sv_event \<Rightarrow> 'a list"
    using assms(1) that by (induction evs) auto
  show "received j (log @ evs) = received j log" "messages j (log @ evs) = messages j log"
      "queued j (log @ evs) = queued j log" "written j (log @ evs) = written j log"
    using assms(2) by (auto simp: log_defs simp del: concat_eq_Nil_conv intro!: none split: sv_event.splits)
qed

lemma fresh_id_log:
  assumes "\<forall>ev \<in> set log. ev_id ev < i"
  shows "received i log = []" and "messages i log = []" and "queued i log = []" and "written i log = []"
  using assms by (induction log) (auto simp: log_defs split: sv_event.splits)

subsection \<open>Clients and ids\<close>

text \<open>
  A client at rest: nothing is being read, no complete line is buffered, it is not a finished
  half-closed one, and epoll watches it for exactly what its state asks for.
\<close>

definition at_rest :: "u32 \<Rightarrow> client \<Rightarrow> bool" where
  "at_rest m c \<longleftrightarrow> m = flush_mask c \<and> \<not> cl_reading c \<and> find_nl (cl_in c) = None \<and>
     length (cl_in c) \<le> 8192 \<and> \<not> (cl_eof c \<and> cl_pending c = 0 \<and> cl_out c = [])"

text \<open>Descriptors in \<open>X\<close> are in the middle of an operation.\<close>

definition client_ok :: "int set \<Rightarrow> server \<Rightarrow> int \<Rightarrow> client \<Rightarrow> bool" where
  "client_ok X s fd c \<longleftrightarrow> sv_ids s (cl_id c) = Some fd \<and> cl_id c < sv_next s \<and>
     length (cl_out c) \<le> 65536 \<and> fd \<in> sv_open s \<and>
     (\<exists>m. interest (sv_loop s) fd = Some (m, Handler (OnClient fd)) \<and> (fd \<notin> X \<longrightarrow> at_rest m c)) \<and>
     client_log (sv_message s) (sv_log s) c"

definition sv_inv :: "int set \<Rightarrow> server \<Rightarrow> bool" where
  "sv_inv X s \<longleftrightarrow> \<not> sv_threw s \<and> registry_ok (sv_loop s) \<and> distinct (map fst (sv_clients s)) \<and>
     length (sv_clients s) \<le> 16 \<and>
     (\<forall>fd c. find_client fd s = Some c \<longrightarrow> client_ok X s fd c) \<and>
     (\<forall>cid fd. sv_ids s cid = Some fd \<longrightarrow> (\<exists>c. find_client fd s = Some c \<and> cl_id c = cid)) \<and>
     (\<forall>fd. interest (sv_loop s) fd \<noteq> None \<longrightarrow> fd \<in> sv_open s) \<and>
     (\<forall>ev \<in> set (sv_log s). ev_id ev < sv_next s) \<and>
     (0 \<le> sv_listen s \<longrightarrow> sv_listen s \<in> sv_open s \<and> find_client (sv_listen s) s = None)"

lemma sv_inv_calls [simp]: "sv_inv X (s\<lparr>sv_calls := n\<rparr>) = sv_inv X s"
  by (simp add: sv_inv_def client_ok_def)

lemma sv_inv_client: "sv_inv X s \<Longrightarrow> find_client fd s = Some c \<Longrightarrow> client_ok X s fd c"
  by (simp add: sv_inv_def)

lemma sv_inv_id: "sv_inv X s \<Longrightarrow> sv_ids s cid = Some fd \<Longrightarrow> \<exists>c. find_client fd s = Some c \<and> cl_id c = cid"
  unfolding sv_inv_def by blast

lemma sv_inv_mono: "sv_inv X s \<Longrightarrow> X \<subseteq> Y \<Longrightarrow> sv_inv Y s"
  by (fastforce simp: sv_inv_def client_ok_def)

lemma sv_inv_drop: "sv_inv (insert fd X) s \<Longrightarrow> find_client fd s = None \<Longrightarrow> sv_inv X s"
  by (fastforce simp: sv_inv_def client_ok_def)

lemma same_id_same_fd:
  "sv_inv X s \<Longrightarrow> find_client fd s = Some c \<Longrightarrow> find_client fd' s = Some c' \<Longrightarrow> cl_id c' = cl_id c \<Longrightarrow> fd' = fd"
  using sv_inv_client [of X s fd c] sv_inv_client [of X s fd' c'] by (simp add: client_ok_def)

text \<open>
  Changing one client, with events of that client only: what remains to be shown is that the changed
  client is as it should be.
\<close>

lemma sv_inv_upd:
  assumes inv: "sv_inv X s" and c: "find_client fd s = Some c" and id: "cl_id c' = cl_id c"
    and upd: "sv_clients s' = AList.update fd c' (sv_clients s)"
    and same: "sv_ids s' = sv_ids s" "sv_next s' = sv_next s" "sv_open s' = sv_open s"
      "sv_message s' = sv_message s" "sv_threw s' = sv_threw s" "sv_listen s' = sv_listen s"
    and loop: "registry_ok (sv_loop s')"
      "interest (sv_loop s') = (interest (sv_loop s))(fd := interest (sv_loop s') fd)"
    and log: "sv_log s' = sv_log s @ evs" "\<forall>ev \<in> set evs. ev_id ev = cl_id c"
    and ok: "client_ok Y s' fd c'" and Y: "X \<subseteq> insert fd Y"
  shows "sv_inv Y s'"
proof -
  have find: "find_client g s' = (if g = fd then Some c' else find_client g s)" for g
    by (simp add: upd update_conv')
  have okc: "client_ok X s fd c" by (rule sv_inv_client [OF inv c])
  have clients: "client_ok Y s' g d" if d: "find_client g s' = Some d" for g d
  proof (cases "g = fd")
    case True
    with d ok find show ?thesis by simp
  next
    case False
    with d find have d': "find_client g s = Some d" by simp
    then have "cl_id d \<noteq> cl_id c" using same_id_same_fd [OF inv c] False by blast
    note keep = other_id_log [OF log(2) this, of "sv_log s"]
    have "client_ok X s g d" by (rule sv_inv_client [OF inv d'])
    moreover have "interest (sv_loop s') g = interest (sv_loop s) g"
      using fun_cong [OF loop(2), of g] False by simp
    ultimately show ?thesis
      using Y False unfolding client_ok_def client_log_def log(1) keep same by auto
  qed
  have len: "length (sv_clients s') = length (sv_clients s)"
    using find_set_length [OF c] upd by simp
  have keys: "distinct (map fst (sv_clients s'))" using inv upd by (simp add: sv_inv_def distinct_update)
  have ids: "\<exists>c. find_client g s' = Some c \<and> cl_id c = cid" if g: "sv_ids s' cid = Some g" for cid g
  proof -
    obtain d where d: "find_client g s = Some d" "cl_id d = cid" using sv_inv_id [OF inv, of cid g] g same(1) by auto
    show ?thesis
    proof (cases "g = fd")
      case True
      with d c id find [of g] show ?thesis by simp
    next
      case False
      with d find [of g] show ?thesis by simp
    qed
  qed
  have "interest (sv_loop s') g \<noteq> None \<longrightarrow> g \<in> sv_open s'" for g
    using inv ok fun_cong [OF loop(2), of g] same(3)
    by (cases "g = fd") (auto simp: sv_inv_def client_ok_def)
  moreover have "\<forall>ev \<in> set (sv_log s'). ev_id ev < sv_next s'"
    using inv log okc same(2) by (auto simp: sv_inv_def client_ok_def)
  moreover have "0 \<le> sv_listen s' \<longrightarrow> sv_listen s' \<in> sv_open s' \<and> find_client (sv_listen s') s' = None"
    using inv same(3,6) find c by (auto simp: sv_inv_def)
  moreover have "\<not> sv_threw s'" "length (sv_clients s') \<le> 16" using inv same(5) len by (simp_all add: sv_inv_def)
  ultimately show ?thesis using loop(1) keys clients ids unfolding sv_inv_def by blast
qed

lemma sv_inv_close: "sv_inv X s \<Longrightarrow> sv_inv (X - {fd}) (closeClient fd s)"
proof (cases "find_client fd s")
  case None
  assume "sv_inv X s"
  then have "sv_inv (insert fd (X - {fd})) s" by (rule sv_inv_mono) auto
  from sv_inv_drop [OF this None] None show ?thesis by (simp add: closeClient_def)
next
  case (Some c)
  assume inv: "sv_inv X s"
  let ?s = "closeClient fd s"
  have okc: "client_ok X s fd c" by (rule sv_inv_client [OF inv Some])
  note fields = Some closeClient_def sv_emit_def
  have log: "sv_log ?s = sv_log s @ [Closed (cl_id c)]" by (simp add: fields)
  have sound: "registry_ok (sv_loop s)" using inv by (simp add: sv_inv_def)
  have watch: "interest (sv_loop ?s) = (interest (sv_loop s))(fd := None)"
    using sound by (simp add: fields reactor.del_watch)
  have clients: "client_ok (X - {fd}) ?s g d" if "find_client g ?s = Some d" for g d
  proof -
    have d: "find_client g s = Some d" "g \<noteq> fd" using that find_close by (auto split: if_splits)
    then have "cl_id d \<noteq> cl_id c" using same_id_same_fd [OF inv Some] by blast
    note keep = other_id_log [of "[Closed (cl_id c)]" "cl_id c" "cl_id d" "sv_log s", simplified, OF this]
    have "client_ok X s g d" by (rule sv_inv_client [OF inv d(1)])
    then show ?thesis using d(2) \<open>cl_id d \<noteq> cl_id c\<close>
      unfolding client_ok_def client_log_def log keep watch by (simp add: fields)
  qed
  have ids: "\<exists>d. find_client g ?s = Some d \<and> cl_id d = cid" if cid: "sv_ids ?s cid = Some g" for cid g
  proof -
    have "sv_ids s cid = Some g" "cid \<noteq> cl_id c" using cid by (auto simp: fields split: if_splits)
    with sv_inv_id [OF inv, of cid g] Some show ?thesis by (auto simp: find_close)
  qed
  have "sv_clients ?s = AList.delete fd (sv_clients s)" by (simp add: fields)
  moreover have "distinct (map fst (sv_clients s))" "length (sv_clients s) \<le> 16"
    using inv by (simp_all add: sv_inv_def)
  moreover have "length (AList.delete fd (sv_clients s)) \<le> length (sv_clients s)"
    by (simp add: AList.delete_eq)
  ultimately have "distinct (map fst (sv_clients ?s))" "length (sv_clients ?s) \<le> 16"
    by (simp_all add: distinct_delete)
  moreover have "registry_ok (sv_loop ?s)" using sound by (simp add: fields reactor.del_sound)
  moreover have "interest (sv_loop ?s) g \<noteq> None \<longrightarrow> g \<in> sv_open ?s" for g
    using inv unfolding watch by (auto simp: sv_inv_def fields)
  moreover have "\<forall>ev \<in> set (sv_log ?s). ev_id ev < sv_next ?s"
    using inv okc by (auto simp: sv_inv_def client_ok_def fields)
  moreover have "\<not> sv_threw ?s" using inv by (simp add: sv_inv_def fields)
  moreover have "0 \<le> sv_listen s \<longrightarrow> sv_listen s \<in> sv_open s \<and> find_client (sv_listen s) s = None"
    using inv unfolding sv_inv_def by blast
  then have "0 \<le> sv_listen ?s \<longrightarrow> sv_listen ?s \<in> sv_open ?s \<and> find_client (sv_listen ?s) ?s = None"
    using Some by (auto simp: find_close) (auto simp: closeClient_def sv_emit_def)
  ultimately show ?thesis using clients ids unfolding sv_inv_def by blast
qed

corollary sv_inv_closed: "sv_inv {fd} s \<Longrightarrow> sv_inv {} (closeClient fd s)"
  using sv_inv_close [of "{fd}" s fd] by simp

corollary sv_inv_close_keep: "sv_inv X s \<Longrightarrow> sv_inv X (closeClient fd s)"
  by (rule sv_inv_mono [OF sv_inv_close]) auto

subsection \<open>Every operation keeps it\<close>

text \<open>A change of one client that stays in the middle of an operation, without events.\<close>

lemma sv_inv_set:
  assumes "sv_inv X s" and "find_client fd s = Some c" and "cl_id c' = cl_id c" and "length (cl_out c') \<le> 65536"
    and "sv_log s' = sv_log s @ evs" and "\<forall>ev \<in> set evs. ev_id ev = cl_id c"
    and "client_log (sv_message s) (sv_log s @ evs) c'"
    and "s' = (set_client fd c' s)\<lparr>sv_log := sv_log s'\<rparr>"
    and "fd \<notin> Y \<longrightarrow> (\<forall>m. interest (sv_loop s) fd = Some (m, Handler (OnClient fd)) \<longrightarrow> at_rest m c')"
    and "X \<subseteq> insert fd Y"
  shows "sv_inv Y s'"
proof (rule sv_inv_upd [OF assms(1-3)])
  have eqs: "sv_clients s' = AList.update fd c' (sv_clients s)" "sv_ids s' = sv_ids s" "sv_next s' = sv_next s"
    "sv_open s' = sv_open s" "sv_message s' = sv_message s" "sv_threw s' = sv_threw s"
    "sv_listen s' = sv_listen s" "sv_loop s' = sv_loop s"
    by (subst assms(8), simp add: set_client_def)+
  show "sv_clients s' = AList.update fd c' (sv_clients s)" "sv_ids s' = sv_ids s" "sv_next s' = sv_next s"
    "sv_open s' = sv_open s" "sv_message s' = sv_message s" "sv_threw s' = sv_threw s"
    "sv_listen s' = sv_listen s" by (rule eqs)+
  show "registry_ok (sv_loop s')" using assms(1) by (simp add: eqs sv_inv_def)
  show "interest (sv_loop s') = (interest (sv_loop s))(fd := interest (sv_loop s') fd)"
    by (simp add: eqs)
  show "sv_log s' = sv_log s @ evs" "\<forall>ev \<in> set evs. ev_id ev = cl_id c" "X \<subseteq> insert fd Y"
    by (rule assms)+
  show "client_ok Y s' fd c'"
    using sv_inv_client [OF assms(1,2)] assms(3,4,7,9) unfolding client_ok_def assms(5) eqs by auto
qed

lemma client_log_same:
  "cl_id c' = cl_id c \<Longrightarrow> cl_in c' = cl_in c \<Longrightarrow> cl_out c' = cl_out c \<Longrightarrow> client_log m log c' = client_log m log c"
  by (simp add: client_log_def)

lemma sv_inv_log: "sv_inv X s \<Longrightarrow> find_client fd s = Some c \<Longrightarrow> client_log (sv_message s) (sv_log s) c"
  using sv_inv_client by (auto simp: client_ok_def)

lemma sv_inv_out: "sv_inv X s \<Longrightarrow> find_client fd s = Some c \<Longrightarrow> length (cl_out c) \<le> 65536"
  using sv_inv_client by (auto simp: client_ok_def)

text \<open>A change of the flags only.\<close>

lemma sv_inv_flags:
  assumes "sv_inv X s" and "find_client fd s = Some c" and "cl_id c' = cl_id c" and "cl_in c' = cl_in c"
    and "cl_out c' = cl_out c"
    and "fd \<notin> Y \<longrightarrow> (\<forall>m. interest (sv_loop s) fd = Some (m, Handler (OnClient fd)) \<longrightarrow> at_rest m c')"
    and "X \<subseteq> insert fd Y"
  shows "sv_inv Y (set_client fd c' s)"
proof (rule sv_inv_set [OF assms(1-3), of _ "[]"])
  show "length (cl_out c') \<le> 65536" using sv_inv_out [OF assms(1,2)] assms(5) by simp
  show "client_log (sv_message s) (sv_log s @ []) c'"
    using sv_inv_log [OF assms(1,2)] client_log_same [OF assms(3-5)] by simp
qed (use assms(6,7) in \<open>simp_all add: set_client_def\<close>)

text \<open>\<open>ready\<close>: what the client must satisfy for \<open>flush\<close> to leave it at rest.\<close>

definition ready :: "int set \<Rightarrow> int \<Rightarrow> client \<Rightarrow> bool" where
  "ready X fd c \<longleftrightarrow> fd \<in> X \<or> \<not> cl_reading c \<and> find_nl (cl_in c) = None \<and> length (cl_in c) \<le> 8192"

lemma sv_inv_flush_end:
  assumes inv: "sv_inv (insert fd X) s" and c: "find_client fd s = Some c" and ready: "ready X fd c"
  shows "sv_inv X (flush_end fd c s)"
proof (cases "cl_eof c \<and> \<not> cl_reading c \<and> cl_pending c = 0 \<and> cl_out c = []")
  case True
  have "insert fd X - {fd} \<subseteq> X" by auto
  with True sv_inv_mono [OF sv_inv_close [OF inv, of fd]] show ?thesis by (simp add: flush_end_def)
next
  case False
  let ?loop = "snd (updateFd fd (flush_mask c) (sv_loop s))"
  have sound: "registry_ok (sv_loop s)" using inv by (simp add: sv_inv_def)
  obtain m where m: "interest (sv_loop s) fd = Some (m, Handler (OnClient fd))"
    using sv_inv_client [OF inv c] by (auto simp: client_ok_def)
  have watch: "interest ?loop = (interest (sv_loop s))(fd \<mapsto> (flush_mask c, Handler (OnClient fd)))"
    using m by (simp add: reactor.upd_watch [OF sound])
  have "sv_inv X (s\<lparr>sv_loop := ?loop\<rparr>)"
  proof (rule sv_inv_upd [OF inv c refl, where evs = "[]"])
    show "client_ok X (s\<lparr>sv_loop := ?loop\<rparr>) fd c"
      using sv_inv_client [OF inv c] ready False
      by (auto simp: client_ok_def watch ready_def at_rest_def)
    show "registry_ok (sv_loop (s\<lparr>sv_loop := ?loop\<rparr>))" by (simp add: reactor.upd_sound [OF sound])
  qed (use c in \<open>auto simp: watch AList.update_triv\<close>)
  then show ?thesis unfolding flush_end_def if_not_P [OF False] .
qed

lemma sv_inv_flush:
  assumes inv: "sv_inv (insert fd X) s" and ready: "\<And>c. find_client fd s = Some c \<Longrightarrow> ready X fd c"
  shows "sv_inv X (flush net fd s)"
proof (cases "find_client fd s")
  case None
  with sv_inv_drop [OF inv] show ?thesis by (simp add: flush_def)
next
  case (Some c)
  let ?s1 = "s\<lparr>sv_calls := sv_calls s + 1\<rparr>"
  have c1: "find_client fd ?s1 = Some c" and inv1: "sv_inv (insert fd X) ?s1" using Some inv by simp_all
  show ?thesis
  proof (cases "cl_out c = []")
    case True
    with sv_inv_flush_end [OF inv Some ready [OF Some]] Some show ?thesis by (simp add: flush_def)
  next
    case False
    show ?thesis
    proof (cases "net_send net (sv_calls s) (length (cl_out c))")
      case SendErr
      have "insert fd X - {fd} \<subseteq> X" by auto
      with SendErr False Some sv_inv_mono [OF sv_inv_close [OF inv1, of fd]] show ?thesis
        by (simp add: flush_def)
    next
      case SendRetry
      with sv_inv_flush_end [OF inv1 c1 ready [OF Some]] False Some show ?thesis by (simp add: flush_def)
    next
      case (Sent n)
      let ?c = "c\<lparr>cl_out := drop n (cl_out c)\<rparr>" and ?ev = "Wrote (cl_id c) (take n (cl_out c))"
      let ?s2 = "sv_emit ?ev (set_client fd ?c ?s1)"
      have "client_log (sv_message s) (sv_log s @ [?ev]) ?c"
        using sv_inv_log [OF inv Some]
        by (simp add: client_log_def log_defs)
      then have "sv_inv (insert fd X) ?s2"
        using sv_inv_out [OF inv Some]
        by (intro sv_inv_set [OF inv1 c1, of ?c _ "[?ev]"]) (simp_all add: sv_emit_def set_client_def)
      moreover have "ready X fd ?c" using ready [OF Some] by (simp add: ready_def)
      ultimately have "sv_inv X (flush_end fd ?c ?s2)" by (intro sv_inv_flush_end) simp_all
      with Sent False Some show ?thesis by (simp add: flush_def Let_def)
    qed
  qed
qed

lemma sv_inv_watch:
  "sv_inv X s \<Longrightarrow> find_client fd s = Some c \<Longrightarrow> fd \<notin> X \<Longrightarrow>
     interest (sv_loop s) fd = Some (m, Handler (OnClient fd)) \<Longrightarrow> at_rest m c"
  using sv_inv_client [of X s fd c] by (auto simp: client_ok_def)

lemma sv_inv_ready: "sv_inv X s \<Longrightarrow> find_client fd s = Some c \<Longrightarrow> ready X fd c"
  using sv_inv_client [of X s fd c] by (auto simp: client_ok_def at_rest_def ready_def)

lemma sv_inv_retain: "sv_inv X s \<Longrightarrow> sv_inv X (retain cid s)"
proof -
  assume inv: "sv_inv X s"
  show ?thesis
  proof (cases "sv_ids s cid")
    case (Some fd)
    from sv_inv_id [OF inv Some] obtain c where c: "find_client fd s = Some c" by blast
    have "sv_inv X (set_client fd (c\<lparr>cl_pending := cl_pending c + 1\<rparr>) s)"
      by (rule sv_inv_flags [OF inv c])
        (use sv_inv_watch [OF inv c] in \<open>auto simp: at_rest_def flush_mask_def\<close>)
    with Some c show ?thesis by (simp add: retain_def)
  qed (use inv in \<open>simp add: retain_def\<close>)
qed

lemma sv_inv_release: "sv_inv X s \<Longrightarrow> sv_inv X (release net cid s)"
proof -
  assume inv: "sv_inv X s"
  show ?thesis
  proof (cases "sv_ids s cid")
    case (Some fd)
    from sv_inv_id [OF inv Some] obtain c where c: "find_client fd s = Some c" by blast
    let ?c = "c\<lparr>cl_pending := cl_pending c - 1\<rparr>"
    let ?s = "if cl_pending c \<noteq> 0 then set_client fd ?c s else s"
    have "sv_inv (insert fd X) (set_client fd ?c s)" by (rule sv_inv_flags [OF inv c]) auto
    then have "sv_inv (insert fd X) ?s" using sv_inv_mono [OF inv, of "insert fd X"] by auto
    moreover have "ready X fd d" if "find_client fd ?s = Some d" for d
      using that sv_inv_ready [OF inv c] c by (auto simp: ready_def split: if_splits)
    ultimately have "sv_inv X (flush net fd ?s)" by (rule sv_inv_flush)
    with Some c show ?thesis by (simp add: release_def)
  qed (use inv in \<open>simp add: release_def\<close>)
qed

lemma sv_inv_send: "sv_inv X s \<Longrightarrow> sv_inv X (snd (sendResponse net cid d s))"
proof -
  assume inv: "sv_inv X s"
  show ?thesis
  proof (cases "sv_ids s cid")
    case (Some fd)
    from sv_inv_id [OF inv Some] obtain c where c: "find_client fd s = Some c" "cl_id c = cid" by blast
    let ?c = "c\<lparr>cl_out := cl_out c @ d\<rparr>" and ?ev = "Queued cid d"
    let ?s = "sv_emit ?ev (set_client fd ?c s)"
    show ?thesis
    proof (cases "65536 < length (cl_out c) + length d")
      case True
      with Some c sv_inv_close_keep [OF inv] show ?thesis by (simp add: sendResponse_def)
    next
      case False
      have "client_log (sv_message s) (sv_log s @ [?ev]) ?c"
        using sv_inv_log [OF inv c(1)] c(2) by (simp add: client_log_def log_defs)
      then have "sv_inv (insert fd X) ?s"
        using False c(2)
        by (intro sv_inv_set [OF inv c(1), of ?c _ "[?ev]"]) (auto simp add: sv_emit_def set_client_def)
      moreover have "ready X fd e" if "find_client fd ?s = Some e" for e
        using that sv_inv_ready [OF inv c(1)] by (auto simp: ready_def)
      ultimately have "sv_inv X (flush net fd ?s)" by (rule sv_inv_flush)
      with Some c False show ?thesis by (simp add: sendResponse_def Let_def)
    qed
  qed (use inv in \<open>simp add: sendResponse_def\<close>)
qed

lemma sv_inv_act: "sv_inv X s \<Longrightarrow> sv_inv X (run_sv_act net a s)"
  by (cases a) (simp_all add: sv_inv_send sv_inv_retain sv_inv_release)

lemma sv_inv_script: "sv_inv X s \<Longrightarrow> sv_inv X (run_message net as s)"
proof -
  have "sv_inv X s \<Longrightarrow> sv_inv X (fold (run_sv_act net) as s)"
    by (induction as arbitrary: s) (simp_all add: sv_inv_act)
  then show "sv_inv X s \<Longrightarrow> ?thesis" by (simp add: run_message_def)
qed

lemma sv_inv_recv_loop:
  "sv_inv {fd} s \<Longrightarrow> find_client fd s = Some c \<Longrightarrow> recv_loop net n fd c s = (going, s') \<Longrightarrow>
     sv_inv {fd} s' \<and> (\<not> going \<longrightarrow> sv_inv {} s')"
proof (induction n arbitrary: c s)
  case (Suc n)
  let ?s1 = "s\<lparr>sv_calls := sv_calls s + 1\<rparr>"
  have inv: "sv_inv {fd} ?s1" and c: "find_client fd ?s1 = Some c" using Suc.prems by simp_all
  show ?case
  proof (cases "net_recv net (sv_calls s)")
    case (Received d)
    let ?c = "c\<lparr>cl_in := cl_in c @ d\<rparr>" and ?ev = "Recvd (cl_id c) d"
    let ?s2 = "sv_emit ?ev (set_client fd ?c ?s1)"
    have "client_log (sv_message s) (sv_log s @ [?ev]) ?c"
      using sv_inv_log [OF Suc.prems(1,2)] framed_recv by (simp add: client_log_def log_defs)
    then have inv2: "sv_inv {fd} ?s2"
      using sv_inv_out [OF Suc.prems(1,2)]
      by (intro sv_inv_set [OF inv c, of ?c _ "[?ev]"]) (simp_all add: sv_emit_def set_client_def)
    show ?thesis
    proof (cases "65536 < length (cl_in ?c)")
      case True
      with Received Suc.prems(3) have "s' = closeClient fd ?s2" by (auto simp: Let_def)
      with sv_inv_closed [OF inv2] sv_inv_close_keep [OF inv2] show ?thesis by simp
    next
      case False
      with Received Suc.prems(3) have "recv_loop net n fd ?c ?s2 = (going, s')" by (auto simp: Let_def)
      with Suc.IH [OF inv2] show ?thesis by simp
    qed
  next
    case RecvEof
    then have "s' = set_client fd (c\<lparr>cl_eof := True\<rparr>) ?s1" "going" using Suc.prems(3) by auto
    moreover have "sv_inv {fd} (set_client fd (c\<lparr>cl_eof := True\<rparr>) ?s1)"
      by (rule sv_inv_flags [OF inv c]) auto
    ultimately show ?thesis by simp
  next
    case RecvIntr
    with Suc.prems(3) Suc.IH [OF inv c] show ?thesis by simp
  next
    case RecvAgain
    with Suc.prems(3) inv show ?thesis by auto
  next
    case RecvErr
    then have "s' = closeClient fd ?s1" using Suc.prems(3) by auto
    with sv_inv_closed [OF inv] sv_inv_close_keep [OF inv] show ?thesis by simp
  qed
qed auto

lemma sv_inv_line_loop:
  "sv_inv {fd} s \<Longrightarrow> line_loop net msg fd s = (going, s') \<Longrightarrow>
     if going then sv_inv {fd} s' \<and>
       (\<forall>c. find_client fd s' = Some c \<longrightarrow> find_nl (cl_in c) = None \<and> length (cl_in c) \<le> 8192)
     else sv_inv {} s'"
proof (induction net msg fd s rule: line_loop.induct)
  case (1 net msg fd s)
  note unfold = "1.prems"(2) [unfolded line_loop.simps [of net msg fd s]]
  show ?case
  proof (cases "find_client fd s")
    case None
    with unfold "1.prems"(1) show ?thesis by auto
  next
    case (Some c)
    show ?thesis
    proof (cases "find_nl (cl_in c)")
      case None
      with unfold Some "1.prems"(1) sv_inv_closed [OF "1.prems"(1)] show ?thesis by (auto split: if_splits)
    next
      case (Some pos)
      note c = \<open>find_client fd s = Some c\<close> and pos = Some
      let ?line = "take pos (cl_in c)" and ?c = "c\<lparr>cl_in := drop (pos + 1) (cl_in c)\<rparr>"
      let ?s1 = "set_client fd ?c s"
      let ?s2 = "if sv_message ?s1 \<and> ?line \<noteq> []
        then run_message net (msg (cl_id c) ?line (sv_calls ?s1)) (sv_emit (Message (cl_id c) ?line) ?s1) else ?s1"
      show ?thesis
      proof (cases "8192 < pos")
        case True
        with unfold c pos sv_inv_closed [OF "1.prems"(1)] show ?thesis by auto
      next
        case False
        let ?evs = "if ?line = [] then [] else [Message (cl_id c) ?line]"
        have framed: "client_log (sv_message s) (sv_log s @ (if sv_message s then ?evs else [])) ?c"
          using sv_inv_log [OF "1.prems"(1) c] framed_line [OF _ pos]
          by (auto simp: client_log_def log_defs)
        have "sv_inv {fd} ?s2"
        proof (cases "sv_message s \<and> ?line \<noteq> []")
          case True
          have "sv_inv {fd} (sv_emit (Message (cl_id c) ?line) ?s1)"
            using framed sv_inv_out [OF "1.prems"(1) c] True
            by (intro sv_inv_set [OF "1.prems"(1) c, of ?c _ "?evs"])
              (simp_all add: sv_emit_def set_client_def)
          then show ?thesis using True by (simp add: sv_inv_script set_client_def)
        next
          case False
          have "sv_inv {fd} ?s1"
            using framed sv_inv_out [OF "1.prems"(1) c] False
            by (intro sv_inv_set [OF "1.prems"(1) c, of ?c _ "[]"])
              (auto simp add: set_client_def split: if_splits)
          then show ?thesis using False by (auto simp add: set_client_def)
        qed
        moreover have "line_loop net msg fd ?s2 = (going, s')"
          using unfold by (simp only: c pos option.case Let_def False if_False)
        ultimately show ?thesis by (rule "1.IH" [OF c pos False refl refl])
      qed
    qed
  qed
qed

lemma sv_inv_readClient: "sv_inv {} s \<Longrightarrow> sv_inv {} (readClient net msg fd s)"
proof (cases "find_client fd s")
  case None
  assume "sv_inv {} s"
  with None show ?thesis by (simp add: readClient_def)
next
  case (Some c)
  assume inv: "sv_inv {} s"
  let ?c = "c\<lparr>cl_reading := True\<rparr>"
  obtain going s1 where r1: "recv_loop net 4 fd ?c (set_client fd ?c s) = (going, s1)" by fastforce
  obtain going2 s2 where r2: "line_loop net msg fd s1 = (going2, s2)" by fastforce
  have "sv_inv {fd} (set_client fd ?c s)" by (rule sv_inv_flags [OF inv Some]) auto
  from sv_inv_recv_loop [OF this _ r1] have inv1: "sv_inv {fd} s1" "\<not> going \<longrightarrow> sv_inv {} s1" by simp_all
  note inv2 = sv_inv_line_loop [OF inv1(1) r2]
  let ?s3 = "case find_client fd s2 of None \<Rightarrow> s2 | Some c2 \<Rightarrow> set_client fd (c2\<lparr>cl_reading := False\<rparr>) s2"
  have "sv_inv {} (flush net fd ?s3)" if "going2"
  proof (rule sv_inv_flush)
    have i2: "sv_inv {fd} s2" using inv2 that by simp
    show "sv_inv {fd} ?s3"
    proof (cases "find_client fd s2")
      case (Some c2)
      have "sv_inv {fd} (set_client fd (c2\<lparr>cl_reading := False\<rparr>) s2)"
        by (rule sv_inv_flags [OF i2 Some]) auto
      with Some show ?thesis by simp
    qed (use i2 in simp)
    show "ready {} fd c3" if "find_client fd ?s3 = Some c3" for c3
      using that inv2 \<open>going2\<close> by (auto simp: ready_def split: option.splits)
  qed
  then show ?thesis
    using inv1 inv2 Some by (simp add: readClient_def Let_def r1 r2)
qed

lemma delete_notin: "map_of xs k = None \<Longrightarrow> AList.delete k xs = xs"
  by (induction xs) (auto split: if_splits)

text \<open>Numbers given out and events of new connections do not touch the clients that are there.\<close>

lemma sv_inv_fresh:
  assumes inv: "sv_inv {} s"
    and same: "sv_clients s' = sv_clients s" "sv_ids s' = sv_ids s" "sv_open s' = sv_open s"
      "sv_message s' = sv_message s" "sv_threw s' = sv_threw s" "sv_listen s' = sv_listen s"
    and loop: "registry_ok (sv_loop s')" "interest (sv_loop s') = interest (sv_loop s)"
    and log: "sv_log s' = sv_log s @ evs" "\<forall>ev \<in> set evs. ev_id ev = sv_next s" and nxt: "sv_next s' = sv_next s + 1"
  shows "sv_inv {} s'"
proof -
  have "client_ok {} s' g d" if "find_client g s = Some d" for g d
  proof -
    have ok: "client_ok {} s g d" by (rule sv_inv_client [OF inv that])
    then have "cl_id d \<noteq> sv_next s" by (simp add: client_ok_def)
    note keep = other_id_log [OF log(2) this, of "sv_log s"]
    from ok show ?thesis unfolding client_ok_def client_log_def log(1) keep same nxt loop(2) by auto
  qed
  moreover have "\<forall>ev \<in> set (sv_log s'). ev_id ev < sv_next s'"
    using inv log nxt by (auto simp: sv_inv_def less_Suc_eq)
  ultimately show ?thesis using inv loop(1) unfolding sv_inv_def same loop(2) by blast
qed

lemma sv_inv_new:
  assumes inv: "sv_inv {} s" and new: "find_client fd s = None" and fd: "fd \<notin> sv_open s"
    and eq: "sv_clients s' = (fd, \<lparr>cl_id = sv_next s, cl_in = [], cl_out = [], cl_eof = False, cl_reading = False,
        cl_pending = 0\<rparr>) # sv_clients s" "sv_ids s' = (sv_ids s)(sv_next s \<mapsto> fd)"
      "sv_open s' = insert fd (sv_open s)" "sv_message s' = sv_message s" "sv_threw s' = sv_threw s"
      "sv_listen s' = sv_listen s" "sv_next s' = sv_next s + 1" "sv_log s' = sv_log s @ [Opened (sv_next s)]"
    and room: "length (sv_clients s) < 16"
    and loop: "registry_ok (sv_loop s')"
      "interest (sv_loop s') = (interest (sv_loop s))(fd \<mapsto> (EPOLLIN OR EPOLLRDHUP, Handler (OnClient fd)))"
  shows "sv_inv {} s'"
proof -
  let ?c = "\<lparr>cl_id = sv_next s, cl_in = [], cl_out = [], cl_eof = False, cl_reading = False, cl_pending = 0\<rparr>"
  have find: "find_client g s' = (if g = fd then Some ?c else find_client g s)" for g by (simp add: eq)
  have fresh: "\<forall>ev \<in> set (sv_log s). ev_id ev < sv_next s" using inv by (simp add: sv_inv_def)
  have "client_ok {} s' g d" if d: "find_client g s' = Some d" for g d
  proof (cases "g = fd")
    case True
    have "received i (sv_log s') = received i (sv_log s)" "messages i (sv_log s') = messages i (sv_log s)"
      "queued i (sv_log s') = queued i (sv_log s)" "written i (sv_log s') = written i (sv_log s)" for i
      by (simp_all add: eq log_defs)
    then have "client_log (sv_message s') (sv_log s') ?c"
      using fresh_id_log [OF fresh] by (simp add: client_log_def framed_def)
    moreover from True d find [of fd] have d: "d = ?c" by simp
    ultimately show ?thesis
      unfolding client_ok_def loop(2) True d by (simp add: eq at_rest_def flush_mask_def)
  next
    case False
    with d find have d': "find_client g s = Some d" by simp
    have ok: "client_ok {} s g d" by (rule sv_inv_client [OF inv d'])
    then have "cl_id d \<noteq> sv_next s" by (simp add: client_ok_def)
    note keep = other_id_log [of "[Opened (sv_next s)]" "sv_next s", simplified, OF this, of "sv_log s"]
    from ok False \<open>cl_id d \<noteq> sv_next s\<close> show ?thesis
      unfolding client_ok_def client_log_def eq keep loop(2) by auto
  qed
  moreover have "\<exists>c. find_client g s' = Some c \<and> cl_id c = cid" if cid: "sv_ids s' cid = Some g" for cid g
  proof (cases "cid = sv_next s")
    case True
    with cid show ?thesis by (auto simp: eq)
  next
    case False
    with cid sv_inv_id [OF inv, of cid g] new find show ?thesis by (auto simp: eq)
  qed
  moreover have "fd \<notin> fst ` set (sv_clients s)" using new by (simp add: map_of_eq_None_iff)
  then have "distinct (map fst (sv_clients s'))" using inv by (simp add: eq sv_inv_def)
  moreover have "interest (sv_loop s') g \<noteq> None \<longrightarrow> g \<in> sv_open s'" for g
    using inv unfolding loop(2) eq sv_inv_def by auto
  moreover have "\<forall>ev \<in> set (sv_log s'). ev_id ev < sv_next s'" using fresh by (auto simp: eq)
  moreover have "0 \<le> sv_listen s \<longrightarrow> sv_listen s \<in> sv_open s \<and> find_client (sv_listen s) s = None"
    using inv unfolding sv_inv_def by blast
  then have "0 \<le> sv_listen s' \<longrightarrow> sv_listen s' \<in> sv_open s' \<and> find_client (sv_listen s') s' = None"
    using fd find by (auto simp: eq(3,6))
  moreover have "\<not> sv_threw s'" "length (sv_clients s') \<le> 16" using inv room by (simp_all add: eq sv_inv_def)
  ultimately show ?thesis using loop(1) unfolding sv_inv_def by blast
qed

text \<open>A new client after its registration, whether that succeeded or not.\<close>

definition admitted :: "int \<Rightarrow> tcp_handler loop \<Rightarrow> server \<Rightarrow> server" where
  "admitted fd loop s =
     s\<lparr>sv_calls := sv_calls s + 1, sv_next := sv_next s + 1, sv_open := insert fd (sv_open s),
       sv_clients := (fd, \<lparr>cl_id = sv_next s, cl_in = [], cl_out = [], cl_eof = False, cl_reading = False,
         cl_pending = 0\<rparr>) # sv_clients s,
       sv_ids := (sv_ids s)(sv_next s \<mapsto> fd), sv_log := sv_log s @ [Opened (sv_next s)], sv_loop := loop\<rparr>"

lemma sv_inv_unwatched:
  assumes inv: "sv_inv {} s" and new: "find_client fd s = None" and fd: "fd \<notin> sv_open s"
    and loop: "registry_ok loop" "interest loop = interest (sv_loop s)"
  shows "sv_inv {} (closeClient fd (admitted fd loop s))"
proof -
  let ?s = "closeClient fd (admitted fd loop s)"
  have unwatched: "interest (sv_loop s) fd = None" using inv fd unfolding sv_inv_def by blast
  have none: "sv_ids s (sv_next s) = None"
    using sv_inv_id [OF inv, of "sv_next s"] sv_inv_client [OF inv]
    by (cases "sv_ids s (sv_next s)") (force simp: client_ok_def)+
  have close: "?s = (admitted fd loop s)\<lparr>sv_ids := (sv_ids s)(sv_next s := None), sv_loop := removeFd fd loop,
      sv_open := sv_open s - {fd}, sv_clients := AList.delete fd (sv_clients s),
      sv_log := sv_log s @ [Opened (sv_next s), Closed (sv_next s)]\<rparr>"
    using fd by (simp add: admitted_def closeClient_def sv_emit_def insert_Diff_if)
  show ?thesis
  proof (rule sv_inv_fresh [OF inv, where evs = "[Opened (sv_next s), Closed (sv_next s)]"])
    show "sv_clients ?s = sv_clients s" unfolding close using new by (simp add: delete_notin)
    show "sv_ids ?s = sv_ids s" unfolding close using none by auto
    show "registry_ok (sv_loop ?s)" unfolding close using loop by (simp add: reactor.del_sound)
    show "interest (sv_loop ?s) = interest (sv_loop s)"
      unfolding close using loop unwatched by (simp add: reactor.del_watch fun_upd_idem)
  qed (use fd in \<open>simp_all only: close\<close>, simp_all add: admitted_def)
qed

lemma sv_inv_admitted:
  assumes inv: "sv_inv {} s" and fd: "fd \<notin> sv_open s" and room: "length (sv_clients s) < 16"
    and add: "addFd ctl fd (EPOLLIN OR EPOLLRDHUP) (Handler (OnClient fd)) (sv_loop s) = (added, loop)"
  shows "sv_inv {} (if added then admitted fd loop s else closeClient fd (admitted fd loop s))"
proof -
  have new: "find_client fd s = None"
    using sv_inv_client [OF inv, of fd] fd by (cases "find_client fd s") (auto simp: client_ok_def)
  have unwatched: "interest (sv_loop s) fd = None" using inv fd unfolding sv_inv_def by blast
  have sound: "registry_ok (sv_loop s)" using inv by (simp add: sv_inv_def)
  note loop = reactor.add_sound [OF sound unwatched, of ctl "EPOLLIN OR EPOLLRDHUP" "Handler (OnClient fd)"]
    reactor.add_watch [OF sound unwatched, of ctl "EPOLLIN OR EPOLLRDHUP" "Handler (OnClient fd)"]
  show ?thesis
  proof (cases added)
    case True
    with loop add have "registry_ok loop"
        "interest loop = (interest (sv_loop s))(fd \<mapsto> (EPOLLIN OR EPOLLRDHUP, Handler (OnClient fd)))"
      by simp_all
    then have "sv_inv {} (admitted fd loop s)"
      using room by (intro sv_inv_new [OF inv new fd]) (simp_all add: admitted_def)
    with True show ?thesis by simp
  next
    case False
    with loop add sv_inv_unwatched [OF inv new fd] show ?thesis by simp
  qed
qed

lemma sv_inv_accept_loop:
  assumes "net_ok net"
  shows "sv_inv {} s \<Longrightarrow> sv_inv {} (accept_loop net n s)"
proof (induction n arbitrary: s)
  case (Suc n)
  let ?s1 = "s\<lparr>sv_calls := sv_calls s + 1\<rparr>"
  have IH1: "sv_inv {} (accept_loop net n ?s1)" using Suc.prems by (intro Suc.IH) simp_all
  show ?case
  proof (cases "net_accept net (sv_calls s) (sv_open s)")
    case (Accepted fd)
    then have fd: "fd \<notin> sv_open s" using assms by (auto simp: net_ok_def)
    have new: "find_client fd s = None"
      using sv_inv_client [OF Suc.prems, of fd] fd by (cases "find_client fd s") (auto simp: client_ok_def)
    show ?thesis
    proof (cases "16 \<le> length (sv_clients s)")
      case True
      with Accepted IH1 show ?thesis by simp
    next
      case False
      obtain added loop where add:
        "addFd (net_ctl net) fd (EPOLLIN OR EPOLLRDHUP) (Handler (OnClient fd)) (sv_loop s) = (added, loop)"
        by fastforce
      have "sv_inv {} (if added then admitted fd loop s else closeClient fd (admitted fd loop s))"
        using False by (intro sv_inv_admitted [OF Suc.prems fd _ add]) simp
      from Suc.IH [OF this] show ?thesis
        using Accepted False new add by (cases added) (simp_all add: admitted_def sv_emit_def Let_def)
    qed
  next
    case AcceptIntr
    with IH1 show ?thesis by simp
  next
    case AcceptErr
    with Suc.prems show ?thesis by simp
  qed
qed simp

section \<open>Runs of the server\<close>

text \<open>
  What drives the server: the reactor reports an event for a descriptor that has a context, or other
  code on the loop's thread calls an operation.
\<close>

datatype sv_op =
    SvEvent int u32
  | SvSend nat string
  | SvRetain nat
  | SvRelease nat
  | SvStart int bool
  | SvStop

fun sv_exec :: "net \<Rightarrow> (nat \<Rightarrow> string \<Rightarrow> nat \<Rightarrow> sv_act list) \<Rightarrow> sv_op \<Rightarrow> server \<Rightarrow> server" where
  "sv_exec net msg (SvEvent fd ev) s =
     (case interest (sv_loop s) fd of
        Some (_, Handler OnListen) \<Rightarrow> acceptClients net s
      | Some (_, Handler (OnClient fd')) \<Rightarrow> client_event net msg fd' ev s
      | _ \<Rightarrow> s)"
| "sv_exec net msg (SvSend cid d) s = snd (sendResponse net cid d s)"
| "sv_exec net msg (SvRetain cid) s = retain cid s"
| "sv_exec net msg (SvRelease cid) s = release net cid s"
| "sv_exec net msg (SvStart sock bound) s = snd (start net sock bound s)"
| "sv_exec net msg SvStop s = stop s"

text \<open>A new socket is a descriptor that is not open; \<open>start\<close> is called on a server that does not listen.\<close>

fun op_ok :: "sv_op \<Rightarrow> server \<Rightarrow> bool" where
  "op_ok (SvStart sock bound) s = (sv_listen s < 0 \<and> (0 \<le> sock \<longrightarrow> sock \<notin> sv_open s))"
| "op_ok _ s = True"

fun sv_run :: "net \<Rightarrow> (nat \<Rightarrow> string \<Rightarrow> nat \<Rightarrow> sv_act list) \<Rightarrow> sv_op list \<Rightarrow> server \<Rightarrow> server" where
  "sv_run net msg [] s = s"
| "sv_run net msg (x # xs) s = sv_run net msg xs (sv_exec net msg x s)"

fun ops_ok :: "net \<Rightarrow> (nat \<Rightarrow> string \<Rightarrow> nat \<Rightarrow> sv_act list) \<Rightarrow> sv_op list \<Rightarrow> server \<Rightarrow> bool" where
  "ops_ok net msg [] s = True"
| "ops_ok net msg (x # xs) s = (op_ok x s \<and> ops_ok net msg xs (sv_exec net msg x s))"

lemma sv_inv_flush_rest: "sv_inv {} s \<Longrightarrow> sv_inv {} (flush net fd s)"
  by (rule sv_inv_flush [OF sv_inv_mono]) (auto dest: sv_inv_ready)

lemma sv_inv_client_event: "sv_inv {} s \<Longrightarrow> sv_inv {} (client_event net msg fd ev s)"
  by (simp add: client_event_def Let_def sv_inv_close_keep sv_inv_readClient sv_inv_flush_rest)

lemma sv_inv_start:
  assumes inv: "sv_inv {} s" and ok: "op_ok (SvStart sock bound) s"
  shows "sv_inv {} (snd (start net sock bound s))"
proof (cases "0 \<le> sock \<and> bound")
  case False
  then show ?thesis using inv by (auto simp: start_def sv_inv_def client_ok_def)
next
  case True
  with ok have sock: "0 \<le> sock" "sock \<notin> sv_open s" by simp_all
  have sound: "registry_ok (sv_loop s)" using inv by (simp add: sv_inv_def)
  have unwatched: "interest (sv_loop s) sock = None" using inv sock(2) unfolding sv_inv_def by blast
  have new: "find_client sock s = None"
    using sv_inv_client [OF inv, of sock] sock(2) by (cases "find_client sock s") (auto simp: client_ok_def)
  obtain added loop where add: "addFd (net_ctl net) sock EPOLLIN (Handler OnListen) (sv_loop s) = (added, loop)"
    by fastforce
  have loop: "registry_ok loop" and watch: "interest loop =
      (if added then (interest (sv_loop s))(sock \<mapsto> (EPOLLIN, Handler OnListen)) else interest (sv_loop s))"
    using reactor.add_sound [OF sound unwatched, of "net_ctl net" EPOLLIN "Handler OnListen"]
      reactor.add_watch [OF sound unwatched, of "net_ctl net" EPOLLIN "Handler OnListen"] add by simp_all
  let ?s = "s\<lparr>sv_listen := sock, sv_open := insert sock (sv_open s), sv_loop := loop\<rparr>"
  have "client_ok {} ?s g d" if "find_client g ?s = Some d" for g d
  proof -
    have d: "find_client g s = Some d" using that by simp
    then have "g \<noteq> sock" using new by auto
    with sv_inv_client [OF inv d] watch show ?thesis by (auto simp: client_ok_def)
  qed
  moreover have "\<exists>c. find_client g ?s = Some c \<and> cl_id c = cid" if "sv_ids ?s cid = Some g" for cid g
    using sv_inv_id [OF inv, of cid g] that by simp
  moreover have "interest (sv_loop ?s) g \<noteq> None \<longrightarrow> g \<in> sv_open ?s" for g
    using inv watch unfolding sv_inv_def by auto
  moreover have "find_client sock ?s = None" using new by simp
  ultimately have "sv_inv {} ?s" using inv loop unfolding sv_inv_def by simp
  with True add show ?thesis by (simp add: start_def)
qed

lemma sv_inv_close_all: "sv_inv {} s \<Longrightarrow> sv_inv {} (close_all s) \<and> sv_clients (close_all s) = []"
proof (induction s rule: close_all.induct)
  case (1 s)
  then show ?case using sv_inv_close_keep by (simp add: close_all.simps [of s])
qed

lemma sv_inv_stop: "sv_inv {} s \<Longrightarrow> sv_inv {} (stop s) \<and> sv_clients (stop s) = []"
proof -
  assume "sv_inv {} s"
  then have inv: "sv_inv {} (close_all s)" and none: "sv_clients (close_all s) = []"
    using sv_inv_close_all by auto
  let ?s = "close_all s"
  have "registry_ok (sv_loop ?s)" using inv by (simp add: sv_inv_def)
  with inv none show ?thesis
    by (auto simp: stop_def Let_def sv_inv_def reactor.del_sound reactor.del_watch)
qed

lemma sv_inv_exec:
  assumes "net_ok net" and "sv_inv {} s" and "op_ok x s"
  shows "sv_inv {} (sv_exec net msg x s)"
proof (cases x)
  case (SvEvent fd ev)
  with assms(2) show ?thesis
    by (auto simp: acceptClients_def sv_inv_accept_loop [OF assms(1)] sv_inv_client_event
        split: option.splits handler.splits tcp_handler.splits)
next
  case (SvStart sock bound)
  with sv_inv_start [OF assms(2)] assms(3) show ?thesis by simp
qed (use assms(2) in \<open>simp_all add: sv_inv_send sv_inv_retain sv_inv_release sv_inv_stop\<close>)

lemma sv_inv_run:
  "net_ok net \<Longrightarrow> sv_inv {} s \<Longrightarrow> ops_ok net msg xs s \<Longrightarrow> sv_inv {} (sv_run net msg xs s)"
  by (induction xs arbitrary: s) (simp_all add: sv_inv_exec)

text \<open>The loop a server starts on: sound, with all its descriptors open.\<close>

definition loop_ready :: "tcp_handler loop \<Rightarrow> int set \<Rightarrow> bool" where
  "loop_ready l open_fds \<longleftrightarrow> registry_ok l \<and> dom (interest l) \<subseteq> open_fds"

lemma sv_inv_init: "loop_ready l U \<Longrightarrow> sv_inv {} (setMessageCallback (TcpServer l U))"
  by (auto simp: loop_ready_def sv_inv_def TcpServer_def setMessageCallback_def)

section \<open>Properties\<close>

abbreviation served :: "net \<Rightarrow> (nat \<Rightarrow> string \<Rightarrow> nat \<Rightarrow> sv_act list) \<Rightarrow> tcp_handler loop \<Rightarrow> int set \<Rightarrow> sv_op list \<Rightarrow> server" where
  "served net msg l U ops \<equiv> sv_run net msg ops (setMessageCallback (TcpServer l U))"

lemma served_inv:
  "loop_ready l U \<Longrightarrow> net_ok net \<Longrightarrow> ops_ok net msg ops (setMessageCallback (TcpServer l U)) \<Longrightarrow>
     sv_inv {} (served net msg l U ops)"
  by (rule sv_inv_run [OF _ sv_inv_init])

text \<open>Ids are given out once: what is below \<open>next_\<close> and not in use is never in use again.\<close>

definition ids_kept :: "server \<Rightarrow> server \<Rightarrow> bool" where
  "ids_kept s s' \<longleftrightarrow> sv_message s' = sv_message s \<and> sv_next s \<le> sv_next s' \<and>
     (\<forall>i < sv_next s. sv_ids s' i \<noteq> None \<longrightarrow> sv_ids s' i = sv_ids s i)"

lemma ids_kept_refl [simp]: "ids_kept s s"
  by (simp add: ids_kept_def)

lemma ids_kept_trans: "ids_kept s s1 \<Longrightarrow> ids_kept s1 s2 \<Longrightarrow> ids_kept s s2"
  by (fastforce simp: ids_kept_def)

lemma ids_kept_fields [simp]:
  "ids_kept s (set_client fd c s1) = ids_kept s s1"
  "ids_kept s (sv_emit ev s1) = ids_kept s s1"
  "ids_kept s (s1\<lparr>sv_calls := n\<rparr>) = ids_kept s s1"
  "ids_kept s (s1\<lparr>sv_loop := lp\<rparr>) = ids_kept s s1"
  "ids_kept s (s1\<lparr>sv_threw := b\<rparr>) = ids_kept s s1"
  by (simp_all add: ids_kept_def set_client_def sv_emit_def)

lemma ids_kept_close: "ids_kept s s1 \<Longrightarrow> ids_kept s (closeClient fd s1)"
  by (auto simp: ids_kept_def closeClient_def sv_emit_def split: option.splits)

lemma ids_kept_flush: "ids_kept s s1 \<Longrightarrow> ids_kept s (flush net fd s1)"
  by (simp add: flush_def flush_end_def Let_def ids_kept_close split: option.splits send_result.splits)

lemma ids_kept_ops:
  "ids_kept s s1 \<Longrightarrow> ids_kept s (retain cid s1)"
  "ids_kept s s1 \<Longrightarrow> ids_kept s (release net cid s1)"
  "ids_kept s s1 \<Longrightarrow> ids_kept s (snd (sendResponse net cid d s1))"
  by (simp_all add: retain_def release_def sendResponse_def Let_def ids_kept_close ids_kept_flush split: option.splits)

lemma ids_kept_act: "ids_kept s s1 \<Longrightarrow> ids_kept s (run_sv_act net a s1)"
  by (cases a) (simp_all add: ids_kept_ops)

lemma ids_kept_message: "ids_kept s s1 \<Longrightarrow> ids_kept s (run_message net as s1)"
proof -
  have "ids_kept s s1 \<Longrightarrow> ids_kept s (fold (run_sv_act net) as s1)"
    by (induction as arbitrary: s1) (simp_all add: ids_kept_act)
  then show "ids_kept s s1 \<Longrightarrow> ?thesis" by (simp add: run_message_def)
qed

lemma ids_kept_recv_loop: "ids_kept s0 s \<Longrightarrow> ids_kept s0 (snd (recv_loop net n fd c s))"
  by (induction n arbitrary: c s) (simp_all add: Let_def ids_kept_close split: recv_result.splits)

lemma ids_kept_line_loop: "ids_kept s0 s \<Longrightarrow> ids_kept s0 (snd (line_loop net msg fd s))"
proof (induction net msg fd s rule: line_loop.induct)
  case (1 net msg fd s)
  show ?case
  proof (cases "find_client fd s")
    case None
    with 1 show ?thesis by (simp add: line_loop.simps [of net msg fd s])
  next
    case c: (Some c)
    show ?thesis
    proof (cases "find_nl (cl_in c)")
      case None
      with c 1 show ?thesis by (simp add: line_loop.simps [of net msg fd s] ids_kept_close)
    next
      case (Some pos)
      show ?thesis
      proof (cases "8192 < pos")
        case True
        with c Some 1 show ?thesis by (simp add: line_loop.simps [of net msg fd s] ids_kept_close)
      next
        case False
        let ?s1 = "set_client fd (c\<lparr>cl_in := drop (pos + 1) (cl_in c)\<rparr>) s"
        let ?s2 = "if sv_message ?s1 \<and> take pos (cl_in c) \<noteq> []
          then run_message net (msg (cl_id c) (take pos (cl_in c)) (sv_calls ?s1))
                 (sv_emit (Message (cl_id c) (take pos (cl_in c))) ?s1) else ?s1"
        have "ids_kept s0 ?s2" using 1(2) by (simp add: ids_kept_message)
        note IH = "1.IH" [OF c Some False refl refl this]
        have "line_loop net msg fd s = line_loop net msg fd ?s2"
          by (subst line_loop.simps) (simp only: c Some option.case False if_False Let_def)
        with IH show ?thesis by (simp only:)
      qed
    qed
  qed
qed

lemma ids_kept_readClient: "ids_kept s0 s \<Longrightarrow> ids_kept s0 (readClient net msg fd s)"
proof -
  assume "ids_kept s0 s"
  then have r: "ids_kept s0 (snd (recv_loop net n fd c (set_client fd c s)))" for n c
    by (simp add: ids_kept_recv_loop)
  then have l: "ids_kept s0 (snd (line_loop net msg fd (snd (recv_loop net n fd c (set_client fd c s)))))" for n c
    by (rule ids_kept_line_loop)
  show ?thesis
    using \<open>ids_kept s0 s\<close> r l
    by (auto simp: readClient_def Let_def split_beta intro!: ids_kept_flush split: option.splits)
qed

lemma ids_kept_accept_loop: "ids_kept s0 s \<Longrightarrow> ids_kept s0 (accept_loop net n s)"
proof (induction n arbitrary: s)
  case (Suc n)
  have "ids_kept s0 (s\<lparr>sv_calls := k, sv_next := sv_next s + 1, sv_open := U, sv_clients := cs,
      sv_ids := (sv_ids s)(sv_next s \<mapsto> fd), sv_log := g, sv_loop := lp\<rparr>)" for k U cs fd g lp
    using Suc.prems by (auto simp: ids_kept_def)
  moreover from this have "ids_kept s0 (s\<lparr>sv_calls := k, sv_next := sv_next s + 1, sv_open := U,
      sv_ids := (sv_ids s)(sv_next s \<mapsto> fd), sv_log := g, sv_loop := lp\<rparr>)" for k U fd g lp
    by (simp add: ids_kept_def)
  note new = calculation [simplified] this [simplified]
  show ?case
    using Suc.IH Suc.prems new
    by (auto simp: Let_def split_beta sv_emit_def intro!: Suc.IH ids_kept_close split: accept_result.splits)
qed simp

lemma ids_kept_close_all: "ids_kept s0 s \<Longrightarrow> ids_kept s0 (close_all s)"
proof (induction s rule: close_all.induct)
  case (1 s)
  then show ?case by (simp add: close_all.simps [of s] ids_kept_close)
qed

lemma ids_kept_exec: "ids_kept s (sv_exec net msg x s)"
proof (cases x)
  case (SvEvent fd ev)
  then show ?thesis
    by (auto simp: acceptClients_def client_event_def Let_def ids_kept_accept_loop ids_kept_close
        ids_kept_readClient ids_kept_flush split: option.splits handler.splits tcp_handler.splits)
next
  case (SvStart sock bound)
  then show ?thesis by (simp add: start_def split_beta ids_kept_def)
next
  case SvStop
  have "ids_kept s (close_all s)" by (simp add: ids_kept_close_all)
  with SvStop show ?thesis by (simp add: stop_def Let_def ids_kept_def)
qed (simp_all add: ids_kept_ops)

lemma ids_kept_run: "ids_kept s0 s \<Longrightarrow> ids_kept s0 (sv_run net msg xs s)"
  by (induction xs arbitrary: s) (simp_all add: ids_kept_trans [OF _ ids_kept_exec])

text \<open>C12: The server stays within its limits, whatever clients, kernel and message callback do: at most 16
  connections, at most 65536 bytes queued for each, at most 8192 bytes of an incomplete line kept, every
  client found by its id and by no other, no \<open>out_of_range\<close> thrown, each client watched for reading
  unless it has closed its side and for writing exactly while output is queued, and no half-closed client
  kept once nothing is pending or queued for it.\<close>

theorem server_limits:
  assumes "loop_ready l U" and "net_ok net" and "ops_ok net msg ops (setMessageCallback (TcpServer l U))"
  defines "s \<equiv> served net msg l U ops"
  shows "\<not> sv_threw s \<and> connectionCount s \<le> 16 \<and> distinct (map fst (sv_clients s)) \<and>
    (\<forall>(fd, c) \<in> set (sv_clients s).
       length (cl_out c) \<le> 65536 \<and> length (cl_in c) \<le> 8192 \<and> find_nl (cl_in c) = None \<and>
       sv_ids s (cl_id c) = Some fd \<and> \<not> cl_reading c \<and>
       interest (sv_loop s) fd = Some (flush_mask c, Handler (OnClient fd)) \<and>
       \<not> (cl_eof c \<and> cl_pending c = 0 \<and> cl_out c = [])) \<and>
    (\<forall>cid fd. sv_ids s cid = Some fd \<longrightarrow> (\<exists>c. find_client fd s = Some c \<and> cl_id c = cid))"
proof -
  have inv: "sv_inv {} s" unfolding s_def by (rule served_inv [OF assms(1-3)])
  have distinct: "distinct (map fst (sv_clients s))" using inv by (simp add: sv_inv_def)
  have "client_ok {} s fd c" if "(fd, c) \<in> set (sv_clients s)" for fd c
    using sv_inv_client [OF inv] distinct that by simp
  then have "\<forall>(fd, c) \<in> set (sv_clients s).
       length (cl_out c) \<le> 65536 \<and> length (cl_in c) \<le> 8192 \<and> find_nl (cl_in c) = None \<and>
       sv_ids s (cl_id c) = Some fd \<and> \<not> cl_reading c \<and>
       interest (sv_loop s) fd = Some (flush_mask c, Handler (OnClient fd)) \<and>
       \<not> (cl_eof c \<and> cl_pending c = 0 \<and> cl_out c = [])"
    unfolding client_ok_def at_rest_def by fastforce
  with inv distinct show ?thesis unfolding sv_inv_def connectionCount_def by blast
qed

text \<open>C11: Framing does not depend on how the stream arrives: for every open connection, the messages handed
  to the callback so far are exactly the non-empty lines of all bytes received from it, in order, each once,
  and the buffer is what follows the last newline, however the bytes were split over \<open>recv\<close> calls and
  events, and whatever the callback did.\<close>

theorem framing:
  assumes "loop_ready l U" and "net_ok net" and "ops_ok net msg ops (setMessageCallback (TcpServer l U))"
    and "find_client fd (served net msg l U ops) = Some c"
  shows "let log = sv_log (served net msg l U ops); r = received (cl_id c) log
         in messages (cl_id c) log = filter (\<lambda>line. line \<noteq> []) (fst (split_lines r)) \<and>
            cl_in c = snd (split_lines r)"
proof -
  let ?s = "served net msg l U ops"
  have ok: "client_ok {} ?s fd c" by (rule sv_inv_client [OF served_inv [OF assms(1-3)] assms(4)])
  have "ids_kept (setMessageCallback (TcpServer l U)) ?s" by (rule ids_kept_run) simp
  then have "sv_message ?s" by (simp add: ids_kept_def setMessageCallback_def)
  with ok obtain used where used: "received (cl_id c) (sv_log ?s) = used @ cl_in c"
      "snd (split_lines used) = []"
      "messages (cl_id c) (sv_log ?s) = filter (\<lambda>l. l \<noteq> []) (fst (split_lines used))"
    by (auto simp: client_ok_def client_log_def framed_def)
  have "split_lines (cl_in c) = ([], cl_in c)"
    using ok split_no_nl by (auto simp: client_ok_def at_rest_def)
  with split_append [of used "cl_in c"] used(2)
  have "split_lines (received (cl_id c) (sv_log ?s)) = (fst (split_lines used), cl_in c)"
    using used(1) by simp
  with used(3) show ?thesis by (simp add: Let_def)
qed

text \<open>C15: No response byte is lost, reordered or sent to the wrong client: for every open connection, what
  was written to its socket followed by what is still in its output buffer is the concatenation of the
  responses accepted for its id, in order.\<close>

theorem output_stream:
  assumes "loop_ready l U" and "net_ok net" and "ops_ok net msg ops (setMessageCallback (TcpServer l U))"
    and "find_client fd (served net msg l U ops) = Some c"
  shows "let log = sv_log (served net msg l U ops)
         in written (cl_id c) log @ cl_out c = queued (cl_id c) log"
  using sv_inv_client [OF served_inv [OF assms(1-3)] assms(4)]
  by (simp add: client_ok_def client_log_def Let_def)

text \<open>Operations on one descriptor leave the clients of the others alone.\<close>

lemma flush_others: "g \<noteq> fd \<Longrightarrow> find_client g (flush net fd s) = find_client g s"
  by (simp add: flush_def flush_end_def find_close Let_def split: option.splits send_result.splits)

lemma send_others:
  "sv_ids s cid = Some fd \<Longrightarrow> g \<noteq> fd \<Longrightarrow> find_client g (snd (sendResponse net cid d s)) = find_client g s"
  by (simp add: sendResponse_def flush_others find_close Let_def split: option.splits)

text \<open>C14: A late response never reaches a newer connection: once a connection is closed, its id names no
  client ever again, although its descriptor may be used for a new connection, and a response for such an id
  is refused and changes nothing; a response for an open one leaves every other client unchanged.\<close>

theorem responses_isolated:
  assumes "loop_ready l U" and "net_ok net" and "ops_ok net msg ops (setMessageCallback (TcpServer l U))"
  defines "s \<equiv> served net msg l U ops"
  shows "(\<forall>cid < sv_next s. sv_ids s cid = None \<longrightarrow>
            (\<forall>ops' d. sendResponse net cid d (sv_run net msg ops' s) = (False, sv_run net msg ops' s))) \<and>
         (\<forall>cid d fd c. find_client fd s = Some c \<and> cl_id c \<noteq> cid \<longrightarrow>
            find_client fd (snd (sendResponse net cid d s)) = Some c)"
proof (intro conjI allI impI)
  fix cid ops' d
  assume "cid < sv_next s" and "sv_ids s cid = None"
  moreover have "ids_kept s (sv_run net msg ops' s)" by (rule ids_kept_run) simp
  ultimately have "sv_ids (sv_run net msg ops' s) cid = None" by (auto simp: ids_kept_def)
  then show "sendResponse net cid d (sv_run net msg ops' s) = (False, sv_run net msg ops' s)"
    by (simp add: sendResponse_def)
next
  fix cid d fd c
  assume c: "find_client fd s = Some c \<and> cl_id c \<noteq> cid"
  have inv: "sv_inv {} s" unfolding s_def by (rule served_inv [OF assms(1-3)])
  show "find_client fd (snd (sendResponse net cid d s)) = Some c"
  proof (cases "sv_ids s cid")
    case None
    with c show ?thesis by (simp add: sendResponse_def)
  next
    case (Some fd')
    from sv_inv_id [OF inv Some] c have "fd \<noteq> fd'" by auto
    with send_others [OF Some] c show ?thesis by simp
  qed
qed

subsection \<open>An example\<close>

text \<open>
  One client connects, sends a line in two parts with the beginning of another one, and gets its line
  back; then it closes its side while a response is pending.
\<close>

definition demo_net :: net where
  "demo_net =
     \<lparr>net_accept = \<lambda>n U. if n = 0 \<and> 20 \<notin> U then Accepted 20 else AcceptErr,
      net_recv = \<lambda>n. if n = 2 then Received ''a'' else if n = 4 then Received (''b'' @ [CHR 0x0A] @ ''c'')
                     else if n = 7 then RecvEof else RecvAgain,
      net_send = \<lambda>n len. Sent len, net_ctl = \<lambda>fd. True\<rparr>"

definition demo_msg :: "nat \<Rightarrow> string \<Rightarrow> nat \<Rightarrow> sv_act list" where
  "demo_msg cid line n = [Retain cid, Respond cid line]"

definition demo_loop :: "tcp_handler loop" where
  "demo_loop = EventLoop (\<lambda>_. True) 3 4 5"

definition demo_ops :: "sv_op list" where
  "demo_ops = [SvStart 6 True, SvEvent 6 1, SvEvent 20 1, SvEvent 20 1]"

abbreviation demo :: "sv_op list \<Rightarrow> server" where
  "demo ops \<equiv> served demo_net demo_msg demo_loop {3, 4, 5} ops"

lemma demo_ok: "loop_ready demo_loop {3, 4, 5}" "net_ok demo_net"
  by (auto simp: loop_ready_def demo_loop_def EventLoop_def addFd_def registry_ok_def interest_def Let_def
      net_ok_def demo_net_def split: if_splits)

lemma demo_ops_ok: "ops_ok demo_net demo_msg demo_ops (setMessageCallback (TcpServer demo_loop {3, 4, 5}))"
  by code_simp

lemma demo_log: "sv_log (demo demo_ops) =
  [Opened 1, Recvd 1 ''a'', Recvd 1 (''b'' @ [CHR 0x0A] @ ''c''), Message 1 ''ab'', Queued 1 ''ab'', Wrote 1 ''ab'']"
  by code_simp

lemma demo_client:
  "find_client 20 (demo demo_ops) = Some \<lparr>cl_id = 1, cl_in = ''c'', cl_out = [], cl_eof = False,
     cl_reading = False, cl_pending = 1\<rparr>"
  by code_simp

theorem server_limits_witness:
  "connectionCount (demo demo_ops) = 1 \<and> \<not> sv_threw (demo demo_ops) \<and> connectionCount (demo demo_ops) \<le> 16"
proof -
  have "connectionCount (demo demo_ops) = 1" by code_simp
  then show ?thesis using server_limits [OF demo_ok demo_ops_ok] by blast
qed

theorem framing_witness:
  "messages 1 (sv_log (demo demo_ops)) = [''ab''] \<and>
   (let r = received 1 (sv_log (demo demo_ops))
    in messages 1 (sv_log (demo demo_ops)) = filter (\<lambda>line. line \<noteq> []) (fst (split_lines r)) \<and>
       ''c'' = snd (split_lines r))"
proof -
  have "messages 1 (sv_log (demo demo_ops)) = [''ab'']" by (simp add: demo_log messages_def)
  with framing [OF demo_ok demo_ops_ok demo_client] show ?thesis by (simp add: Let_def)
qed

theorem output_stream_witness:
  "queued 1 (sv_log (demo demo_ops)) = ''ab'' \<and>
   written 1 (sv_log (demo demo_ops)) @ [] = queued 1 (sv_log (demo demo_ops))"
proof -
  have "queued 1 (sv_log (demo demo_ops)) = ''ab''" by (simp add: demo_log queued_def)
  with output_stream [OF demo_ok demo_ops_ok demo_client] show ?thesis by (simp add: Let_def)
qed

text \<open>After the client's error event its id is dead, and a late response for it is refused.\<close>

theorem responses_isolated_witness:
  "sv_ids (demo (demo_ops @ [SvEvent 20 EPOLLERR])) 1 = None \<and>
   sendResponse demo_net 1 ''late'' (demo (demo_ops @ [SvEvent 20 EPOLLERR])) =
     (False, demo (demo_ops @ [SvEvent 20 EPOLLERR]))"
proof -
  let ?ops = "demo_ops @ [SvEvent 20 EPOLLERR]"
  have ok: "ops_ok demo_net demo_msg ?ops (setMessageCallback (TcpServer demo_loop {3, 4, 5}))" by code_simp
  have dead: "sv_ids (demo ?ops) 1 = None" "1 < sv_next (demo ?ops)" by code_simp+
  from responses_isolated [OF demo_ok ok, THEN conjunct1] dead
  have "\<forall>ops' d. sendResponse demo_net 1 d (sv_run demo_net demo_msg ops' (demo ?ops)) =
      (False, sv_run demo_net demo_msg ops' (demo ?ops))"
    by blast
  from this [THEN spec [of _ "[]"]] dead(1) show ?thesis by simp
qed

end
