(* ===== verification/EventRecorder.thy ===== *)
theory EventRecorder
  imports EventStorage BoundedQueue Json
begin

text \<open>
  The event recorder of \<open>media/EventRecorder.h\<close>: the producer's side (\<open>trigger\<close>, \<open>reset\<close>, \<open>submit\<close>) and
  the recording thread, one iteration of its loop at a time. What the thread reads from outside (clocks,
  the two atomics other threads write, the answers of the storage and of the file stream) comes from an
  environment indexed by the number of readings so far, so that other threads may act between any two of
  them. Presentation times and byte counts are numbers without a bound.
\<close>

section \<open>Packets and the producer's side\<close>

record packet =
  pk_bytes :: "byte list"
  pk_pts :: nat
  pk_key :: bool
  pk_gap :: bool

record rec_shared =
  rs_queue :: "packet bqueue"
  rs_gap :: bool
  rs_trigger_until :: nat
  rs_reset_pts :: nat
  rs_drops :: nat

definition rec_reset :: "nat \<Rightarrow> rec_shared \<Rightarrow> rec_shared" where
  "rec_reset pts s = s\<lparr>rs_reset_pts := pts\<rparr>"

text \<open>
  The compare-exchange loop raises \<open>trigger_until_\<close> to \<open>pts + tail\<close> unless it is already there.
\<close>

definition rec_trigger :: "nat \<Rightarrow> nat \<Rightarrow> rec_shared \<Rightarrow> rec_shared" where
  "rec_trigger tail_ns pts s =
     (if pts < rs_reset_pts s then s
      else s\<lparr>rs_trigger_until := max (rs_trigger_until s) (pts + tail_ns)\<rparr>)"

definition rec_submit :: "packet \<Rightarrow> rec_shared \<Rightarrow> rec_shared" where
  "rec_submit p s =
     (let p1 = p\<lparr>pk_gap := rs_gap s\<rparr>;
          (pushed, q) = tryPush (rs_queue s) p1
      in if pushed then s\<lparr>rs_gap := False, rs_queue := q\<rparr>
         else s\<lparr>rs_gap := True, rs_queue := q, rs_drops := rs_drops s + 1\<rparr>)"

text \<open>\<open>start\<close> makes the directory, or throws; then the thread of \<open>run\<close> begins. Nothing reads the flag it sets.\<close>

definition rec_start :: "string option \<Rightarrow> cxx_error option" where
  "rec_start directories = map_option RuntimeError directories"

text \<open>\<open>stop\<close> closes the queue and leaves what it holds to the thread, which it then joins.\<close>

definition rec_stop :: "rec_shared \<Rightarrow> rec_shared" where
  "rec_stop s = s\<lparr>rs_queue := q_close False (rs_queue s)\<rparr>"

section \<open>The recording thread\<close>

subsection \<open>State\<close>

record rec_config =
  cf_directory :: string
  cf_pre_ns :: nat
  cf_tail_ns :: nat
  cf_inactivity_ms :: nat
  cf_max_seconds :: nat

definition rec_config_of :: "string \<Rightarrow> nat \<Rightarrow> nat \<Rightarrow> nat \<Rightarrow> nat \<Rightarrow> rec_config" where
  "rec_config_of dir pre tail_s inactivity_ms max_s =
     \<lparr>cf_directory = dir, cf_pre_ns = pre * ns_per_s, cf_tail_ns = tail_s * ns_per_s,
      cf_inactivity_ms = inactivity_ms, cf_max_seconds = max_s\<rparr>"

record rec_env =
  en_clock :: "nat \<Rightarrow> nat"
  en_wall :: "nat \<Rightarrow> nat"
  en_trigger :: "nat \<Rightarrow> nat"
  en_reset :: "nat \<Rightarrow> nat"
  en_reserve :: "nat \<Rightarrow> nat \<Rightarrow> bool result"
  en_ok :: "nat \<Rightarrow> bool"

text \<open>What \<open>finish\<close> writes to the manifest and publishes, with the packets of the file.\<close>

record rec_result =
  rr_path :: string
  rr_packets :: "packet list"
  rr_start :: nat
  rr_end :: nat
  rr_reason :: string
  rr_complete :: bool
  rr_write_ok :: bool
  rr_manifest_ok :: bool
  rr_state :: string

datatype rec_status = Idle | Recording string | ErrorStatus string "string option" | Finished rec_result

text \<open>
  \<open>rc_file\<close> is \<open>None\<close> while no file is open, else its path and the packets written to it; \<open>rc_fail\<close> is
  the stream's error flag. \<open>rc_stream\<close> (the packets the loop accepted) and \<open>rc_results\<close> are ghost state.
\<close>

record recorder =
  rc_ring :: "packet list"
  rc_bytes :: nat
  rc_file :: "(string \<times> packet list) option"
  rc_fail :: bool
  rc_start :: nat
  rc_last :: nat
  rc_event_id :: nat
  rc_handled_until :: nat
  rc_cutoff :: nat
  rc_opened_at :: nat
  rc_checked_at :: nat
  rc_received :: nat
  rc_current :: rec_status
  rc_history :: "rec_status list"
  rc_metrics :: "string list"
  rc_t :: nat
  rc_stream :: "packet list"
  rc_results :: "rec_result list"

definition rec_init :: "rec_env \<Rightarrow> recorder" where
  "rec_init env =
     \<lparr>rc_ring = [], rc_bytes = 0, rc_file = None, rc_fail = False, rc_start = 0, rc_last = 0,
      rc_event_id = 0, rc_handled_until = 0, rc_cutoff = 0, rc_opened_at = en_clock env 0,
      rc_checked_at = en_clock env 0, rc_received = en_clock env 1, rc_current = Idle, rc_history = [],
      rc_metrics = [], rc_t = 2, rc_stream = [], rc_results = []\<rparr>"

definition tick :: "recorder \<Rightarrow> recorder" where
  "tick s = s\<lparr>rc_t := rc_t s + 1\<rparr>"

definition count_metric :: "string \<Rightarrow> recorder \<Rightarrow> recorder" where
  "count_metric key s = s\<lparr>rc_metrics := rc_metrics s @ [key]\<rparr>"

definition publish :: "rec_status \<Rightarrow> bool \<Rightarrow> recorder \<Rightarrow> recorder" where
  "publish st final s =
     (let s1 = s\<lparr>rc_current := st\<rparr>
      in if \<not> final then s1
         else
           let h = rc_history s1 @ [st]
           in s1\<lparr>rc_history := (if 32 < length h then tl h else h)\<rparr>)"

definition clear_ring :: "recorder \<Rightarrow> recorder" where
  "clear_ring s = s\<lparr>rc_ring := [], rc_bytes := 0\<rparr>"

subsection \<open>Finishing a file\<close>

definition good_end :: "string \<Rightarrow> bool" where
  "good_end reason \<longleftrightarrow> reason = ''tail_complete'' \<or> reason = ''max_duration''"

definition finish :: "rec_env \<Rightarrow> string \<Rightarrow> recorder \<Rightarrow> recorder" where
  "finish env reason s =
     (case rc_file s of
        None \<Rightarrow> s
      | Some (path, written) \<Rightarrow>
          let success = (\<not> rc_fail s \<and> en_ok env (rc_t s));
              s1 = tick s;
              manifest_ok = en_ok env (rc_t s1);
              s2 = count_metric (if success \<and> manifest_ok then ''events_written'' else ''record_errors'') (tick s1);
              result = \<lparr>rr_path = path, rr_packets = written, rr_start = rc_start s, rr_end = rc_last s,
                        rr_reason = reason, rr_complete = (good_end reason \<and> success), rr_write_ok = success,
                        rr_manifest_ok = manifest_ok,
                        rr_state = (if \<not> success \<or> \<not> manifest_ok then ''error''
                                    else if good_end reason then ''completed'' else ''incomplete'')\<rparr>;
              s3 = publish (Finished result) True s2
          in tick (s3\<lparr>rc_file := None, rc_fail := False, rc_results := rc_results s3 @ [result],
                      rc_handled_until := max (rc_handled_until s3) (en_trigger env (rc_t s3))\<rparr>))"

subsection \<open>The ring of recent packets\<close>

text \<open>
  While a later keyframe is old enough that its group of pictures alone covers the pre-event time, the
  packets before it are dropped.
\<close>

function gop_trim :: "nat \<Rightarrow> nat \<Rightarrow> packet list \<Rightarrow> packet list" where
  "gop_trim pre_ns pts ring =
     (if length ring \<le> 1 then ring
      else case dropWhile (\<lambda>q. \<not> pk_key q) (tl ring) of
             [] \<Rightarrow> ring
           | k # ks \<Rightarrow> if pts \<le> pk_pts k + pre_ns then ring else gop_trim pre_ns pts (k # ks))"
  by pat_completeness auto
termination
proof (relation "measure (\<lambda>(pre_ns, pts, ring). length ring)")
  fix pre_ns pts :: nat and ring ks :: "packet list" and k :: packet
  assume "\<not> length ring \<le> 1" and "dropWhile (\<lambda>q. \<not> pk_key q) (tl ring) = k # ks"
  moreover have "length (dropWhile (\<lambda>q. \<not> pk_key q) (tl ring)) \<le> length (tl ring)"
    by (rule length_dropWhile_le)
  ultimately have "length (k # ks) < length ring" by simp
  then show "((pre_ns, pts, k # ks), pre_ns, pts, ring) \<in> measure (\<lambda>(pre_ns, pts, ring). length ring)"
    by simp
qed simp

declare gop_trim.simps [simp del]

definition ring_bytes :: "packet list \<Rightarrow> nat" where
  "ring_bytes ring = sum_list (map (\<lambda>q. length (pk_bytes q)) ring)"

text \<open>
  A packet enters the ring when it is a keyframe or follows others; the byte counter is kept beside the
  ring, decreased by what is dropped, and a ring of more than 16 MiB is given up.
\<close>

definition ring_add :: "rec_config \<Rightarrow> packet \<Rightarrow> recorder \<Rightarrow> recorder" where
  "ring_add cf p s =
     (let s1 = (if pk_key p \<or> rc_ring s \<noteq> []
                then s\<lparr>rc_ring := rc_ring s @ [p], rc_bytes := rc_bytes s + length (pk_bytes p)\<rparr> else s);
          ring = gop_trim (cf_pre_ns cf) (pk_pts p) (rc_ring s1);
          dropped = take (length (rc_ring s1) - length ring) (rc_ring s1);
          s2 = s1\<lparr>rc_ring := ring, rc_bytes := rc_bytes s1 - ring_bytes dropped\<rparr>
      in if 16 * 1024 * 1024 < rc_bytes s2
         then count_metric ''record_ring_resets'' (clear_ring s2) else s2)"

subsection \<open>One iteration of the loop\<close>

fun dec :: "nat \<Rightarrow> string" where
  "dec n = (if n < 10 then [''0123456789'' ! n] else dec (n div 10) @ [''0123456789'' ! (n mod 10)])"

declare dec.simps [simp del]

definition event_file :: "nat \<Rightarrow> nat \<Rightarrow> string" where
  "event_file wall event_id = ''event-'' @ dec wall @ ''-'' @ dec event_id @ ''.h264''"

text \<open>\<open>path::stem\<close> of a file name with an extension, and the status that clients are told.\<close>

definition file_stem :: "string \<Rightarrow> string" where
  "file_stem path =
     (let name = rev (takeWhile (\<lambda>c. c \<noteq> CHR ''/'') (rev path))
      in if CHR ''.'' \<in> set (tl name) then rev (tl (dropWhile (\<lambda>c. c \<noteq> CHR ''.'') (rev name))) else name)"

fun json_of_rec_status :: "rec_status \<Rightarrow> json" where
  "json_of_rec_status Idle = JObject [(''state'', JString ''idle'')]"
| "json_of_rec_status (Recording path) =
     JObject [(''state'', JString ''recording''), (''event_id'', JString (file_stem path)), (''path'', JString path)]"
| "json_of_rec_status (ErrorStatus reason path) =
     JObject ([(''state'', JString ''error''), (''reason'', JString reason)] @
       (case path of None \<Rightarrow> [] | Some p \<Rightarrow> [(''path'', JString p)]))"
| "json_of_rec_status (Finished r) = JObject
     [(''start_pts_ns'', JInt (int (rr_start r))), (''end_pts_ns'', JInt (int (rr_end r))), (''reason'', JString (rr_reason r)),
      (''format'', JString ''Annex-B H264''), (''complete'', JBool (rr_complete r)), (''write_ok'', JBool (rr_write_ok r)),
      (''event_id'', JString (file_stem (rr_path r))), (''path'', JString (rr_path r)),
      (''manifest_ok'', JBool (rr_manifest_ok r)), (''state'', JString (rr_state r))]"

definition recording_status :: "recorder \<Rightarrow> json" where
  "recording_status s = JObject
     [(''current'', json_of_rec_status (rc_current s)), (''recent'', JArray (map json_of_rec_status (rc_history s)))]"

text \<open>
  The branch that opens a file. In each of these steps the flag is false when the code goes on with the
  next iteration (\<open>continue\<close>).
\<close>

definition open_event :: "rec_env \<Rightarrow> rec_config \<Rightarrow> packet \<Rightarrow> nat \<Rightarrow> recorder \<Rightarrow> bool \<times> recorder" where
  "open_event env cf p until s =
     (case en_reserve env (rc_t s) (rc_bytes s + 4096) of
        Inr False \<Rightarrow>
          (False, publish (ErrorStatus ''storage_budget'' None) True
                    (count_metric ''record_storage_rejections'' ((tick s)\<lparr>rc_handled_until := until\<rparr>)))
      | Inl (InvalidArgument what) \<Rightarrow>
          (False, publish (ErrorStatus what None) True
                    (count_metric ''record_errors'' ((tick s)\<lparr>rc_handled_until := until\<rparr>)))
      | Inl (RuntimeError what) \<Rightarrow>
          (False, publish (ErrorStatus what None) True
                    (count_metric ''record_errors'' ((tick s)\<lparr>rc_handled_until := until\<rparr>)))
      | Inr True \<Rightarrow>
          let s1 = tick s;
              event_id = rc_event_id s1 + 1;
              path = cf_directory cf @ ''/'' @ event_file (en_wall env (rc_t s1)) event_id;
              s2 = tick (s1\<lparr>rc_event_id := event_id\<rparr>);
              opened = en_ok env (rc_t s2);
              s3 = (tick s2)\<lparr>rc_handled_until := until\<rparr>
          in if \<not> opened
             then (False, publish (ErrorStatus ''open_failed'' (Some path)) True (count_metric ''record_errors'' s3))
             else
               let s4 = publish (Recording path) False s3;
                   now = en_clock env (rc_t s4);
                   s5 = tick (s4\<lparr>rc_opened_at := now, rc_checked_at := now,
                                 rc_start := pk_pts (hd (rc_ring s4))\<rparr>);
                   s6 = s5\<lparr>rc_file := Some (path, rc_ring s5), rc_fail := \<not> en_ok env (rc_t s5)\<rparr>
               in (True, (tick s6)\<lparr>rc_last := pk_pts p\<rparr>))"

text \<open>The branch that appends to the open file, with the storage check once per second.\<close>

definition append_packet :: "rec_env \<Rightarrow> packet \<Rightarrow> recorder \<Rightarrow> recorder" where
  "append_packet env p s =
     (case rc_file s of
        None \<Rightarrow> s
      | Some (path, written) \<Rightarrow>
          (tick s)\<lparr>rc_file := Some (path, written @ [p]), rc_fail := (rc_fail s \<or> \<not> en_ok env (rc_t s)),
                   rc_last := pk_pts p\<rparr>)"

definition write_event :: "rec_env \<Rightarrow> packet \<Rightarrow> recorder \<Rightarrow> bool \<times> recorder" where
  "write_event env p s =
     (let now = en_clock env (rc_t s); s1 = tick s
      in if now - rc_checked_at s1 < ns_per_s then (True, append_packet env p s1)
         else
           let s2 = tick (s1\<lparr>rc_fail := (rc_fail s1 \<or> \<not> en_ok env (rc_t s1))\<rparr>);
               s3 = tick (s2\<lparr>rc_checked_at := en_clock env (rc_t s2)\<rparr>);
               s4 = tick s3
           in case en_reserve env (rc_t s3) (length (pk_bytes p) + 4096) of
                Inr True \<Rightarrow> (True, append_packet env p s4)
              | Inr False \<Rightarrow>
                  (False, clear_ring (finish env ''storage_budget'' (count_metric ''record_storage_rejections'' s4)))
              | Inl e \<Rightarrow>
                  (False, clear_ring (finish env ''storage_error'' (count_metric ''record_errors'' s4))))"

text \<open>The reset that other threads request, seen at the beginning of an iteration.\<close>

definition handle_reset :: "rec_env \<Rightarrow> rec_config \<Rightarrow> recorder \<Rightarrow> recorder" where
  "handle_reset env cf s =
     (let requested = en_reset env (rc_t s); s1 = tick s
      in if requested \<le> rc_cutoff s1 then s1
         else
           let s2 = clear_ring (finish env ''capture_restart'' s1)
           in s2\<lparr>rc_cutoff := requested,
                 rc_handled_until := max (rc_handled_until s2) (requested + cf_tail_ns cf)\<rparr>)"

definition handle_timeout :: "rec_env \<Rightarrow> rec_config \<Rightarrow> recorder \<Rightarrow> recorder" where
  "handle_timeout env cf s =
     (let now = en_clock env (rc_t s); s1 = tick s
      in if cf_inactivity_ms cf * ns_per_ms \<le> now - rc_received s1
         then clear_ring (finish env ''input_timeout'' s1) else s1)"

text \<open>The rest of the iteration, once a packet was accepted and is in the ring.\<close>

definition handle_packet :: "rec_env \<Rightarrow> rec_config \<Rightarrow> packet \<Rightarrow> recorder \<Rightarrow> recorder" where
  "handle_packet env cf p s =
     (let until = en_trigger env (rc_t s); s1 = tick s;
          too_long = (rc_file s1 \<noteq> None \<and>
                      cf_max_seconds cf * ns_per_s \<le> en_clock env (rc_t s1) - rc_opened_at s1);
          s2 = (if rc_file s1 \<noteq> None then tick s1 else s1)
      in if too_long then clear_ring (finish env ''max_duration'' s2)
         else
           let (going, s3) =
                 (if rc_file s2 = None \<and> pk_pts p < until \<and> rc_handled_until s2 < until \<and> rc_ring s2 \<noteq> []
                  then open_event env cf p until s2
                  else if rc_file s2 \<noteq> None then write_event env p s2
                  else (True, s2))
           in if \<not> going then s3
              else
                let s4 = (if rc_file s3 \<noteq> None \<and> rc_fail s3
                          then finish env ''write_error'' (count_metric ''record_errors'' s3) else s3)
                in if rc_file s4 \<noteq> None \<and> until \<le> pk_pts p then finish env ''tail_complete'' s4 else s4)"

text \<open>
  One iteration, for what \<open>pop\<close> delivered and whether the queue is closed; the flag is false when the
  loop ends.
\<close>

definition rec_iter :: "rec_env \<Rightarrow> rec_config \<Rightarrow> packet option \<Rightarrow> bool \<Rightarrow> recorder \<Rightarrow> bool \<times> recorder" where
  "rec_iter env cf popped is_closed s =
     (let s1 = handle_reset env cf s
      in case popped of
           None \<Rightarrow> (\<not> is_closed, handle_timeout env cf s1)
         | Some p \<Rightarrow>
             if pk_pts p < rc_cutoff s1 then (True, s1)
             else
               let s2 = tick (s1\<lparr>rc_received := en_clock env (rc_t s1), rc_stream := rc_stream s1 @ [p]\<rparr>);
                   s3 = (if pk_gap p then clear_ring (finish env ''encoded_packet_gap'' s2) else s2)
               in (True, handle_packet env cf p (ring_add cf p s3)))"

text \<open>The whole thread, for the sequence of what \<open>pop\<close> delivers.\<close>

fun rec_run :: "rec_env \<Rightarrow> rec_config \<Rightarrow> (packet option \<times> bool) list \<Rightarrow> recorder \<Rightarrow> recorder" where
  "rec_run env cf [] s = s"
| "rec_run env cf ((popped, is_closed) # pops) s =
     (let (going, s1) = rec_iter env cf popped is_closed s
      in if going then rec_run env cf pops s1 else finish env ''shutdown'' s1)"

section \<open>What is in the ring and in the files\<close>

text \<open>A playable piece of the stream: it starts with a keyframe, and no packet is missing inside.\<close>

definition whole :: "packet list \<Rightarrow> bool" where
  "whole w \<longleftrightarrow> w \<noteq> [] \<and> pk_key (hd w) \<and> (\<forall>q \<in> set (tl w). \<not> pk_gap q)"

definition ring_inv :: "packet list \<Rightarrow> recorder \<Rightarrow> bool" where
  "ring_inv st s \<longleftrightarrow> suffix (rc_ring s) st \<and> (rc_ring s = [] \<or> whole (rc_ring s)) \<and>
     rc_bytes s = ring_bytes (rc_ring s) \<and> rc_bytes s \<le> 16 * 1024 * 1024 \<and>
     (\<forall>q \<in> set (rc_ring s). rc_cutoff s \<le> pk_pts q)"

definition file_inv :: "packet list \<Rightarrow> recorder \<Rightarrow> bool" where
  "file_inv st s \<longleftrightarrow> (\<forall>path w. rc_file s = Some (path, w) \<longrightarrow> suffix w st \<and> whole w \<and>
     (\<forall>q \<in> set w. rc_cutoff s \<le> pk_pts q))"

definition out_inv :: "recorder \<Rightarrow> bool" where
  "out_inv s \<longleftrightarrow> length (rc_history s) \<le> 32 \<and> (\<forall>r \<in> set (rc_results s).
     sublist (rr_packets r) (rc_stream s) \<and> whole (rr_packets r) \<and>
     (rr_complete r \<longleftrightarrow> good_end (rr_reason r) \<and> rr_write_ok r))"

lemma rec_frames [simp]:
  "rc_ring (tick s) = rc_ring s" "rc_bytes (tick s) = rc_bytes s" "rc_file (tick s) = rc_file s"
  "rc_stream (tick s) = rc_stream s" "rc_results (tick s) = rc_results s" "rc_history (tick s) = rc_history s"
  "rc_cutoff (tick s) = rc_cutoff s" "rc_handled_until (tick s) = rc_handled_until s" "rc_fail (tick s) = rc_fail s"
  "rc_ring (count_metric k s) = rc_ring s" "rc_bytes (count_metric k s) = rc_bytes s"
  "rc_file (count_metric k s) = rc_file s" "rc_stream (count_metric k s) = rc_stream s"
  "rc_results (count_metric k s) = rc_results s" "rc_history (count_metric k s) = rc_history s"
  "rc_cutoff (count_metric k s) = rc_cutoff s" "rc_handled_until (count_metric k s) = rc_handled_until s"
  "rc_fail (count_metric k s) = rc_fail s"
  "rc_ring (publish st f s) = rc_ring s" "rc_bytes (publish st f s) = rc_bytes s"
  "rc_file (publish st f s) = rc_file s" "rc_stream (publish st f s) = rc_stream s"
  "rc_results (publish st f s) = rc_results s" "rc_cutoff (publish st f s) = rc_cutoff s"
  "rc_handled_until (publish st f s) = rc_handled_until s"
  "rc_ring (clear_ring s) = []" "rc_bytes (clear_ring s) = 0" "rc_file (clear_ring s) = rc_file s"
  "rc_stream (clear_ring s) = rc_stream s" "rc_results (clear_ring s) = rc_results s"
  "rc_history (clear_ring s) = rc_history s" "rc_cutoff (clear_ring s) = rc_cutoff s"
  "rc_handled_until (clear_ring s) = rc_handled_until s"
  by (simp_all add: tick_def count_metric_def publish_def clear_ring_def Let_def)

lemma finish_frames [simp]:
  "rc_ring (finish env r s) = rc_ring s" "rc_bytes (finish env r s) = rc_bytes s"
  "rc_stream (finish env r s) = rc_stream s" "rc_file (finish env r s) = None"
  "rc_cutoff (finish env r s) = rc_cutoff s"
  by (simp_all add: finish_def Let_def split: option.splits)

lemma file_inv_None [simp]: "rc_file s = None \<Longrightarrow> file_inv st s"
  by (simp add: file_inv_def)

lemma ring_inv_clear [simp]: "ring_inv st (clear_ring s)"
  by (simp add: ring_inv_def ring_bytes_def)

lemma out_inv_cong:
  "rc_results s' = rc_results s \<Longrightarrow> rc_stream s' = rc_stream s \<Longrightarrow> rc_history s' = rc_history s \<Longrightarrow>
     out_inv s' = out_inv s"
  by (simp add: out_inv_def)

lemma out_inv_frames [simp]:
  "out_inv (tick s) = out_inv s" "out_inv (count_metric k s) = out_inv s" "out_inv (clear_ring s) = out_inv s"
  by (simp_all add: out_inv_def)

lemma history_publish: "length (rc_history s) \<le> 32 \<Longrightarrow> length (rc_history (publish st f s)) \<le> 32"
  by (simp add: publish_def Let_def)

lemma out_inv_publish: "out_inv s \<Longrightarrow> out_inv (publish st f s)"
  using history_publish by (simp add: out_inv_def)

lemma out_inv_finish:
  assumes "out_inv s" and "file_inv st s" and "prefix st (rc_stream s)"
  shows "out_inv (finish env reason s)"
proof (cases "rc_file s")
  case None
  with assms(1) show ?thesis by (simp add: finish_def)
next
  case (Some f)
  then obtain path w where f: "rc_file s = Some (path, w)" by (cases f) auto
  with assms(2) have w: "suffix w st" "whole w" by (auto simp: file_inv_def)
  from w(1) assms(3) have "sublist w (rc_stream s)"
    by (blast intro: sublist_order.order_trans suffix_imp_sublist prefix_imp_sublist)
  let ?s = "finish env reason s"
  have "\<exists>r. rc_results ?s = rc_results s @ [r] \<and> rr_packets r = w \<and>
      (rr_complete r \<longleftrightarrow> good_end (rr_reason r) \<and> rr_write_ok r)"
    by (simp add: finish_def f Let_def)
  then obtain r where r: "rc_results ?s = rc_results s @ [r]" "rr_packets r = w"
      "rr_complete r \<longleftrightarrow> good_end (rr_reason r) \<and> rr_write_ok r"
    by blast
  have "length (rc_history ?s) \<le> 32"
    using assms(1) by (simp add: finish_def f Let_def out_inv_def history_publish)
  then show ?thesis
    using assms(1) w(2) r \<open>sublist w (rc_stream s)\<close> by (simp add: out_inv_def)
qed

lemma gop_trim_suffix: "suffix (gop_trim pre pts ring) ring"
proof (induction pre pts ring rule: gop_trim.induct)
  case (1 pre pts ring)
  show ?case
  proof (cases "length ring \<le> 1")
    case True
    then show ?thesis by (simp add: gop_trim.simps [of pre pts ring])
  next
    case False
    show ?thesis
    proof (cases "dropWhile (\<lambda>q. \<not> pk_key q) (tl ring)")
      case Nil
      show ?thesis
        by (subst gop_trim.simps) (simp only: Nil False if_False list.case suffix_order.order_refl)
    next
      case (Cons k ks)
      have "suffix (k # ks) (tl ring)" using Cons by (metis suffix_dropWhile)
      also have "suffix (tl ring) ring" by (rule suffix_tl)
      finally have "suffix (k # ks) ring" .
      with False Cons 1 show ?thesis
        by (auto simp: gop_trim.simps [of pre pts ring] intro: suffix_order.order_trans)
    qed
  qed
qed

lemma whole_suffix: "whole w \<Longrightarrow> suffix v w \<Longrightarrow> v \<noteq> [] \<Longrightarrow> pk_key (hd v) \<Longrightarrow> whole v"
  by (auto simp: whole_def suffix_def tl_append dest: list.set_sel(2) split: list.splits)

lemma gop_trim_key: "ring \<noteq> [] \<Longrightarrow> pk_key (hd ring) \<Longrightarrow>
    gop_trim pre pts ring \<noteq> [] \<and> pk_key (hd (gop_trim pre pts ring))"
proof (induction pre pts ring rule: gop_trim.induct)
  case (1 pre pts ring)
  show ?case
  proof (cases "length ring \<le> 1")
    case True
    with 1 show ?thesis by (simp add: gop_trim.simps [of pre pts ring])
  next
    case False
    show ?thesis
    proof (cases "dropWhile (\<lambda>q. \<not> pk_key q) (tl ring)")
      case Nil
      show ?thesis
        by (subst (1 2) gop_trim.simps) (simp only: Nil False if_False list.case 1 simp_thms)
    next
      case (Cons k ks)
      then have "pk_key k" by (metis dropWhile_eq_Cons_conv)
      with False Cons 1 show ?thesis by (simp add: gop_trim.simps [of pre pts ring])
    qed
  qed
qed

lemma whole_snoc: "whole w \<Longrightarrow> \<not> pk_gap p \<Longrightarrow> whole (w @ [p])"
  by (cases w) (auto simp: whole_def)

lemma ring_bytes_append: "ring_bytes (xs @ ys) = ring_bytes xs + ring_bytes ys"
  by (simp add: ring_bytes_def)

lemma ring_add_frames [simp]:
  "rc_file (ring_add cf p s) = rc_file s" "rc_stream (ring_add cf p s) = rc_stream s"
  "rc_cutoff (ring_add cf p s) = rc_cutoff s" "rc_handled_until (ring_add cf p s) = rc_handled_until s"
  "out_inv (ring_add cf p s) = out_inv s"
  by (simp_all add: ring_add_def Let_def out_inv_def)

lemma ring_inv_add:
  assumes "ring_inv st s" and "pk_gap p \<Longrightarrow> rc_ring s = []" and "rc_cutoff s \<le> pk_pts p"
  shows "ring_inv (st @ [p]) (ring_add cf p s)"
proof -
  define ring1 where "ring1 = (if pk_key p \<or> rc_ring s \<noteq> [] then rc_ring s @ [p] else rc_ring s)"
  define ring where "ring = gop_trim (cf_pre_ns cf) (pk_pts p) ring1"
  let ?bytes1 = "if pk_key p \<or> rc_ring s \<noteq> [] then rc_bytes s + length (pk_bytes p) else rc_bytes s"
  have b1: "?bytes1 = ring_bytes ring1"
    using assms(1) by (simp add: ring1_def ring_inv_def ring_bytes_def)
  have ring1: "suffix ring1 (st @ [p])" "ring1 = [] \<or> whole ring1"
    using assms whole_snoc [of "rc_ring s" p] by (auto simp: ring_inv_def ring1_def whole_def)
  have suf: "suffix ring ring1" unfolding ring_def by (rule gop_trim_suffix)
  then obtain zs where zs: "ring1 = zs @ ring" by (auto simp: suffix_def)
  then have dropped: "take (length ring1 - length ring) ring1 = zs" by simp
  have whole: "ring = [] \<or> whole ring"
    using ring1(2) suf gop_trim_key [of ring1 "cf_pre_ns cf" "pk_pts p"] whole_suffix [of ring1 ring]
    unfolding ring_def by (auto simp: whole_def)
  have bytes: "ring_bytes ring1 - ring_bytes zs = ring_bytes ring" by (simp add: zs ring_bytes_append)
  have "ring_add cf p s = (if 16 * 1024 * 1024 < ring_bytes ring
      then count_metric ''record_ring_resets'' (clear_ring (s\<lparr>rc_ring := ring, rc_bytes := ring_bytes ring\<rparr>))
      else s\<lparr>rc_ring := ring, rc_bytes := ring_bytes ring\<rparr>)"
    using b1 dropped bytes unfolding ring_add_def Let_def ring_def [symmetric] ring1_def
    by (auto simp: ring_def ring1_def split: if_splits)
  moreover have "suffix ring (st @ [p])" using suf ring1(1) by (rule suffix_order.order_trans)
  moreover have "\<forall>q \<in> set ring. rc_cutoff s \<le> pk_pts q"
    using assms(1,3) set_mono_suffix [OF suf] by (auto simp: ring1_def ring_inv_def split: if_splits)
  ultimately show ?thesis using whole by (simp add: ring_inv_def ring_bytes_def)
qed

lemma handle_reset_inv:
  assumes "ring_inv st s" and "file_inv st s" and "out_inv s" and "prefix st (rc_stream s)"
  shows "ring_inv st (handle_reset env cf s) \<and> file_inv st (handle_reset env cf s) \<and>
    out_inv (handle_reset env cf s) \<and> rc_stream (handle_reset env cf s) = rc_stream s"
proof -
  have "out_inv (finish env ''capture_restart'' (tick s))"
    using assms by (intro out_inv_finish [of _ st]) (simp_all add: file_inv_def)
  with assms show ?thesis
    by (simp add: handle_reset_def Let_def ring_inv_def file_inv_def out_inv_def ring_bytes_def)
qed

lemma handle_timeout_inv:
  assumes "ring_inv st s" and "file_inv st s" and "out_inv s" and "prefix st (rc_stream s)"
  shows "ring_inv st (handle_timeout env cf s) \<and> file_inv st (handle_timeout env cf s) \<and>
    out_inv (handle_timeout env cf s) \<and> rc_stream (handle_timeout env cf s) = rc_stream s"
proof -
  have "out_inv (finish env ''input_timeout'' (tick s))"
    using assms by (intro out_inv_finish [of _ st]) (simp_all add: file_inv_def)
  with assms show ?thesis
    by (simp add: handle_timeout_def Let_def ring_inv_def file_inv_def ring_bytes_def)
qed

lemma open_event_inv:
  assumes "ring_inv st s" and "rc_ring s \<noteq> []" and "out_inv s" and "rc_file s = None"
    and res: "open_event env cf p until s = (going, s')"
  shows "ring_inv st s' \<and> file_inv st s' \<and> out_inv s' \<and> rc_stream s' = rc_stream s \<and>
    (\<not> going \<longrightarrow> rc_file s' = None)"
proof (cases "going")
  case False
  have "ring_inv st s'" "rc_file s' = None" "rc_stream s' = rc_stream s" "out_inv s'"
    using res assms(1,3,4) False
    by (auto simp: open_event_def Let_def ring_inv_def out_inv_def history_publish
        split: sum.splits bool.splits cxx_error.splits if_splits)
  then show ?thesis by simp
next
  case True
  then obtain path where "rc_file s' = Some (path, rc_ring s)" and same: "rc_ring s' = rc_ring s"
      "rc_bytes s' = rc_bytes s" "rc_stream s' = rc_stream s" "rc_results s' = rc_results s" "rc_cutoff s' = rc_cutoff s"
      "length (rc_history s') \<le> 32"
    using res assms(3) by (auto simp: open_event_def Let_def out_inv_def history_publish
        split: sum.splits bool.splits cxx_error.splits if_splits)
  with assms(1-3) True show ?thesis by (auto simp: ring_inv_def file_inv_def out_inv_def)
qed

lemma write_event_inv:
  assumes "ring_inv (st @ [p]) s" and "file_inv st s" and "rc_file s \<noteq> None" and "out_inv s"
    and "rc_stream s = st @ [p]" and "\<not> pk_gap p" and "rc_cutoff s \<le> pk_pts p"
    and res: "write_event env p s = (going, s')"
  shows "ring_inv (st @ [p]) s' \<and> file_inv (st @ [p]) s' \<and> out_inv s' \<and> rc_stream s' = rc_stream s \<and>
    (\<not> going \<longrightarrow> rc_file s' = None)"
proof -
  obtain path w where f: "rc_file s = Some (path, w)" "suffix w st" "whole w" "\<forall>q \<in> set w. rc_cutoff s \<le> pk_pts q"
    using assms(2,3) by (auto simp: file_inv_def)
  have done_inv: "ring_inv (st @ [p]) (append_packet env p t)" "file_inv (st @ [p]) (append_packet env p t)"
      "out_inv (append_packet env p t)" "rc_stream (append_packet env p t) = rc_stream s"
    if "rc_ring t = rc_ring s" "rc_bytes t = rc_bytes s" "rc_file t = rc_file s" "rc_stream t = rc_stream s"
      "rc_results t = rc_results s" "rc_history t = rc_history s" "rc_cutoff t = rc_cutoff s" for t
    using that assms(1,4,7) f whole_snoc [OF f(3) assms(6)]
    by (simp_all add: append_packet_def ring_inv_def file_inv_def out_inv_def)
  have finished: "out_inv (finish env reason t)"
    if "rc_file t = rc_file s" "rc_stream t = rc_stream s" "rc_results t = rc_results s"
      "rc_history t = rc_history s" "rc_cutoff t = rc_cutoff s" for t reason
    using that assms(2,4,5) by (intro out_inv_finish [of _ st]) (simp_all add: file_inv_def out_inv_def)
  show ?thesis
    using res unfolding write_event_def Let_def
    by (auto split: if_splits sum.splits bool.splits simp: finished done_inv)
qed

lemma handle_packet_inv:
  assumes "ring_inv (st @ [p]) s" and "file_inv st s" and "out_inv s" and "rc_stream s = st @ [p]"
    and "pk_gap p \<Longrightarrow> rc_file s = None" and "rc_cutoff s \<le> pk_pts p"
  shows "ring_inv (st @ [p]) (handle_packet env cf p s) \<and> file_inv (st @ [p]) (handle_packet env cf p s) \<and>
    out_inv (handle_packet env cf p s) \<and> rc_stream (handle_packet env cf p s) = st @ [p]"
proof -
  let ?until = "en_trigger env (rc_t s)"
  define s2 where "s2 = (if rc_file (tick s) \<noteq> None then tick (tick s) else tick s)"
  have s2: "ring_inv (st @ [p]) s2" "file_inv st s2" "out_inv s2" "rc_stream s2 = st @ [p]"
      "rc_file s2 = rc_file s" "rc_cutoff s2 = rc_cutoff s"
    using assms(1-4) by (simp_all add: s2_def ring_inv_def file_inv_def)
  define r where "r = (if rc_file s2 = None \<and> pk_pts p < ?until \<and> rc_handled_until s2 < ?until \<and> rc_ring s2 \<noteq> []
                  then open_event env cf p ?until s2
                  else if rc_file s2 \<noteq> None then write_event env p s2 else (True, s2))"
  obtain going s3 where r3: "r = (going, s3)" by fastforce
  have s3: "ring_inv (st @ [p]) s3 \<and> file_inv (st @ [p]) s3 \<and> out_inv s3 \<and> rc_stream s3 = st @ [p]"
  proof (cases "rc_file s2 = None")
    case True
    then show ?thesis
      using r3 s2 open_event_inv [OF s2(1) _ s2(3) True, of env cf p ?until going s3]
      by (auto simp: r_def split: if_splits)
  next
    case False
    then have "\<not> pk_gap p" using assms(5) s2(5) by auto
    moreover have "write_event env p s2 = (going, s3)" using r3 False unfolding r_def by (simp only: simp_thms if_False if_True)
    ultimately show ?thesis using write_event_inv [OF s2(1,2) False s2(3,4)] s2(4,6) assms(6) by simp
  qed
  define s4 where "s4 = (if rc_file s3 \<noteq> None \<and> rc_fail s3
      then finish env ''write_error'' (count_metric ''record_errors'' s3) else s3)"
  have fin: "ring_inv (st @ [p]) (finish env reason t) \<and> file_inv (st @ [p]) (finish env reason t) \<and>
      out_inv (finish env reason t) \<and> rc_stream (finish env reason t) = st @ [p]"
    if "ring_inv (st @ [p]) t \<and> file_inv (st @ [p]) t \<and> out_inv t \<and> rc_stream t = st @ [p]" for reason t
    using that out_inv_finish [of t "st @ [p]" env reason] by (simp add: ring_inv_def)
  have s4: "ring_inv (st @ [p]) s4 \<and> file_inv (st @ [p]) s4 \<and> out_inv s4 \<and> rc_stream s4 = st @ [p]"
    using s3 fin [of "count_metric ''record_errors'' s3" "''write_error''"]
    by (simp add: s4_def ring_inv_def file_inv_def)
  have long: "out_inv (finish env ''max_duration'' s2)"
    using s2 by (intro out_inv_finish [of _ st]) simp_all
  show ?thesis
    using s2 s3 s4 fin [OF s4, of "''tail_complete''"] long
    unfolding handle_packet_def Let_def s2_def [symmetric] r_def [symmetric] r3 prod.case s4_def [symmetric]
    by (simp split: if_splits)
qed

definition rec_inv :: "recorder \<Rightarrow> bool" where
  "rec_inv s \<longleftrightarrow> ring_inv (rc_stream s) s \<and> file_inv (rc_stream s) s \<and> out_inv s"

lemma rec_inv_iter: "rec_inv s \<Longrightarrow> rec_inv (snd (rec_iter env cf popped is_closed s))"
proof -
  assume inv: "rec_inv s"
  let ?s1 = "handle_reset env cf s"
  have s1: "ring_inv (rc_stream s) ?s1" "file_inv (rc_stream s) ?s1" "out_inv ?s1" "rc_stream ?s1 = rc_stream s"
    using inv handle_reset_inv [of "rc_stream s" s env cf] by (auto simp: rec_inv_def)
  show ?thesis
  proof (cases popped)
    case None
    with s1 handle_timeout_inv [OF s1(1-3), of env cf] show ?thesis
      by (simp add: rec_iter_def Let_def rec_inv_def)
  next
    case (Some p)
    show ?thesis
    proof (cases "pk_pts p < rc_cutoff ?s1")
      case True
      with Some s1 show ?thesis by (simp add: rec_iter_def Let_def rec_inv_def)
    next
      case False
      define s2 where "s2 = tick (?s1\<lparr>rc_received := en_clock env (rc_t ?s1), rc_stream := rc_stream ?s1 @ [p]\<rparr>)"
      define s3 where "s3 = (if pk_gap p then clear_ring (finish env ''encoded_packet_gap'' s2) else s2)"
      have s2: "ring_inv (rc_stream s) s2" "file_inv (rc_stream s) s2" "out_inv s2" "rc_stream s2 = rc_stream s @ [p]"
        using s1 by (auto simp: s2_def ring_inv_def file_inv_def out_inv_def
            intro: sublist_order.order_trans sublist_appendI)
      then have s3: "ring_inv (rc_stream s) s3" "file_inv (rc_stream s) s3" "out_inv s3"
          "rc_stream s3 = rc_stream s @ [p]" "pk_gap p \<Longrightarrow> rc_ring s3 = []" "pk_gap p \<Longrightarrow> rc_file s3 = None"
          "rc_cutoff s3 \<le> pk_pts p"
        using out_inv_finish [OF s2(3,2)] False by (simp_all add: s3_def s2_def)
      let ?s4 = "ring_add cf p s3"
      have "ring_inv (rc_stream s @ [p]) ?s4" using ring_inv_add [OF s3(1,5,7)] by simp
      moreover have "file_inv (rc_stream s) ?s4" using s3(2) by (simp add: file_inv_def)
      ultimately have "ring_inv (rc_stream s @ [p]) (handle_packet env cf p ?s4) \<and>
          file_inv (rc_stream s @ [p]) (handle_packet env cf p ?s4) \<and> out_inv (handle_packet env cf p ?s4) \<and>
          rc_stream (handle_packet env cf p ?s4) = rc_stream s @ [p]"
        using s3(3,4,6,7) by (intro handle_packet_inv) simp_all
      moreover have "snd (rec_iter env cf popped is_closed s) = handle_packet env cf p ?s4"
        using Some False by (simp add: rec_iter_def Let_def s2_def s3_def)
      ultimately show ?thesis by (simp add: rec_inv_def)
    qed
  qed
qed

lemma rec_inv_finish: "rec_inv s \<Longrightarrow> rec_inv (finish env reason s)"
  using out_inv_finish [of s "rc_stream s" env reason] by (simp add: rec_inv_def ring_inv_def)

lemma rec_inv_run: "rec_inv s \<Longrightarrow> rec_inv (rec_run env cf pops s)"
proof (induction pops arbitrary: s)
  case (Cons x pops)
  obtain popped is_closed where x: "x = (popped, is_closed)" by fastforce
  from rec_inv_iter [OF Cons.prems, of env cf popped is_closed] x Cons.IH show ?case
    by (auto simp: split_beta rec_inv_finish)
qed simp

lemma rec_inv_init: "rec_inv (rec_init env)"
  by (simp add: rec_inv_def rec_init_def ring_inv_def file_inv_def out_inv_def ring_bytes_def)

text \<open>C13: Every recording is an unbroken, decodable piece of the stream: whatever the clocks, the disk and the
  other threads do, the packets of every finished file are consecutive packets that the recorder accepted,
  beginning with a keyframe and with no lost packet inside; the same holds of the file being written, which has nothing from before the last
  capture restart; a
  file is marked complete only if it ended with its tail or at the maximal duration and was written without
  an error, the packets kept in memory are counted exactly and stay within 16 MiB, and at most 32 results
  are kept.\<close>

theorem recordings_unbroken:
  fixes env :: rec_env and cf :: rec_config
  defines "s pops \<equiv> rec_run env cf pops (rec_init env)"
  shows "(\<forall>r \<in> set (rc_results (s pops)). sublist (rr_packets r) (rc_stream (s pops)) \<and> whole (rr_packets r) \<and>
            (rr_complete r \<longleftrightarrow> good_end (rr_reason r) \<and> rr_write_ok r)) \<and>
         (case rc_file (s pops) of None \<Rightarrow> True | Some (path, w) \<Rightarrow> suffix w (rc_stream (s pops)) \<and> whole w \<and>
            (\<forall>q \<in> set w. rc_cutoff (s pops) \<le> pk_pts q)) \<and>
         rc_bytes (s pops) = ring_bytes (rc_ring (s pops)) \<and> rc_bytes (s pops) \<le> 16 * 1024 * 1024 \<and>
         length (rc_history (s pops)) \<le> 32"
proof -
  have "rec_inv (s pops)" unfolding s_def by (rule rec_inv_run [OF rec_inv_init])
  then show ?thesis by (auto simp: rec_inv_def ring_inv_def out_inv_def file_inv_def split: option.splits)
qed

subsection \<open>The pre-event time\<close>

text \<open>Trimming the ring never cuts into the requested pre-event time and keeps no superfluous group of
  pictures: what remains starts with a keyframe and is the end of the old ring, anything dropped lies
  before a keyframe that is itself older than the pre-event time, and the next keyframe kept, if there is
  one, is not older than that.\<close>

theorem preroll_kept:
  assumes "ring \<noteq> []" and "pk_key (hd ring)"
  shows "suffix (gop_trim pre_ns pts ring) ring \<and> gop_trim pre_ns pts ring \<noteq> [] \<and>
         pk_key (hd (gop_trim pre_ns pts ring)) \<and>
         (gop_trim pre_ns pts ring \<noteq> ring \<longrightarrow> pk_pts (hd (gop_trim pre_ns pts ring)) + pre_ns < pts) \<and>
         (case dropWhile (\<lambda>q. \<not> pk_key q) (tl (gop_trim pre_ns pts ring)) of
            [] \<Rightarrow> True | k # _ \<Rightarrow> pts \<le> pk_pts k + pre_ns)"
  using assms
proof (induction pre_ns pts ring rule: gop_trim.induct)
  case (1 pre_ns pts ring)
  show ?case
  proof (cases "length ring \<le> 1")
    case True
    then have "tl ring = []" by (cases ring) auto
    with True 1 show ?thesis by (simp add: gop_trim.simps [of pre_ns pts ring])
  next
    case False
    show ?thesis
    proof (cases "dropWhile (\<lambda>q. \<not> pk_key q) (tl ring)")
      case Nil
      then have "gop_trim pre_ns pts ring = ring"
        by (subst gop_trim.simps) (simp only: False if_False list.case)
      then show ?thesis using "1.prems" by (simp only: Nil list.case simp_thms suffix_order.order_refl)
    next
      case (Cons k ks)
      then have key: "pk_key k" by (metis dropWhile_eq_Cons_conv)
      show ?thesis
      proof (cases "pts \<le> pk_pts k + pre_ns")
        case True
        with Cons False have "gop_trim pre_ns pts ring = ring"
          by (subst gop_trim.simps) (simp only: if_False list.case if_True)
        with Cons 1 True show ?thesis by simp
      next
        case later: False
        with Cons False have eq: "gop_trim pre_ns pts ring = gop_trim pre_ns pts (k # ks)"
          by (subst gop_trim.simps) (simp only: if_False list.case)
        have "suffix (k # ks) (tl ring)" using Cons by (metis suffix_dropWhile)
        also have "suffix (tl ring) ring" by (rule suffix_tl)
        finally have suf: "suffix (k # ks) ring" .
        have "\<not> length ring \<le> 1" by (rule False)
        from "1.IH" [OF this Cons later _] key later show ?thesis
          unfolding eq
          by (cases "gop_trim pre_ns pts (k # ks) = k # ks") (auto intro: suffix_order.order_trans [OF _ suf])
      qed
    qed
  qed
qed

text \<open>Three groups of pictures; with one second of pre-event time at 5 s, the first is dropped.\<close>

definition demo_packet :: "nat \<Rightarrow> bool \<Rightarrow> packet" where
  "demo_packet ms key = \<lparr>pk_bytes = [1, 2], pk_pts = ms * ns_per_ms, pk_key = key, pk_gap = False\<rparr>"

definition demo_ring :: "packet list" where
  "demo_ring = map (\<lambda>ms. demo_packet ms (ms mod 2000 = 0)) [2000, 3000, 4000, 5000, 6000]"

theorem preroll_kept_witness:
  "gop_trim 1000000000 5500000000 demo_ring = drop 2 demo_ring \<and>
   pk_pts (hd (gop_trim 1000000000 5500000000 demo_ring)) + 1000000000 < 5500000000"
proof -
  have trim: "gop_trim 1000000000 5500000000 demo_ring = drop 2 demo_ring" by code_simp
  have "demo_ring \<noteq> []" "pk_key (hd demo_ring)" "drop 2 demo_ring \<noteq> demo_ring" by code_simp+
  with preroll_kept [OF this(1,2), of 1000000000 5500000000] trim show ?thesis by simp
qed

subsection \<open>Triggers\<close>

text \<open>An environment in which the storage and the files work and nothing is reset.\<close>

definition demo_env :: "(nat \<Rightarrow> nat) \<Rightarrow> rec_env" where
  "demo_env triggers = \<lparr>en_clock = (\<lambda>n. n), en_wall = (\<lambda>n. 77), en_trigger = triggers, en_reset = (\<lambda>n. 0),
     en_reserve = (\<lambda>n bytes. Inr True), en_ok = (\<lambda>n. True)\<rparr>"

definition demo_config :: rec_config where
  "demo_config = rec_config_of ''rec'' 1 5 2000 60"

text \<open>
  Keyframes at 5 s, 6 s and so on; a trigger until 7 s is pending from the beginning, and another one,
  until 20 s, is set while the packet at 7 s is handled: after \<open>until\<close> was read and before \<open>finish\<close>
  reads \<open>trigger_until_\<close> again.
\<close>

definition demo_triggers :: "nat \<Rightarrow> nat" where
  "demo_triggers n = (if n < 20 then 7 * ns_per_s else 20 * ns_per_s)"

definition demo_pops :: "(packet option \<times> bool) list" where
  "demo_pops = map (\<lambda>ms. (Some (demo_packet ms True), False)) [5000, 6000, 7000, 8000, 9000, 10000, 15000, 19000]"

definition demo_recorder :: recorder where
  "demo_recorder = rec_run (demo_env demo_triggers) demo_config demo_pops (rec_init (demo_env demo_triggers))"


theorem recordings_unbroken_witness:
  "\<exists>r \<in> set (rc_results demo_recorder). length (rr_packets r) = 3 \<and>
     sublist (rr_packets r) (rc_stream demo_recorder) \<and> whole (rr_packets r)"
proof -
  have "map (\<lambda>r. length (rr_packets r)) (rc_results demo_recorder) = [3]" by code_simp
  then obtain r where "rc_results demo_recorder = [r]" "length (rr_packets r) = 3" by (auto simp: map_eq_Cons_conv)
  with recordings_unbroken [where env = "demo_env demo_triggers" and cf = demo_config and pops = demo_pops]
  show ?thesis unfolding demo_recorder_def by auto
qed

subsection \<open>Lost packets are marked\<close>

datatype sub_op = Submit packet | PopOne

text \<open>
  Submissions and the thread's pops, in any order: the packets as they were offered to the queue, each with
  whether it was stored, and the packets popped.
\<close>

fun feed :: "sub_op list \<Rightarrow> rec_shared \<Rightarrow> (packet \<times> bool) list \<times> packet list \<times> rec_shared" where
  "feed [] s = ([], [], s)"
| "feed (Submit p # ops) s =
     (let s1 = rec_submit p s; (offered, popped, s2) = feed ops s1
      in ((p\<lparr>pk_gap := rs_gap s\<rparr>, rs_drops s1 = rs_drops s) # offered, popped, s2))"
| "feed (PopOne # ops) s =
     (let (r, q) = pop (rs_queue s); (offered, popped, s2) = feed ops (s\<lparr>rs_queue := q\<rparr>)
      in (offered, (case r of None \<Rightarrow> popped | Some p \<Rightarrow> p # popped), s2))"

definition rec_shared_init :: "packet bqueue \<Rightarrow> rec_shared" where
  "rec_shared_init q = \<lparr>rs_queue = q, rs_gap = False, rs_trigger_until = 0, rs_reset_pts = 0, rs_drops = 0\<rparr>"

fun marks :: "bool \<Rightarrow> (packet \<times> bool) list \<Rightarrow> bool" where
  "marks g [] = True"
| "marks g ((p, stored) # rest) = (pk_gap p = g \<and> marks (\<not> stored) rest)"

lemma feed_marks:
  "feed ops s = (offered, popped, s') \<Longrightarrow>
     marks (rs_gap s) offered \<and>
     bq_q (rs_queue s) @ map fst (filter snd offered) = popped @ bq_q (rs_queue s')"
proof (induction ops arbitrary: s offered popped s')
  case (Cons x ops)
  show ?case
  proof (cases x)
    case (Submit p)
    obtain off pp s2 where rest: "feed ops (rec_submit p s) = (off, pp, s2)" by (cases "feed ops (rec_submit p s)") auto
    from Cons.IH [OF rest] Cons.prems Submit rest show ?thesis
      by (auto simp: Let_def rec_submit_def tryPush_def split: if_splits)
  next
    case PopOne
    obtain r q where pop: "pop (rs_queue s) = (r, q)" by fastforce
    obtain off pp s2 where rest: "feed ops (s\<lparr>rs_queue := q\<rparr>) = (off, pp, s2)"
      by (cases "feed ops (s\<lparr>rs_queue := q\<rparr>)") auto
    from Cons.IH [OF rest] Cons.prems PopOne rest pop show ?thesis
      by (auto simp: Let_def pop_def split: option.splits list.splits)
  qed
qed auto

lemma marks_nth: "marks g rs \<Longrightarrow> i < length rs \<Longrightarrow>
    pk_gap (fst (rs ! i)) \<longleftrightarrow> (if i = 0 then g else \<not> snd (rs ! (i - 1)))"
proof (induction rs arbitrary: g i)
  case (Cons r rs)
  obtain p stored where r: "r = (p, stored)" by fastforce
  show ?case
  proof (cases i)
    case 0
    with Cons.prems r show ?thesis by simp
  next
    case (Suc j)
    with Cons.prems r have "marks (\<not> stored) rs" "j < length rs" by simp_all
    from Cons.IH [OF this] Suc r show ?thesis by (cases j) simp_all
  qed
qed simp

text \<open>C30: The recording thread can tell where the stream was cut: packets come out of the queue in the order
  they were stored, each once, and a packet carries the gap mark exactly when the packet submitted just
  before it was dropped because the queue was full.\<close>

theorem gaps_mark_losses:
  assumes "feed ops (rec_shared_init q) = (offered, popped, s)" and "bq_q q = []"
  shows "map fst (filter snd offered) = popped @ bq_q (rs_queue s) \<and>
         (\<forall>i < length offered. pk_gap (fst (offered ! i)) \<longleftrightarrow> 0 < i \<and> \<not> snd (offered ! (i - 1)))"
  using feed_marks [OF assms(1)] assms(2) marks_nth [of False offered]
  by (auto simp: rec_shared_init_def)

text \<open>A queue of one packet: the second of three packets is dropped.\<close>

definition demo_feed :: "(packet \<times> bool) list \<times> packet list \<times> rec_shared" where
  "demo_feed = feed [Submit (demo_packet 1 True), Submit (demo_packet 2 False), PopOne, Submit (demo_packet 3 False)]
     (rec_shared_init \<lparr>bq_capacity = 1, bq_dropped = 0, bq_high = 0, bq_closed = False, bq_q = []\<rparr>)"

theorem gaps_mark_losses_witness:
  "map (\<lambda>(p, stored). (pk_pts p, pk_gap p, stored)) (fst demo_feed) =
     [(1000000, False, True), (2000000, False, False), (3000000, True, True)] \<and>
   map fst (filter snd (fst demo_feed)) = fst (snd demo_feed) @ bq_q (rs_queue (snd (snd demo_feed)))"
proof -
  let ?q = "\<lparr>bq_capacity = 1, bq_dropped = 0, bq_high = 0, bq_closed = False, bq_q = []\<rparr> :: packet bqueue"
  obtain offered popped s where d: "demo_feed = (offered, popped, s)" by (cases demo_feed) auto
  from gaps_mark_losses [OF d [unfolded demo_feed_def]]
  have "map fst (filter snd offered) = popped @ bq_q (rs_queue s)" by simp
  moreover have "map (\<lambda>(p, stored). (pk_pts p, pk_gap p, stored)) (fst demo_feed) =
      [(1000000, False, True), (2000000, False, False), (3000000, True, True)]" by code_simp
  ultimately show ?thesis by (simp add: d)
qed

subsection \<open>Names\<close>

lemma strip_prefix_append [simp]: "strip_prefix p (p @ s) = Some s"
  by (induction p) simp_all

lemma dec_digits: "dec n \<noteq> [] \<and> (\<forall>c \<in> set (dec n). is_digit c)"
proof (induction n rule: dec.induct)
  case (1 n)
  have digit: "is_digit (''0123456789'' ! k)" if "k < 10" for k
  proof -
    have "''0123456789'' ! k \<in> set ''0123456789''" using that by (intro nth_mem) simp
    then show ?thesis unfolding is_digit_def .
  qed
  show ?case
  proof (cases "n < 10")
    case True
    then show ?thesis using digit [of n] by (subst (1 2) dec.simps) (simp del: nth_Cons_numeral)
  next
    case False
    then show ?thesis using 1 digit [of "n mod 10"]
      by (subst (1 2) dec.simps) (auto simp del: nth_Cons_numeral)
  qed
qed

text \<open>A decimal number determines its value, and it ends where its digits end.\<close>

definition digit_value :: "char \<Rightarrow> nat" where
  "digit_value c = of_char c - 48"

lemma digit_value_nth: "k < 10 \<Longrightarrow> digit_value (''0123456789'' ! k) = k"
  by (auto simp: digit_value_def less_Suc_eq numeral_eq_Suc)

text \<open>The id that clients are told of an event is the name of its file without the extension.\<close>

lemma file_stem_event: "file_stem (dir @ ''/'' @ event_file wall event_id) = ''event-'' @ dec wall @ ''-'' @ dec event_id"
proof -
  define stem where "stem = ''event-'' @ dec wall @ ''-'' @ dec event_id"
  define suffix where "suffix = ''462h.'' @ rev stem"
  have plain: "CHR ''/'' \<notin> set (dec n)" "CHR ''.'' \<notin> set (dec n)" for n
  proof -
    have "\<not> is_digit (CHR ''/'')" "\<not> is_digit (CHR ''.'')" by (simp_all add: is_digit_def)
    with dec_digits [of n] show "CHR ''/'' \<notin> set (dec n)" "CHR ''.'' \<notin> set (dec n)" by blast+
  qed
  have chars: "\<forall>c \<in> set stem. c \<noteq> CHR ''/''" "\<forall>c \<in> set stem. c \<noteq> CHR ''.''" "stem \<noteq> []"
    using plain [of wall] plain [of event_id] by (auto simp: stem_def)
  have "rev (dir @ ''/'' @ event_file wall event_id) = suffix @ CHR ''/'' # rev dir"
    by (simp add: event_file_def suffix_def stem_def)
  moreover have "\<forall>c \<in> set suffix. c \<noteq> CHR ''/''" using chars(1) by (auto simp: suffix_def)
  ultimately have "takeWhile (\<lambda>c. c \<noteq> CHR ''/'') (rev (dir @ ''/'' @ event_file wall event_id)) = suffix"
    by (simp add: takeWhile_append2)
  then have name: "rev (takeWhile (\<lambda>c. c \<noteq> CHR ''/'') (rev (dir @ ''/'' @ event_file wall event_id))) = stem @ ''.h264''"
    by (simp add: suffix_def)
  have "CHR ''.'' \<in> set (tl (stem @ ''.h264''))" using chars(3) by (cases stem) simp_all
  moreover have "dropWhile (\<lambda>c. c \<noteq> CHR ''.'') (rev (stem @ ''.h264'')) = CHR ''.'' # rev stem" by simp
  ultimately show ?thesis unfolding file_stem_def Let_def name stem_def [symmetric] by simp
qed

lemma dec_value: "foldl (\<lambda>a c. 10 * a + digit_value c) 0 (dec n) = n"
proof (induction n rule: dec.induct)
  case (1 n)
  show ?case
  proof (cases "n < 10")
    case True
    then show ?thesis using digit_value_nth [of n] by (subst dec.simps) (simp del: nth_Cons_numeral)
  next
    case False
    then show ?thesis using 1 digit_value_nth [of "n mod 10"] by (subst dec.simps) (simp del: nth_Cons_numeral)
  qed
qed

lemma dec_prefix_inj:
  assumes "\<not> is_digit c" and "dec m @ c # xs = dec n @ c # ys"
  shows "m = n \<and> xs = ys"
proof -
  have split: "takeWhile is_digit (dec k @ c # zs) = dec k" for k zs
    using dec_digits [of k] assms(1) by (simp add: takeWhile_append2)
  from assms(2) have "takeWhile is_digit (dec m @ c # xs) = takeWhile is_digit (dec n @ c # ys)" by simp
  then have same: "dec m = dec n" unfolding split .
  have "m = foldl (\<lambda>a c. 10 * a + digit_value c) 0 (dec m)" by (rule dec_value [symmetric])
  also have "\<dots> = n" unfolding same by (rule dec_value)
  finally show ?thesis using assms(2) same by simp
qed

lemma strip_digits_dec: "\<not> is_digit c \<Longrightarrow> strip_digits (dec n @ c # s) = Some (c # s)"
  using dec_digits [of n] by (cases "dec n") (auto simp: strip_digits_def dropWhile_append)

text \<open>The storage recognizes every file the recorder creates: whatever the wall clock and the number of
  the event, the name matches the pattern that makes the file count against the budget and eligible for
  eviction.\<close>

theorem recorder_names_recognized: "event_name (event_file wall event_id)"
proof -
  have dash: "\<not> is_digit (CHR ''-'')" "\<not> is_digit (CHR ''.'')" by (simp_all add: is_digit_def)
  have "event_file wall event_id = ''event-'' @ (dec wall @ CHR ''-'' # (dec event_id @ CHR ''.'' # ''h264''))"
    by (simp add: event_file_def)
  then show ?thesis
    unfolding event_name_def
    by (simp only: strip_prefix_append bind.bind_lunit strip_digits_dec [OF dash(1)] strip_digits_dec [OF dash(2)])
      (simp add: strip_digits_dec dash)
qed

end
