(* ===== verification/ReplayCache.thy ===== *)
theory ReplayCache
  imports Prelude
begin

text \<open>
  The bounded cache of replies that \<open>app/VisionPipeline.cpp\<close> keeps for repeated requests (\<open>cacheReply\<close>), as a
  component of its own: a map and the queue of its keys in the order in which they were added. The locale
  states what its user may rely on.
\<close>

section \<open>The interface\<close>

text \<open>
  A cache with a capacity and first-in first-out eviction: a new key goes to the end of the order, and
  evicts the first one when the cache is full; an old key keeps its place.
\<close>

locale fifo_cache =
  fixes put :: "'k \<Rightarrow> 'v \<Rightarrow> 's \<Rightarrow> 's"
    and get :: "'s \<Rightarrow> 'k \<Rightarrow> 'v option"
    and order :: "'s \<Rightarrow> 'k list"
    and inv :: "'s \<Rightarrow> bool"
    and capacity :: nat
  assumes capacity_pos: "0 < capacity"
    and inv_put: "inv s \<Longrightarrow> inv (put k v s)"
    and get_put: "inv s \<Longrightarrow> get (put k v s) k = Some v"
    and get_put_other: "inv s \<Longrightarrow> k' \<noteq> k \<Longrightarrow> k' \<in> set (order (put k v s)) \<Longrightarrow> get (put k v s) k' = get s k'"
    and get_order: "inv s \<Longrightarrow> get s k \<noteq> None \<longleftrightarrow> k \<in> set (order s)"
    and order_old: "inv s \<Longrightarrow> k \<in> set (order s) \<Longrightarrow> order (put k v s) = order s"
    and order_new: "inv s \<Longrightarrow> k \<notin> set (order s) \<Longrightarrow>
          order (put k v s) = (if length (order s) < capacity then order s else tl (order s)) @ [k]"
begin

fun put_all :: "('k \<times> 'v) list \<Rightarrow> 's \<Rightarrow> 's" where
  "put_all [] s = s"
| "put_all ((k, v) # kvs) s = put_all kvs (put k v s)"

lemma put_all_inv: "inv s \<Longrightarrow> inv (put_all kvs s)"
  by (induction kvs s rule: put_all.induct) (simp_all add: inv_put)

text \<open>
  A key with \<open>n\<close> younger ones behind it survives every sequence of additions, of whatever keys other than
  it, with which it still has fewer than \<open>capacity\<close> younger ones.
\<close>

lemma put_keeps:
  assumes "inv s" and "order s = pre @ k # post" and "k' \<noteq> k" and "length post + 1 < capacity"
  shows "\<exists>pre' post'. order (put k' v s) = pre' @ k # post' \<and> length post' \<le> length post + 1"
    and "get (put k' v s) k = get s k"
proof -
  show first: "\<exists>pre' post'. order (put k' v s) = pre' @ k # post' \<and> length post' \<le> length post + 1"
  proof (cases "k' \<in> set (order s)")
    case True
    with assms(1,2) show ?thesis using order_old by fastforce
  next
    case False
    have new: "order (put k' v s) = (if length (order s) < capacity then order s else tl (order s)) @ [k']"
      by (rule order_new [OF assms(1) False])
    show ?thesis
    proof (cases "length (order s) < capacity")
      case True
      with new assms(2) show ?thesis by (intro exI [of _ pre] exI [of _ "post @ [k']"]) simp
    next
      case False
      with assms(2,4) have "pre \<noteq> []" by auto
      with new assms(2) False show ?thesis by (intro exI [of _ "tl pre"] exI [of _ "post @ [k']"]) simp
    qed
  qed
  then have "k \<in> set (order (put k' v s))" by auto
  with assms(1,3) show "get (put k' v s) k = get s k" by (simp add: get_put_other)
qed

lemma survives:
  assumes "inv s" and "order s = pre @ k # post" and "length post + length kvs < capacity" and "k \<notin> fst ` set kvs"
  shows "get (put_all kvs s) k = get s k"
  using assms
proof (induction kvs arbitrary: s pre post)
  case (Cons kv kvs)
  obtain k' v where kv: "kv = (k', v)" by fastforce
  have "k' \<noteq> k" using Cons.prems(4) kv by auto
  moreover have "length post + 1 < capacity \<or> kvs = []" using Cons.prems(3) by (cases kvs) auto
  ultimately show ?case
  proof (elim disjE)
    assume "k' \<noteq> k" and short: "length post + 1 < capacity"
    note keeps = put_keeps [OF Cons.prems(1,2) \<open>k' \<noteq> k\<close> short, of v]
    then obtain pre' post' where order: "order (put k' v s) = pre' @ k # post'" "length post' \<le> length post + 1" by blast
    have "length post' + length kvs < capacity" using order(2) Cons.prems(3) by simp
    from Cons.IH [OF inv_put [OF Cons.prems(1)] order(1) this] Cons.prems(4) keeps(2) show ?thesis by (simp add: kv)
  next
    assume "k' \<noteq> k" and "kvs = []"
    have short: "length post + 1 < capacity" using Cons.prems(3) \<open>kvs = []\<close> by simp
    show ?thesis using put_keeps(2) [OF Cons.prems(1,2) \<open>k' \<noteq> k\<close> short, of v] by (simp add: kv \<open>kvs = []\<close>)
  qed
qed simp

text \<open>In particular the key that was put last survives \<open>capacity - 1\<close> others.\<close>

lemma order_put_last:
  assumes "inv s" and "k \<notin> set (order s)"
  shows "\<exists>pre. order (put k v s) = pre @ [k]"
  using order_new [OF assms] by blast

end

section \<open>The cache of the pipeline\<close>

record 'v reply_cache =
  rp_replies :: "string \<rightharpoonup> 'v"
  rp_order :: "string list"

definition empty_cache :: "'v reply_cache" where
  "empty_cache = \<lparr>rp_replies = Map.empty, rp_order = []\<rparr>"

definition cacheReply :: "string \<Rightarrow> 'v \<Rightarrow> 'v reply_cache \<Rightarrow> 'v reply_cache" where
  "cacheReply key reply c =
     (let c1 = (if rp_replies c key = None then
                  let c0 = (if 128 \<le> length (rp_order c)
                            then c\<lparr>rp_replies := (rp_replies c)(hd (rp_order c) := None), rp_order := tl (rp_order c)\<rparr>
                            else c)
                  in c0\<lparr>rp_order := rp_order c0 @ [key]\<rparr>
                else c)
      in c1\<lparr>rp_replies := (rp_replies c1)(key \<mapsto> reply)\<rparr>)"

definition cache_ok :: "'v reply_cache \<Rightarrow> bool" where
  "cache_ok c \<longleftrightarrow> distinct (rp_order c) \<and> dom (rp_replies c) = set (rp_order c) \<and> length (rp_order c) \<le> 128"

lemma cache_ok_empty [simp]: "cache_ok empty_cache"
  by (simp add: cache_ok_def empty_cache_def)

lemma rp_order_cacheReply:
  "rp_order (cacheReply k v c) =
     (if rp_replies c k \<noteq> None then rp_order c
      else (if length (rp_order c) < 128 then rp_order c else tl (rp_order c)) @ [k])"
  by (auto simp: cacheReply_def Let_def)

lemma rp_replies_cacheReply:
  "rp_replies (cacheReply k v c) k' =
     (if k' = k then Some v
      else if rp_replies c k = None \<and> 128 \<le> length (rp_order c) \<and> k' = hd (rp_order c) then None
      else rp_replies c k')"
  by (auto simp: cacheReply_def Let_def)

lemma in_dom: "cache_ok c \<Longrightarrow> k \<in> set (rp_order c) \<longleftrightarrow> rp_replies c k \<noteq> None"
  by (auto simp: cache_ok_def dom_def set_eq_iff)

lemma cache_ok_cacheReply:
  assumes "cache_ok c"
  shows "cache_ok (cacheReply k v c)"
proof (cases "rp_replies c k = None \<and> \<not> length (rp_order c) < 128")
  case True
  with assms obtain x xs where order: "rp_order c = x # xs" by (cases "rp_order c") (auto simp: cache_ok_def)
  have dom: "dom (rp_replies c) = insert x (set xs)" and "distinct (x # xs)" "length xs \<le> 127" "k \<notin> insert x (set xs)"
    using assms True order in_dom [OF assms, of k] by (auto simp: cache_ok_def)
  moreover have "dom (rp_replies (cacheReply k v c)) = insert k (dom (rp_replies c) - {x})"
    using True order by (auto simp: rp_replies_cacheReply dom_def)
  ultimately show ?thesis using True order by (auto simp: cache_ok_def rp_order_cacheReply)
next
  case False
  have "dom (rp_replies (cacheReply k v c)) = insert k (dom (rp_replies c))"
    using False by (auto simp: rp_replies_cacheReply dom_def)
  with False assms in_dom [OF assms, of k] show ?thesis
    by (auto simp: cache_ok_def rp_order_cacheReply)
qed

interpretation replies: fifo_cache cacheReply rp_replies rp_order cache_ok 128
proof
  fix c :: "'v reply_cache" and k k' :: string and v :: 'v
  assume ok: "cache_ok c"
  show "cache_ok (cacheReply k v c)" by (rule cache_ok_cacheReply [OF ok])
  show "rp_replies (cacheReply k v c) k = Some v" by (simp add: rp_replies_cacheReply)
  show "rp_replies c k \<noteq> None \<longleftrightarrow> k \<in> set (rp_order c)" by (simp add: in_dom [OF ok])
  show "k \<in> set (rp_order c) \<Longrightarrow> rp_order (cacheReply k v c) = rp_order c"
    by (simp add: rp_order_cacheReply in_dom [OF ok])
  show "k \<notin> set (rp_order c) \<Longrightarrow> rp_order (cacheReply k v c) =
      (if length (rp_order c) < 128 then rp_order c else tl (rp_order c)) @ [k]"
    by (simp add: rp_order_cacheReply in_dom [OF ok])
  show "k' \<noteq> k \<Longrightarrow> k' \<in> set (rp_order (cacheReply k v c)) \<Longrightarrow>
      rp_replies (cacheReply k v c) k' = rp_replies c k'"
    using ok by (cases "rp_order c") (auto simp: rp_replies_cacheReply rp_order_cacheReply cache_ok_def split: if_splits)
qed simp

end
