(* ===== verification/Yolov5PostProcess.thy ===== *)
theory Yolov5PostProcess
  imports Json Float32
begin

text \<open>
  The decoding of the detector's output in \<open>hardware/rknpu_infer/Yolov5PostProcess.h\<close>: the letterbox
  geometry, the decoding of one grid cell, and the non-maximum suppression. Floats are rounded operation
  by operation (\<open>Float32\<close>); \<open>std::exp\<close>, the area and the intersection of OpenCV's \<open>cv::Rect\<close>, and the
  undefined result of a float-to-int cast out of range are arguments.
\<close>

section \<open>Geometry\<close>

record rect =
  rc_x :: int
  rc_y :: int
  rc_width :: int
  rc_height :: int

record detection =
  dt_class :: int
  dt_confidence :: fp
  dt_box :: rect

record letterbox =
  lb_width :: int
  lb_height :: int
  lb_resized_w :: int
  lb_resized_h :: int
  lb_left :: int
  lb_top :: int

definition fp_min :: "fp \<Rightarrow> fp \<Rightarrow> fp" where
  "fp_min a b = (if fp_less b a then b else a)"

abbreviation fp_of_int :: "int \<Rightarrow> fp" where
  "fp_of_int i \<equiv> to_float (of_int i)"

definition make_letterbox :: "(fp \<Rightarrow> int) \<Rightarrow> int \<Rightarrow> int \<Rightarrow> letterbox result" where
  "make_letterbox fc w h =
     (if w \<le> 0 \<or> h \<le> 0 then Inl (InvalidArgument ''invalid input size'')
      else
        let scale = fp_min (fp_div (Fin 640) (fp_of_int w)) (fp_div (Fin 640) (fp_of_int h));
            rw = max 1 (round_int fc (fp_mul (fp_of_int w) scale));
            rh = max 1 (round_int fc (fp_mul (fp_of_int h) scale))
        in Inr \<lparr>lb_width = w, lb_height = h, lb_resized_w = rw, lb_resized_h = rh,
                lb_left = (640 - rw) div 2, lb_top = (640 - rh) div 2\<rparr>)"

definition clamp :: "int \<Rightarrow> int \<Rightarrow> int \<Rightarrow> int" where
  "clamp v lo hi = (if v < lo then lo else if hi < v then hi else v)"

definition restore :: "(fp \<Rightarrow> int) \<Rightarrow> letterbox \<Rightarrow> fp \<Rightarrow> fp \<Rightarrow> fp \<Rightarrow> fp \<Rightarrow> rect" where
  "restore fc b x1 y1 x2 y2 =
     (let sx = fp_div (fp_of_int (lb_width b)) (fp_of_int (lb_resized_w b));
          sy = fp_div (fp_of_int (lb_height b)) (fp_of_int (lb_resized_h b));
          unmap = (\<lambda>v offset scale. round_int fc (fp_mul (fp_sub v (fp_of_int offset)) scale));
          l = clamp (unmap x1 (lb_left b) sx) 0 (lb_width b);
          t = clamp (unmap y1 (lb_top b) sy) 0 (lb_height b);
          r = clamp (unmap x2 (lb_left b) sx) 0 (lb_width b);
          bt = clamp (unmap y2 (lb_top b) sy) 0 (lb_height b)
      in \<lparr>rc_x = l, rc_y = t, rc_width = max 0 (r - l), rc_height = max 0 (bt - t)\<rparr>)"

section \<open>Non-maximum suppression\<close>

text \<open>What the code uses of \<open>cv::Rect\<close>: \<open>area()\<close> and the intersection \<open>a & b\<close>.\<close>

record cv_rect_ops =
  cv_area :: "rect \<Rightarrow> int"
  cv_meet :: "rect \<Rightarrow> rect \<Rightarrow> rect"

definition iou :: "cv_rect_ops \<Rightarrow> detection \<Rightarrow> detection \<Rightarrow> fp" where
  "iou cv a b =
     (let inter = rat_of_int (cv_area cv (cv_meet cv (dt_box a) (dt_box b)));
          area = of_int (cv_area cv (dt_box a)) + of_int (cv_area cv (dt_box b)) - inter
      in if 0 < area then to_float (to_double (inter / area)) else Fin 0)"

text \<open>
  Confidences are compared as floats. The order is total on the values that are not NaN, which is what
  \<open>std::sort\<close> needs; NaN is put last to make it total.
\<close>

fun fp_class :: "fp \<Rightarrow> int" where
  "fp_class NInf = 0"
| "fp_class (Fin r) = 1"
| "fp_class PInf = 2"
| "fp_class NaN = 3"

fun fp_finite_value :: "fp \<Rightarrow> rat" where
  "fp_finite_value (Fin r) = r"
| "fp_finite_value _ = 0"

instantiation fp :: linorder
begin

definition less_eq_fp :: "fp \<Rightarrow> fp \<Rightarrow> bool" where
  "a \<le> b \<longleftrightarrow> fp_class a < fp_class b \<or> fp_class a = fp_class b \<and> fp_finite_value a \<le> fp_finite_value b"

definition less_fp :: "fp \<Rightarrow> fp \<Rightarrow> bool" where
  "a < b \<longleftrightarrow> a \<le> b \<and> \<not> b \<le> (a :: fp)"

instance
proof
  fix x y z :: fp
  show "x \<le> y \<Longrightarrow> y \<le> x \<Longrightarrow> x = y" by (cases x; cases y) (auto simp: less_eq_fp_def)
qed (auto simp: less_eq_fp_def less_fp_def)

end

lemma fp_less_iff: "a \<noteq> NaN \<Longrightarrow> b \<noteq> NaN \<Longrightarrow> fp_less a b \<longleftrightarrow> a < b"
  by (cases a; cases b) (auto simp: less_eq_fp_def less_fp_def)

lemma Fin_le_iff [simp]: "Fin a \<le> Fin b \<longleftrightarrow> a \<le> b"
  by (simp add: less_eq_fp_def)

text \<open>
  The candidates by falling confidence. \<open>std::sort\<close> may order candidates of equal confidence in any
  way; here they are in the reverse of the order in which they were found.
\<close>

definition by_confidence :: "detection list \<Rightarrow> detection list" where
  "by_confidence ds = rev (sort_key dt_confidence ds)"

fun nms_loop :: "(detection \<Rightarrow> detection \<Rightarrow> fp) \<Rightarrow> fp \<Rightarrow> detection list \<Rightarrow> detection list \<Rightarrow> detection list" where
  "nms_loop overlap threshold [] out = out"
| "nms_loop overlap threshold (c # cs) out =
     (let suppressed = list_ex (\<lambda>kept. dt_class kept = dt_class c \<and> fp_less threshold (overlap kept c)) out;
          out1 = (if suppressed then out else out @ [c])
      in if length out1 = 100 then out1 else nms_loop overlap threshold cs out1)"

definition nms :: "(detection \<Rightarrow> detection \<Rightarrow> fp) \<Rightarrow> detection list \<Rightarrow> fp \<Rightarrow> detection list" where
  "nms overlap d threshold = nms_loop overlap threshold (take 1000 (by_confidence d)) []"

section \<open>Decoding\<close>

text \<open>What the code reads of \<open>rknn_tensor_attr\<close> and \<open>rknn_output\<close> (\<open>third_party/rknn_api.h\<close>).\<close>

datatype tensor_type = RKNN_TENSOR_INT8 | RKNN_TENSOR_UINT8 | OtherType
datatype tensor_qnt = RKNN_TENSOR_QNT_AFFINE_ASYMMETRIC | OtherQnt
datatype tensor_fmt = RKNN_TENSOR_NCHW | RKNN_TENSOR_NHWC | OtherFmt

record tensor_attr =
  at_n_dims :: nat
  at_dims :: "nat list"
  at_fmt :: tensor_fmt
  at_type :: tensor_type
  at_qnt_type :: tensor_qnt
  at_zp :: int
  at_scale :: fp

text \<open>An output: its size in bytes, and its buffer (if any) as floats and as bytes, by index.\<close>

record rknn_output =
  ro_size :: nat
  ro_buf :: "((nat \<Rightarrow> fp) \<times> (nat \<Rightarrow> byte)) option"

definition anchors :: "(int \<times> int) list list" where
  "anchors = [[(10, 13), (16, 30), (33, 23)], [(30, 61), (62, 45), (59, 119)], [(116, 90), (156, 198), (373, 326)]]"

definition activation :: "(fp \<Rightarrow> fp) \<Rightarrow> bool \<Rightarrow> fp \<Rightarrow> fp" where
  "activation ex logits x = (if logits then fp_div (Fin 1) (fp_add (Fin 1) (ex (fp_neg x))) else x)"

definition check_level :: "tensor_attr option \<Rightarrow> rknn_output \<Rightarrow> nat \<Rightarrow> unit result" where
  "check_level attr out hw =
     (if (case attr of None \<Rightarrow> False
          | Some a \<Rightarrow> (at_type a \<noteq> RKNN_TENSOR_INT8 \<and> at_type a \<noteq> RKNN_TENSOR_UINT8) \<or>
              at_qnt_type a \<noteq> RKNN_TENSOR_QNT_AFFINE_ASYMMETRIC \<or>
              \<not> fp_finite (at_scale a) \<or> fp_le (at_scale a) (Fin 0))
      then Inl (RuntimeError ''unsupported YOLO quantization'')
      else if ro_buf out = None \<or> ro_size out < 255 * hw * (if attr = None then 4 else 1)
      then Inl (RuntimeError ''invalid YOLO output buffer'')
      else Inr ())"

definition read_value :: "tensor_attr option \<Rightarrow> (nat \<Rightarrow> fp) \<times> (nat \<Rightarrow> byte) \<Rightarrow> nat \<Rightarrow> fp" where
  "read_value attr buf index =
     (case attr of
        None \<Rightarrow> fst buf index
      | Some a \<Rightarrow>
          let value = (if at_type a = RKNN_TENSOR_INT8 then sint (snd buf index) else uint (snd buf index))
          in fp_mul (fp_of_int (value - at_zp a)) (at_scale a))"

text \<open>The best class and its score, classes \<open>c\<close> and on.\<close>

fun best_class :: "(nat \<Rightarrow> fp) \<Rightarrow> nat list \<Rightarrow> fp \<Rightarrow> nat \<Rightarrow> fp \<times> nat" where
  "best_class v [] score cls = (score, cls)"
| "best_class v (c # cs) score cls =
     (if fp_less score (v c) then best_class v cs (v c) c else best_class v cs score cls)"

abbreviation outside01 :: "fp \<Rightarrow> bool" where
  "outside01 v \<equiv> fp_less v (Fin 0) \<or> fp_less (Fin 1) v"

text \<open>The box of a cell, from the four activated coordinates.\<close>

definition cell_box :: "(fp \<Rightarrow> int) \<Rightarrow> letterbox \<Rightarrow> nat \<Rightarrow> nat \<Rightarrow> nat \<Rightarrow> fp \<Rightarrow> fp \<Rightarrow> fp \<Rightarrow> fp \<Rightarrow> rect" where
  "cell_box fc b level a cell tx ty tw th =
     (let stride = 8 * 2 ^ level; grid = 640 div stride;
          centre = (\<lambda>t k. fp_mul (fp_add (fp_sub (fp_mul t (Fin 2)) (Fin (1 / 2))) (fp_of_int (int k)))
                          (fp_of_int (int stride)));
          extent = (\<lambda>t n. fp_mul (fp_mul (fp_mul (Fin 4) t) t) (fp_of_int n));
          cx = centre tx (cell mod grid); cy = centre ty (cell div grid);
          w = extent tw (fst (anchors ! level ! a)); h = extent th (snd (anchors ! level ! a));
          half = (\<lambda>v. fp_div v (Fin 2))
      in restore fc b (fp_sub cx (half w)) (fp_sub cy (half h)) (fp_add cx (half w)) (fp_add cy (half h)))"

text \<open>The body of the innermost loop; \<open>None\<close> is \<open>continue\<close>, or a box without area.\<close>

definition decode_cell ::
  "cv_rect_ops \<Rightarrow> (fp \<Rightarrow> int) \<Rightarrow> letterbox \<Rightarrow> fp \<Rightarrow> bool \<Rightarrow> (fp \<Rightarrow> fp) \<Rightarrow> (nat \<Rightarrow> fp) \<Rightarrow> nat \<Rightarrow> nat \<Rightarrow> nat \<Rightarrow>
     detection option result" where
  "decode_cell cv fc b threshold logits act rd level a cell =
     (let stride = 8 * 2 ^ level; grid = 640 div stride; hw = grid * grid;
          offset = a * 85 * hw + cell;
          objectness = act (rd (offset + 4 * hw))
      in if \<not> fp_finite objectness then Inr None
      else if \<not> logits \<and> (fp_less objectness (to_float (- 1 / 1000)) \<or> fp_less (to_float (1001 / 1000)) objectness)
      then Inl (RuntimeError ''YOLO objectness is not a probability; select logits for this export'')
      else if fp_less objectness threshold then Inr None
      else
        let (score, cls) = best_class (\<lambda>c. act (rd (offset + (5 + c) * hw))) [0..<80] (Fin 0) 0;
            confidence = fp_mul score objectness
        in if \<not> fp_finite confidence \<or> fp_less confidence threshold then Inr None
        else if fp_less (to_float (1001 / 1000)) confidence
        then Inl (RuntimeError ''YOLO activation mismatch; check config/model export'')
        else
          let tx = act (rd offset); ty = act (rd (offset + hw));
              tw = act (rd (offset + 2 * hw)); th = act (rd (offset + 3 * hw))
          in if \<not> fp_finite (fp_add (fp_add (fp_add tx ty) tw) th) \<or> outside01 tx \<or> outside01 ty \<or>
               outside01 tw \<or> outside01 th
          then Inl (RuntimeError ''YOLO coordinates outside normalized range; check output_activation'')
          else
            let box = cell_box fc b level a cell tx ty tw th
            in if 0 < cv_area cv box
               then Inr (Some \<lparr>dt_class = int cls, dt_confidence = confidence, dt_box = box\<rparr>)
               else Inr None)"

fun collect :: "('a \<Rightarrow> 'b option result) \<Rightarrow> 'a list \<Rightarrow> 'b list result" where
  "collect f [] = Inr []"
| "collect f (x # xs) =
     bind_result (f x) (\<lambda>y. bind_result (collect f xs) (\<lambda>ys. Inr (case y of None \<Rightarrow> ys | Some d \<Rightarrow> d # ys)))"

definition decode_level ::
  "cv_rect_ops \<Rightarrow> (fp \<Rightarrow> int) \<Rightarrow> (fp \<Rightarrow> fp) \<Rightarrow> rknn_output list \<Rightarrow> letterbox \<Rightarrow> fp \<Rightarrow> bool \<Rightarrow>
     tensor_attr list option \<Rightarrow> nat \<Rightarrow> detection list result" where
  "decode_level cv fc ex outputs b threshold logits quantization level =
     (let grid = 640 div (8 * 2 ^ level); hw = grid * grid;
          attr = map_option (\<lambda>q. q ! level) quantization;
          out = outputs ! level
      in bind_result (check_level attr out hw) (\<lambda>_.
           collect (\<lambda>(a, cell). decode_cell cv fc b threshold logits (activation ex logits)
                                   (read_value attr (the (ro_buf out))) level a cell)
             [(a, cell). a \<leftarrow> [0..<3], cell \<leftarrow> [0..<hw]]))"

definition process ::
  "cv_rect_ops \<Rightarrow> (fp \<Rightarrow> int) \<Rightarrow> (fp \<Rightarrow> fp) \<Rightarrow> rknn_output list \<Rightarrow> letterbox \<Rightarrow> fp \<Rightarrow> fp \<Rightarrow> bool \<Rightarrow>
     tensor_attr list option \<Rightarrow> detection list result" where
  "process cv fc ex outputs b threshold nms_threshold logits quantization =
     (let level = decode_level cv fc ex outputs b threshold logits quantization
      in bind_result (level 0) (\<lambda>c0. bind_result (level 1) (\<lambda>c1. bind_result (level 2) (\<lambda>c2.
           Inr (nms (iou cv) (c0 @ c1 @ c2) nms_threshold)))))"

section \<open>Drawing\<close>

text \<open>
  What \<open>draw\<close> asks of OpenCV, in this order. \<open>show_float\<close> is \<open>std::to_string\<close> of a \<open>float\<close>; the label has the
  first four characters of it.
\<close>

datatype draw_call = Rectangle rect "int \<times> int \<times> int" int | PutText string int int "int \<times> int \<times> int"

definition draw :: "(int \<Rightarrow> string) \<Rightarrow> (fp \<Rightarrow> string) \<Rightarrow> detection list \<Rightarrow> draw_call list" where
  "draw show_int show_float ds =
     concat (map (\<lambda>d. [Rectangle (dt_box d) (0, 255, 0) 2,
       PutText (show_int (dt_class d) @ '':'' @ take 4 (show_float (dt_confidence d)))
         (rc_x (dt_box d)) (rc_y (dt_box d)) (0, 255, 0)]) ds)"

section \<open>Suppression\<close>

text \<open>
  \<open>suppresses overlap th k c\<close>: the kept box \<open>k\<close> is the reason that \<open>c\<close> is not kept.
\<close>

definition suppresses :: "(detection \<Rightarrow> detection \<Rightarrow> fp) \<Rightarrow> fp \<Rightarrow> detection \<Rightarrow> detection \<Rightarrow> bool" where
  "suppresses overlap th k c \<longleftrightarrow> dt_class k = dt_class c \<and> fp_less th (overlap k c)"

lemma nms_loop_prefix: "\<exists>new. nms_loop overlap th cs out = out @ new \<and> subseq new cs"
proof (induction cs arbitrary: out)
  case (Cons c cs)
  from Cons [of out] Cons [of "out @ [c]"] show ?case
    by (auto simp: Let_def split: if_splits intro: exI [of _ "[c]"])
qed simp

lemma nms_loop_length: "length out < 100 \<Longrightarrow> length (nms_loop overlap th cs out) \<le> 100"
  by (induction cs arbitrary: out) (auto simp: Let_def)

lemma nms_loop_separated:
  "sorted_wrt (\<lambda>k c. \<not> suppresses overlap th k c) out \<Longrightarrow>
     sorted_wrt (\<lambda>k c. \<not> suppresses overlap th k c) (nms_loop overlap th cs out)"
proof (induction cs arbitrary: out)
  case (Cons c cs)
  have "sorted_wrt (\<lambda>k c. \<not> suppresses overlap th k c) (out @ [c])"
    if "\<not> list_ex (\<lambda>kept. dt_class kept = dt_class c \<and> fp_less th (overlap kept c)) out"
    using that Cons.prems by (auto simp: sorted_wrt_append list_ex_iff suppresses_def)
  with Cons show ?case by (simp add: Let_def)
qed simp

lemma nms_loop_complete:
  assumes "length (nms_loop overlap th cs out) < 100" and "c \<in> set cs"
  shows "c \<in> set (nms_loop overlap th cs out) \<or>
         (\<exists>pre post k. cs = pre @ c # post \<and> k \<in> set (nms_loop overlap th cs out) \<and>
            k \<in> set out \<union> set pre \<and> suppresses overlap th k c)"
  using assms
proof (induction cs arbitrary: out)
  case (Cons x xs)
  let ?sup = "list_ex (\<lambda>kept. dt_class kept = dt_class x \<and> fp_less th (overlap kept x)) out"
  define out1 where "out1 = (if ?sup then out else out @ [x])"
  have loop: "nms_loop overlap th (x # xs) out = nms_loop overlap th xs out1" and less: "length out1 \<noteq> 100"
    using Cons.prems(1) by (auto simp: out1_def Let_def split: if_splits)
  obtain new where new: "nms_loop overlap th xs out1 = out1 @ new" using nms_loop_prefix by blast
  show ?case
  proof (cases "c = x")
    case True
    show ?thesis
    proof (cases ?sup)
      case True
      then obtain k where "k \<in> set out" "suppresses overlap th k x" by (auto simp: list_ex_iff suppresses_def)
      with \<open>c = x\<close> True new loop show ?thesis
        unfolding out1_def by (intro disjI2 exI [of _ "[]"] exI [of _ xs] exI [of _ k]) auto
    next
      case False
      with \<open>c = x\<close> new loop show ?thesis by (simp add: out1_def)
    qed
  next
    case False
    with Cons.prems(2) have c: "c \<in> set xs" by simp
    have "length (nms_loop overlap th xs out1) < 100" using Cons.prems(1) unfolding loop .
    from Cons.IH [OF this c] show ?thesis
    proof (elim disjE)
      assume "c \<in> set (nms_loop overlap th xs out1)"
      then show ?thesis unfolding loop ..
    next
      assume "\<exists>pre post k. xs = pre @ c # post \<and> k \<in> set (nms_loop overlap th xs out1) \<and>
            k \<in> set out1 \<union> set pre \<and> suppresses overlap th k c"
      then obtain pre post k where "xs = pre @ c # post" "k \<in> set (nms_loop overlap th xs out1)"
          "k \<in> set out1 \<union> set pre" "suppresses overlap th k c" by blast
      then show ?thesis unfolding loop
        by (intro disjI2 exI [of _ "x # pre"] exI [of _ post] exI [of _ k])
          (auto simp: out1_def split: if_splits)
    qed
  qed
qed simp

lemma by_confidence_desc: "sorted_wrt (\<lambda>a b. dt_confidence b \<le> dt_confidence a) (by_confidence ds)"
  unfolding by_confidence_def sorted_wrt_rev
  using sorted_sort_key [of dt_confidence ds] by (simp add: sorted_wrt_map)

lemma sorted_wrt_subseq: "subseq xs ys \<Longrightarrow> sorted_wrt P ys \<Longrightarrow> sorted_wrt P xs"
  by (induction rule: list_emb.induct) (auto dest: list_emb_set)

text \<open>C34: Non-maximum suppression returns at most 100 detections, each of them one of the 1000 most confident
  candidates, in the order of falling confidence; no detection is kept whose overlap with a more confident
  kept one of its class exceeds the threshold; and unless 100 were kept, every other one of the top
  candidates overlaps too much with a kept one of its class that is at least as confident. This holds for
  any function that computes the overlap.\<close>

theorem nms_sound:
  "let top_k = take 1000 (by_confidence ds); out = nms overlap ds th
   in subseq out top_k \<and> length out \<le> 100 \<and> mset (by_confidence ds) = mset ds \<and>
      sorted_wrt (\<lambda>a b. dt_confidence b \<le> dt_confidence a) out \<and>
      sorted_wrt (\<lambda>k c. \<not> suppresses overlap th k c) out \<and>
      (length out < 100 \<longrightarrow> (\<forall>c \<in> set top_k. c \<in> set out \<or>
         (\<exists>k \<in> set out. suppresses overlap th k c \<and> dt_confidence c \<le> dt_confidence k)))"
proof -
  define tk where "tk = take 1000 (by_confidence ds)"
  have tk_desc: "sorted_wrt (\<lambda>a b. dt_confidence b \<le> dt_confidence a) tk"
    unfolding tk_def by (rule sorted_wrt_take [OF by_confidence_desc])
  have out: "nms overlap ds th = nms_loop overlap th tk []" by (simp add: nms_def tk_def)
  have sub: "subseq (nms_loop overlap th tk []) tk" using nms_loop_prefix [of overlap th tk "[]"] by auto
  have covered: "c \<in> set (nms_loop overlap th tk []) \<or>
      (\<exists>k \<in> set (nms_loop overlap th tk []). suppresses overlap th k c \<and> dt_confidence c \<le> dt_confidence k)"
    if few: "length (nms_loop overlap th tk []) < 100" and c: "c \<in> set tk" for c
    using nms_loop_complete [OF few c] tk_desc by (auto simp: sorted_wrt_append)
  have "mset (by_confidence ds) = mset ds" by (simp add: by_confidence_def)
  then show ?thesis
    unfolding Let_def out
    using sub nms_loop_length [of "[]" overlap th tk] sorted_wrt_subseq [OF sub tk_desc]
      nms_loop_separated [of overlap th "[]" tk] covered
    by (simp flip: tk_def)
qed

section \<open>Decoded detections\<close>

lemma clamp_range: "lo \<le> hi \<Longrightarrow> lo \<le> clamp v lo hi \<and> clamp v lo hi \<le> hi"
  by (simp add: clamp_def)

lemma restore_inside:
  assumes "0 \<le> lb_width b" and "0 \<le> lb_height b"
  shows "0 \<le> rc_x (restore fc b x1 y1 x2 y2) \<and> 0 \<le> rc_y (restore fc b x1 y1 x2 y2) \<and>
         rc_x (restore fc b x1 y1 x2 y2) + rc_width (restore fc b x1 y1 x2 y2) \<le> lb_width b \<and>
         rc_y (restore fc b x1 y1 x2 y2) + rc_height (restore fc b x1 y1 x2 y2) \<le> lb_height b"
  using clamp_range [OF assms(1)] clamp_range [OF assms(2)]
  by (simp add: restore_def Let_def max_def add.commute)

lemma best_class_range: "list_all (\<lambda>c. c < n) cs \<Longrightarrow> cls < n \<Longrightarrow> snd (best_class v cs score cls) < n"
  by (induction cs arbitrary: score cls) auto

text \<open>What the caller may rely on for one detection.\<close>

definition detection_ok :: "cv_rect_ops \<Rightarrow> letterbox \<Rightarrow> fp \<Rightarrow> detection \<Rightarrow> bool" where
  "detection_ok cv b threshold d \<longleftrightarrow>
     0 \<le> dt_class d \<and> dt_class d < 80 \<and>
     fp_finite (dt_confidence d) \<and> \<not> fp_less (dt_confidence d) threshold \<and>
     \<not> fp_less (to_float (1001 / 1000)) (dt_confidence d) \<and> 0 < cv_area cv (dt_box d) \<and>
     0 \<le> rc_x (dt_box d) \<and> 0 \<le> rc_y (dt_box d) \<and>
     rc_x (dt_box d) + rc_width (dt_box d) \<le> lb_width b \<and>
     rc_y (dt_box d) + rc_height (dt_box d) \<le> lb_height b"

lemma guards_passed:
  "(if P then Inr None else X) = (Inr (Some d) :: 'e + 'a option) \<longleftrightarrow> \<not> P \<and> X = Inr (Some d)"
  "(if P then Inl err else X) = (Inr (Some d) :: 'e + 'a option) \<longleftrightarrow> \<not> P \<and> X = Inr (Some d)"
  "(if P then Inr (Some d') else Inr None) = (Inr (Some d) :: 'e + 'a option) \<longleftrightarrow> P \<and> d = d'"
  by auto

lemma decode_cell_ok:
  assumes "decode_cell cv fc b threshold logits act rd level a cell = Inr (Some d)"
    and "0 \<le> lb_width b" and "0 \<le> lb_height b"
  shows "detection_ok cv b threshold d"
proof -
  let ?hw = "640 div (8 * 2 ^ level) * (640 div (8 * 2 ^ level))"
  let ?offset = "a * 85 * ?hw + cell"
  define best where "best = best_class (\<lambda>c. act (rd (?offset + (5 + c) * ?hw))) [0..<80] (Fin 0) 0"
  have cls: "snd best < 80" unfolding best_def by (rule best_class_range) (simp_all add: list_all_iff)
  from assms(1) have "\<exists>conf x1 y1 x2 y2. fp_finite conf \<and> \<not> fp_less conf threshold \<and>
      \<not> fp_less (to_float (1001 / 1000)) conf \<and> 0 < cv_area cv (restore fc b x1 y1 x2 y2) \<and>
      d = \<lparr>dt_class = int (snd best), dt_confidence = conf, dt_box = restore fc b x1 y1 x2 y2\<rparr>"
    unfolding decode_cell_def Let_def split_beta guards_passed de_Morgan_disj not_not best_def cell_box_def
    by (elim conjE, intro exI conjI)
  with cls restore_inside [OF assms(2,3)] show ?thesis by (auto simp: detection_ok_def)
qed

lemma collect_all:
  "collect f xs = Inr ys \<Longrightarrow> (\<And>x d. f x = Inr (Some d) \<Longrightarrow> P d) \<Longrightarrow> \<forall>d \<in> set ys. P d"
  by (induction xs arbitrary: ys) (auto simp: bind_result_Inr split: option.splits)

lemma decode_level_ok:
  assumes "decode_level cv fc ex outputs b threshold logits q level = Inr ds"
    and "0 \<le> lb_width b" and "0 \<le> lb_height b"
  shows "\<forall>d \<in> set ds. detection_ok cv b threshold d"
proof -
  let ?cells = "[(a, cell). a \<leftarrow> [0..<3], cell \<leftarrow> [0..<640 div (8 * 2 ^ level) * (640 div (8 * 2 ^ level))]]"
  from assms(1) obtain rd where
      "collect (\<lambda>(a, cell). decode_cell cv fc b threshold logits (activation ex logits) rd level a cell) ?cells = Inr ds"
    unfolding decode_level_def Let_def bind_result_Inr by blast
  then show ?thesis by (rule collect_all) (auto dest: decode_cell_ok [OF _ assms(2,3)])
qed

text \<open>Whatever the tensors hold, when \<open>process\<close> returns, it returns at most 100 detections, each with a
  class below 80, a finite confidence that reaches the threshold and is at most 1.001, and a box with an
  area that lies inside the camera image; otherwise it throws.\<close>

theorem detections_valid:
  assumes "process cv fc ex outputs b threshold nms_threshold logits quantization = Inr ds"
    and "0 \<le> lb_width b" and "0 \<le> lb_height b"
  shows "length ds \<le> 100 \<and> (\<forall>d \<in> set ds. detection_ok cv b threshold d)"
proof -
  from assms(1) obtain c0 c1 c2 where
      c: "decode_level cv fc ex outputs b threshold logits quantization 0 = Inr c0"
         "decode_level cv fc ex outputs b threshold logits quantization 1 = Inr c1"
         "decode_level cv fc ex outputs b threshold logits quantization 2 = Inr c2"
      and ds: "ds = nms (iou cv) (c0 @ c1 @ c2) nms_threshold"
    by (auto simp: process_def Let_def bind_result_Inr)
  have ok: "\<forall>d \<in> set (c0 @ c1 @ c2). detection_ok cv b threshold d"
    using c [THEN decode_level_ok, OF assms(2,3)] by auto
  obtain sub where "ds = sub" "subseq sub (take 1000 (by_confidence (c0 @ c1 @ c2)))"
    using nms_loop_prefix [of "iou cv" nms_threshold "take 1000 (by_confidence (c0 @ c1 @ c2))" "[]"] ds
    by (auto simp: nms_def)
  then have "set ds \<subseteq> set (take 1000 (by_confidence (c0 @ c1 @ c2)))" by (auto dest: list_emb_set)
  also have "\<dots> \<subseteq> set (by_confidence (c0 @ c1 @ c2))" by (rule set_take_subset)
  also have "\<dots> = set (c0 @ c1 @ c2)" by (auto simp: by_confidence_def)
  finally show ?thesis using ok nms_loop_length [of "[]"] ds by (auto simp: nms_def)
qed

section \<open>The letterbox fits the model's input\<close>

text \<open>\<open>near r v\<close>: \<open>v\<close> is \<open>r\<close> up to a relative error of \<open>2 powi -24\<close>, one rounding.\<close>

abbreviation eps :: rat where "eps \<equiv> 1 / 16777216"

lemma rounded_once:
  assumes "1 / 2 ^ 100 \<le> r" and "r \<le> 2 ^ 100"
  obtains v where "to_float r = Fin v" and "r * (1 - eps) \<le> v" and "v \<le> r * (1 + eps)"
proof -
  have r: "0 \<le> r" using assms(1) by (rule order_trans [rotated]) simp
  have "(2 :: rat) powi - 126 \<le> 1 / 2 ^ 100" by (simp add: power_int_minus)
  then have lo: "2 powi - 126 \<le> \<bar>r\<bar>" using assms(1) r by (simp only: abs_of_nonneg)
  have "(2 :: rat) ^ 100 \<le> 2 powi 127" by (simp add: power_int_def)
  then have hi: "\<bar>r\<bar> \<le> 2 powi 127" using assms(2) r by (simp only: abs_of_nonneg)
  obtain v where v: "to_float r = Fin v" "\<bar>v - r\<bar> \<le> \<bar>r\<bar> * 2 powi - 24" using to_float_error [OF lo hi] .
  have "(2 :: rat) powi - 24 = eps" by (simp add: power_int_minus)
  with v(2) r have "\<bar>v - r\<bar> \<le> r * eps" by (simp only: abs_of_nonneg)
  then have "v - r \<le> r * eps" "- (v - r) \<le> r * eps" by (simp_all only: abs_le_iff)
  then have "r * (1 - eps) \<le> v" "v \<le> r * (1 + eps)" unfolding right_diff_distrib distrib_left by linarith+
  with v(1) show thesis by (rule that)
qed

lemma round_away_le: "v < of_int k + 1 / 2 \<Longrightarrow> 0 \<le> v \<Longrightarrow> round_away v \<le> k"
  unfolding round_away_def by simp linarith

lemma round_away_eq: "of_int k - 1 / 2 \<le> v \<Longrightarrow> v < of_int k + 1 / 2 \<Longrightarrow> 0 \<le> v \<Longrightarrow> round_away v = k"
  unfolding round_away_def by simp linarith

text \<open>
  One side of the image, in floats: its length \<open>n\<close>, the scale \<open>640 / n\<close> that would fit it, and what
  it measures under a scale \<open>s\<close> that is at most that one.
\<close>

lemma side_scale:
  assumes "0 < n" and "n < 2 ^ 31"
  obtains N A where "fp_of_int n = Fin N" and "fp_div (Fin 640) (fp_of_int n) = Fin A"
    and "640 * (1 - eps) \<le> N * A" and "N * A \<le> 640 * (1 + eps)"
    and "1 / 2 \<le> N" and "N \<le> 2 ^ 32" and "1 / 2 ^ 30 \<le> A" and "A \<le> 2 ^ 30"
proof -
  have n: "1 \<le> (of_int n :: rat)" "(of_int n :: rat) \<le> 2 ^ 31"
    using assms of_int_le_iff [where 'a = rat, of n "2 ^ 31"] by simp_all
  obtain N where N: "to_float (of_int n) = Fin N" "of_int n * (1 - eps) \<le> N" "N \<le> of_int n * (1 + eps)"
    by (rule rounded_once [of "of_int n"]) (use n in auto)
  have N': "1 / 2 \<le> N" "N \<le> 2 ^ 32" using N(2,3) n by simp_all
  have q: "1 / 2 ^ 29 \<le> 640 / N" "640 / N \<le> 2 ^ 29" using N' by (simp_all add: field_simps)
  obtain A where A: "to_float (640 / N) = Fin A" "640 / N * (1 - eps) \<le> A" "A \<le> 640 / N * (1 + eps)"
    by (rule rounded_once [of "640 / N"]) (use q in auto)
  have "1 / 2 ^ 30 \<le> A" "A \<le> 2 ^ 30" using A(2,3) q by simp_all
  moreover have "640 * (1 - eps) \<le> N * A" "N * A \<le> 640 * (1 + eps)"
    using A(2,3) N' by (simp_all add: field_simps)
  ultimately show thesis using N(1) A(1) N' by (intro that) auto
qed

lemma side_length:
  assumes "640 * (1 - eps) \<le> N * A" and "N * A \<le> 640 * (1 + eps)" and "1 / 2 \<le> N"
    and "1 / 2 ^ 30 \<le> s" and "s \<le> A"
  shows "\<exists>v. fp_mul (Fin N) (Fin s) = Fin v \<and> 0 \<le> v \<and> v < 640 + 1 / 2 \<and> (s = A \<longrightarrow> 640 - 1 / 2 \<le> v)"
proof -
  have "0 \<le> N" using assms(3) by (rule order_trans [rotated]) simp
  then have hi: "N * s \<le> 640 * (1 + eps)" 
    by (rule order_trans [OF mult_left_mono [OF assms(5)] assms(2)])
  have s0: "0 \<le> s" using assms(4) by (rule order_trans [rotated]) simp
  have "1 / 2 * (1 / 2 ^ 30) \<le> N * s" using assms(3,4) \<open>0 \<le> N\<close> by (intro mult_mono) simp_all
  then have lo: "1 / 2 ^ 31 \<le> N * s" by simp
  obtain v where v: "to_float (N * s) = Fin v" "N * s * (1 - eps) \<le> v" "v \<le> N * s * (1 + eps)"
    by (rule rounded_once [of "N * s"]) (use lo hi in auto)
  have "N * s * (1 + eps) \<le> 640 * (1 + eps) * (1 + eps)" using hi by (rule mult_right_mono) simp
  also have "\<dots> < 640 + 1 / 2" by simp
  finally have "v < 640 + 1 / 2" using v(3) by simp
  moreover have "0 \<le> N * s * (1 - eps)" using \<open>0 \<le> N\<close> s0 by simp
  then have "0 \<le> v" using v(2) by simp
  moreover have "640 - 1 / 2 \<le> v" if "s = A"
  proof -
    have "(640 - 1 / 2 :: rat) \<le> 640 * (1 - eps) * (1 - eps)" by simp
    also have "\<dots> \<le> N * s * (1 - eps)" using assms(1) that by (intro mult_right_mono) simp_all
    finally show ?thesis using v(2) by simp
  qed
  ultimately show ?thesis using v(1) by simp
qed

text \<open>For every camera size, whatever the rounding of the scale and of the products does, the scaled image
  fits the 640 x 640 input: each side is between 1 and 640, at least one is exactly 640, and the offsets
  place it inside, so that copying it there never leaves the model's input.\<close>

lemma letterbox_fits:
  assumes "0 < w" and "w < 2 ^ 31" and "0 < h" and "h < 2 ^ 31"
  shows "\<exists>b. make_letterbox fc w h = Inr b \<and> lb_width b = w \<and> lb_height b = h \<and>
           1 \<le> lb_resized_w b \<and> 1 \<le> lb_resized_h b \<and> max (lb_resized_w b) (lb_resized_h b) = 640 \<and>
           0 \<le> lb_left b \<and> lb_left b + lb_resized_w b \<le> 640 \<and>
           0 \<le> lb_top b \<and> lb_top b + lb_resized_h b \<le> 640"
proof -
  obtain W A where W: "fp_of_int w = Fin W" "fp_div (Fin 640) (fp_of_int w) = Fin A"
      "640 * (1 - eps) \<le> W * A" "W * A \<le> 640 * (1 + eps)" "1 / 2 \<le> W" "1 / 2 ^ 30 \<le> A"
    using side_scale [OF assms(1,2)] by metis
  obtain H B where H: "fp_of_int h = Fin H" "fp_div (Fin 640) (fp_of_int h) = Fin B"
      "640 * (1 - eps) \<le> H * B" "H * B \<le> 640 * (1 + eps)" "1 / 2 \<le> H" "1 / 2 ^ 30 \<le> B"
    using side_scale [OF assms(3,4)] by metis
  define s where "s = min A B"
  have scale: "fp_min (fp_div (Fin 640) (fp_of_int w)) (fp_div (Fin 640) (fp_of_int h)) = Fin s"
    unfolding W(2) H(2) by (simp add: fp_min_def s_def min_def)
  have s: "1 / 2 ^ 30 \<le> s" "s \<le> A" "s \<le> B" "s = A \<or> s = B" using W(6) H(6) by (auto simp: s_def min_def)
  from side_length [OF W(3-5) s(1,2)] obtain v where v: "fp_mul (Fin W) (Fin s) = Fin v" "0 \<le> v"
      "v < 640 + 1 / 2" "s = A \<longrightarrow> 640 - 1 / 2 \<le> v" by blast
  from side_length [OF H(3-5) s(1,3)] obtain u where u: "fp_mul (Fin H) (Fin s) = Fin u" "0 \<le> u"
      "u < 640 + 1 / 2" "s = B \<longrightarrow> 640 - 1 / 2 \<le> u" by blast
  have rv: "round_away v \<le> 640" "0 \<le> round_away v" "s = A \<longrightarrow> round_away v = 640"
    using round_away_le [of v 640] round_away_eq [of 640 v] v(2-4) by (auto simp: round_away_def)
  have ru: "round_away u \<le> 640" "0 \<le> round_away u" "s = B \<longrightarrow> round_away u = 640"
    using round_away_le [of u 640] round_away_eq [of 640 u] u(2-4) by (auto simp: round_away_def)
  have cast: "round_int fc (Fin v) = round_away v" "round_int fc (Fin u) = round_away u" using rv ru by simp_all
  define rw where "rw = max 1 (round_away v)"
  define rh where "rh = max 1 (round_away u)"
  have "make_letterbox fc w h = Inr \<lparr>lb_width = w, lb_height = h, lb_resized_w = rw, lb_resized_h = rh,
      lb_left = (640 - rw) div 2, lb_top = (640 - rh) div 2\<rparr>"
    unfolding make_letterbox_def Let_def scale unfolding W(1) H(1) v(1) u(1) cast rw_def rh_def
    using assms by simp
  moreover have "1 \<le> rw" "rw \<le> 640" "1 \<le> rh" "rh \<le> 640" "max rw rh = 640"
    using rv ru s(4) by (auto simp: rw_def rh_def)
  ultimately show ?thesis by auto
qed

section \<open>Examples\<close>

definition demo_cv :: cv_rect_ops where
  "demo_cv = \<lparr>cv_area = (\<lambda>r. rc_width r * rc_height r),
     cv_meet = (\<lambda>a b.
       let x = max (rc_x a) (rc_x b); y = max (rc_y a) (rc_y b);
           w = min (rc_x a + rc_width a) (rc_x b + rc_width b) - x;
           h = min (rc_y a + rc_height a) (rc_y b + rc_height b) - y
       in if w \<le> 0 \<or> h \<le> 0 then \<lparr>rc_x = 0, rc_y = 0, rc_width = 0, rc_height = 0\<rparr>
          else \<lparr>rc_x = x, rc_y = y, rc_width = w, rc_height = h\<rparr>)\<rparr>"

definition demo_detection :: "int \<Rightarrow> rat \<Rightarrow> int \<Rightarrow> detection" where
  "demo_detection cls conf x = \<lparr>dt_class = cls, dt_confidence = Fin conf,
     dt_box = \<lparr>rc_x = x, rc_y = 0, rc_width = 4, rc_height = 4\<rparr>\<rparr>"

text \<open>Two boxes of a class cover each other; a third is of another class.\<close>

theorem nms_sound_witness:
  "map dt_class (nms (iou demo_cv) [demo_detection 0 (1 / 2) 0, demo_detection 7 (1 / 4) 0, demo_detection 0 (3 / 4) 0]
     (Fin (1 / 2))) = [0, 7] \<and>
   (\<exists>k \<in> set (nms (iou demo_cv) [demo_detection 0 (1 / 2) 0, demo_detection 7 (1 / 4) 0, demo_detection 0 (3 / 4) 0]
     (Fin (1 / 2))). suppresses (iou demo_cv) (Fin (1 / 2)) k (demo_detection 0 (1 / 2) 0))"
proof -
  let ?ds = "[demo_detection 0 (1 / 2) 0, demo_detection 7 (1 / 4) 0, demo_detection 0 (3 / 4) 0]"
  let ?out = "nms (iou demo_cv) ?ds (Fin (1 / 2))"
  have top: "take 1000 (by_confidence ?ds) = [demo_detection 0 (3 / 4) 0, demo_detection 0 (1 / 2) 0, demo_detection 7 (1 / 4) 0]"
    by (simp add: by_confidence_def demo_detection_def)
  have out: "?out = [demo_detection 0 (3 / 4) 0, demo_detection 7 (1 / 4) 0]"
    unfolding nms_def top by (simp add: iou_def demo_detection_def demo_cv_def)
  have "demo_detection 0 (1 / 2) 0 \<in> set (take 1000 (by_confidence ?ds))" unfolding top by simp
  moreover have "length ?out < 100" unfolding out by simp
  moreover have "demo_detection 0 (1 / 2) 0 \<notin> set ?out" unfolding out by (simp add: demo_detection_def)
  ultimately have "\<exists>k \<in> set ?out. suppresses (iou demo_cv) (Fin (1 / 2)) k (demo_detection 0 (1 / 2) 0)"
    using nms_sound [of ?ds "iou demo_cv" "Fin (1 / 2)"] unfolding Let_def by blast
  then show ?thesis unfolding out by (simp add: demo_detection_def)
qed

text \<open>An output with one object in the first cell of the coarsest level, as probabilities.\<close>

definition demo_output :: "(nat \<Rightarrow> fp) \<Rightarrow> rknn_output" where
  "demo_output f = \<lparr>ro_size = 255 * 6400 * 4, ro_buf = Some (f, \<lambda>_. 0)\<rparr>"

definition demo_head :: "nat \<Rightarrow> fp" where
  "demo_head i = (if i = 1600 \<or> i = 2000 then Fin 1 else if i = 0 \<or> i = 400 \<or> i = 800 \<or> i = 1200 then Fin (1 / 2) else Fin 0)"

definition demo_box :: letterbox where
  "demo_box = \<lparr>lb_width = 640, lb_height = 640, lb_resized_w = 640, lb_resized_h = 640, lb_left = 0, lb_top = 0\<rparr>"

lemma collect_none: "(\<And>x. x \<in> set xs \<Longrightarrow> f x = Inr None) \<Longrightarrow> collect f xs = Inr []"
  by (induction xs) simp_all

lemma tolerances:
  "to_float (1001 / 1000) = Fin (8396997 / 8388608)" "to_float (- 1 / 1000) = Fin (- 8589935 / 8589934592)"
proof -
  show "to_float (1001 / 1000) = Fin (8396997 / 8388608)"
    by (rule to_float_eval [where e = 0 and k = 8396997]) (simp_all add: power_int_minus)
  show "to_float (- 1 / 1000) = Fin (- 8589935 / 8589934592)"
    by (rule to_float_eval [where e = "- 10" and k = "- 8589935"]) (simp_all add: power_int_minus)
qed

lemma decode_nothing:
  assumes "act (rd (a * 85 * (640 div (8 * 2 ^ level) * (640 div (8 * 2 ^ level))) + cell +
      4 * (640 div (8 * 2 ^ level) * (640 div (8 * 2 ^ level))))) = Fin 0"
  shows "decode_cell cv fc b (Fin (1 / 2)) False act rd level a cell = Inr None"
  using assms unfolding decode_cell_def Let_def tolerances by (simp only: fp_finite.simps) simp

lemma demo_level:
  assumes "level < 2"
  shows "decode_level demo_cv fc ex [demo_output (\<lambda>_. Fin 0), demo_output (\<lambda>_. Fin 0), demo_output demo_head]
           b (Fin (1 / 2)) False None level = Inr []"
proof -
  from assms have "level = 0 \<or> level = 1" by auto
  then have "check_level None (demo_output (\<lambda>_. Fin 0)) (640 div (8 * 2 ^ level) * (640 div (8 * 2 ^ level))) = Inr ()"
      "[demo_output (\<lambda>_. Fin 0), demo_output (\<lambda>_. Fin 0), demo_output demo_head] ! level = demo_output (\<lambda>_. Fin 0)"
    by (auto simp: check_level_def demo_output_def)
  then show ?thesis unfolding decode_level_def Let_def
    by (simp only: option.map bind_result_simps)
      (rule collect_none, auto simp: demo_output_def read_value_def activation_def intro!: decode_nothing)
qed

definition demo_found :: detection where
  "demo_found = \<lparr>dt_class = 0, dt_confidence = Fin 1, dt_box = \<lparr>rc_x = 0, rc_y = 0, rc_width = 74, rc_height = 61\<rparr>\<rparr>"

lemma best_class_stays:
  "list_all (\<lambda>c. \<not> fp_less score (v c)) cs \<Longrightarrow> best_class v cs score cls = (score, cls)"
  by (induction cs) simp_all

lemma demo_head_high: "2000 < i \<Longrightarrow> demo_head i = Fin 0"
  by (simp add: demo_head_def)

lemma demo_best:
  "best_class (\<lambda>c. demo_head (0 * 85 * (640 div (8 * 2 ^ 2) * (640 div (8 * 2 ^ 2))) + 0 +
     (5 + c) * (640 div (8 * 2 ^ 2) * (640 div (8 * 2 ^ 2))))) [0..<80] (Fin 0) 0 = (Fin 1, 0)"
proof -
  have "[0..<80] = 0 # [1..<80]" by (simp add: upt_conv_Cons del: upt_rec_numeral)
  moreover have "best_class (\<lambda>c. demo_head ((5 + c) * 400)) [1..<80] (Fin 1) 0 = (Fin 1, 0)"
    by (rule best_class_stays) (simp add: list_all_iff demo_head_high del: upt_rec_numeral)
  ultimately show ?thesis by (simp add: demo_head_def del: upt_rec_numeral)
qed

lemma demo_cell_box:
  "cell_box (\<lambda>_. 0) demo_box 2 0 0 (Fin (1 / 2)) (Fin (1 / 2)) (Fin (1 / 2)) (Fin (1 / 2)) =
     \<lparr>rc_x = 0, rc_y = 0, rc_width = 74, rc_height = 61\<rparr>"
proof -
  have "restore (\<lambda>_. 0) demo_box (Fin (- 42)) (Fin (- 29)) (Fin 74) (Fin 61) = \<lparr>rc_x = 0, rc_y = 0, rc_width = 74, rc_height = 61\<rparr>"
    by (simp add: restore_def demo_box_def fp_sub_def clamp_def)
  then show ?thesis unfolding cell_box_def Let_def by (simp add: fp_sub_def anchors_def)
qed

lemma demo_level_2:
  "decode_level demo_cv (\<lambda>_. 0) ex [demo_output (\<lambda>_. Fin 0), demo_output (\<lambda>_. Fin 0), demo_output demo_head]
     demo_box (Fin (1 / 2)) False None 2 = Inr [demo_found]"
proof -
  let ?f = "\<lambda>(a, cell). decode_cell demo_cv (\<lambda>_. 0) demo_box (Fin (1 / 2)) False (activation ex False) demo_head 2 a cell"
  have cells: "[(a, cell). a \<leftarrow> [0..<3], cell \<leftarrow> [0..<400]] =
      (0, 0) # map (Pair 0) [1..<400] @ [(a, cell). a \<leftarrow> [1..<3], cell \<leftarrow> [0..<400]]"
    unfolding upt_conv_Cons [of 0 3, simplified] by (simp add: upt_conv_Cons [of 0 400] del: upt_rec_numeral)
  have none: "collect ?f (map (Pair 0) [1..<400] @ [(a, cell). a \<leftarrow> [1..<3], cell \<leftarrow> [0..<400]]) = Inr []"
    by (rule collect_none) (auto simp: activation_def demo_head_def intro!: decode_nothing simp del: upt_rec_numeral)
  have "decode_cell demo_cv (\<lambda>_. 0) demo_box (Fin (1 / 2)) False (\<lambda>x. x) demo_head 2 0 0 = Inr (Some demo_found)"
    unfolding decode_cell_def demo_best tolerances Let_def prod.case
    by (simp add: demo_head_def demo_cell_box demo_cv_def demo_found_def)
  then have "?f (0, 0) = Inr (Some demo_found)" by (simp add: activation_def [abs_def])
  with none have "collect ?f [(a, cell). a \<leftarrow> [0..<3], cell \<leftarrow> [0..<400]] = Inr [demo_found]"
    unfolding cells by simp
  then show ?thesis
    by (simp add: decode_level_def check_level_def demo_output_def read_value_def [abs_def] del: upt_rec_numeral)
qed

theorem detections_valid_witness:
  "process demo_cv (\<lambda>_. 0) (\<lambda>x. x) [demo_output (\<lambda>_. Fin 0), demo_output (\<lambda>_. Fin 0), demo_output demo_head]
     demo_box (Fin (1 / 2)) (Fin (1 / 2)) False None = Inr [demo_found] \<and>
   detection_ok demo_cv demo_box (Fin (1 / 2)) demo_found"
proof -
  have "process demo_cv (\<lambda>_. 0) (\<lambda>x. x) [demo_output (\<lambda>_. Fin 0), demo_output (\<lambda>_. Fin 0), demo_output demo_head]
     demo_box (Fin (1 / 2)) (Fin (1 / 2)) False None = Inr [demo_found]"
    by (simp add: process_def demo_level demo_level_2 nms_def by_confidence_def)
  with detections_valid [OF this] show ?thesis by (simp add: demo_box_def)
qed

end
