(* ===== verification/VisionState.thy ===== *)
theory VisionState
  imports Config Metrics InferenceHealth TcpServer EventRecorder ReplayCache Yolov5PostProcess
begin

text \<open>
  The state that the threads of \<open>app/VisionPipeline.h\<close> share, and what the control connection reads of it:
  \<open>status\<close> and the detections. A frame is its value, since the pixels of a shared frame do not change; ages
  are exact. What other components answer (the video service, the pool, the operating system, the clock) is
  an argument.
\<close>

section \<open>State\<close>

record snapshot_job =
  sn_frame :: frame
  sn_connection :: nat
  sn_id :: json
  sn_cache_key :: string
  sn_preview :: bool
  sn_detections :: json

text \<open>Calls of the video service that change its state.\<close>

datatype video_call = VideoTrigger nat | VideoReset nat | VideoSubmit frame

record vision =
  vp_config :: config
  vp_origin :: nat
  vp_inference :: "frame bqueue"
  vp_snapshots :: "snapshot_job bqueue"
  vp_metrics :: metrics
  vp_health :: health
  vp_infer_delay_ms :: int
  vp_has_video :: bool
  vp_running :: bool
  vp_enabled :: bool
  vp_threshold :: fp
  vp_epoch :: u64
  vp_restart_capture :: bool
  vp_capture_state :: string
  vp_capture_error :: string
  vp_infer_error :: string
  vp_latest :: "frame option"
  vp_detection_frame :: "frame option"
  vp_camera_info :: json
  vp_detections :: json
  vp_detection_sequence :: u64
  vp_detection_time :: nat
  vp_cache :: "json reply_cache"
  vp_video_log :: "video_call list"

definition VisionPipeline :: "config \<Rightarrow> nat \<Rightarrow> vision result" where
  "VisionPipeline c now =
     bind_result (FramePool (nat (c_pool c)) (nat (c_width c) * nat (c_height c) * 2)) (\<lambda>_.
       bind_result (BoundedQueue (nat (c_queue c))) (\<lambda>inference.
         bind_result (BoundedQueue 8) (\<lambda>snapshots.
           Inr \<lparr>vp_config = c, vp_origin = now, vp_inference = inference, vp_snapshots = snapshots,
                vp_metrics = Metrics now, vp_health = InferenceHealth (c_infer_slow_ms c) (c_infer_stall_ms c),
                vp_infer_delay_ms = c_infer_delay_ms c, vp_has_video = c_video c, vp_running = False,
                vp_enabled = True, vp_threshold = c_threshold c, vp_epoch = 0, vp_restart_capture = False,
                vp_capture_state = ''starting'', vp_capture_error = [], vp_infer_error = [], vp_latest = None,
                vp_detection_frame = None, vp_camera_info = JObject [], vp_detections = JArray [],
                vp_detection_sequence = 0, vp_detection_time = 0, vp_cache = empty_cache, vp_video_log = []\<rparr>)))"

text \<open>The answers of the other components while one request is handled.\<close>

record vision_env =
  ve_now :: nat
  ve_video_healthy :: bool
  ve_video_error :: string
  ve_video_dropped :: nat
  ve_recording_status :: json
  ve_pool_available :: nat
  ve_os :: os_usage

text \<open>The age of something in milliseconds.\<close>

definition age_ms :: "nat \<Rightarrow> nat \<Rightarrow> rat" where
  "age_ms now t = (of_nat now - of_nat t) / of_nat ns_per_ms"

section \<open>Reports\<close>

text \<open>Objects are built key by key; assigning to a key replaces its value.\<close>

definition put_key :: "string \<Rightarrow> json \<Rightarrow> (string \<times> json) list \<Rightarrow> (string \<times> json) list" where
  "put_key k v kvs = AList.update k v kvs"

fun json_of_fp :: "fp \<Rightarrow> json" where
  "json_of_fp (Fin r) = JFloat r"
| "json_of_fp _ = JNull"

definition json_of_health :: "health_report \<Rightarrow> json" where
  "json_of_health r = JObject
     [(''state'', JString (case hr_state r of Stalled \<Rightarrow> ''stalled'' | Degraded \<Rightarrow> ''degraded'' | Normal \<Rightarrow> ''normal'')),
      (''active'', JBool (hr_active r)), (''active_ms'', JFloat (hr_active_ms r)),
      (''last_service_ms'', JFloat (hr_last_service_ms r)),
      (''slow_streak'', JInt (uint (hr_slow_streak r))), (''fast_streak'', JInt (uint (hr_fast_streak r)))]"

definition status :: "vision_env \<Rightarrow> vision \<Rightarrow> json" where
  "status env s = JObject
     ([(''camera'', vp_camera_info s),
       (''capture_state'', JString (vp_capture_state s)),
       (''capture_error'', JString (vp_capture_error s)),
       (''inference_health'', json_of_health (health_snapshot (ve_now env) (vp_health s))),
       (''inference_enabled'', JBool (vp_enabled s)),
       (''inference_error'', JString (vp_infer_error s)),
       (''threshold'', json_of_fp (vp_threshold s)),
       (''video_enabled'', JBool (vp_has_video s)),
       (''video_healthy'', JBool (vp_has_video s \<and> ve_video_healthy env)),
       (''video_error'', JString (if vp_has_video s then ve_video_error env else [])),
       (''pool_available'', JInt (int (ve_pool_available env))),
       (''inference_queue'', JInt (int (q_size (vp_inference s)))),
       (''queue_high_watermark'', JInt (int (highWatermark (vp_inference s)))),
       (''inference_dropped'', JInt (uint (q_dropped (vp_inference s)))),
       (''video_dropped'', JInt (if vp_has_video s then int (ve_video_dropped env) else 0))] @
      (if vp_has_video s then [(''recorder'', ve_recording_status env)] else []))"

end
