(* ===== verification/VisionCommands.thy ===== *)
theory VisionCommands
  imports VisionState
begin

text \<open>
  The control connection of \<open>app/VisionPipeline.cpp\<close>: one request line is parsed, executed or answered from
  the replay cache, and its reply is handed to the TCP server. A command is a function of the shared state;
  each of them touches the state that other threads see in one critical section only. The JSON parser and
  printer are arguments.
\<close>

section \<open>The commands\<close>

text \<open>
  The outcome of a command: the reply so far, the key under which it may be cached (empty for none), the
  state, and whether a job was queued, so that the connection has to be retained.
\<close>

record cmd_result =
  cr_response :: "(string \<times> json) list"
  cr_key :: string
  cr_state :: vision
  cr_retain :: bool

definition completed :: "json \<Rightarrow> (string \<times> json) list" where
  "completed cid = [(''id'', cid), (''status'', JString ''completed''), (''code'', JInt 0)]"

definition done_with :: "json \<Rightarrow> json \<Rightarrow> string \<Rightarrow> vision \<Rightarrow> cmd_result" where
  "done_with cid result key s =
     \<lparr>cr_response = put_key ''data'' result (completed cid), cr_key = key, cr_state = s, cr_retain = False\<rparr>"

definition set_infer_delay :: "(rat \<Rightarrow> int) \<Rightarrow> json \<Rightarrow> json \<Rightarrow> string \<Rightarrow> vision \<Rightarrow> cmd_result result" where
  "set_infer_delay fc request cid key s =
     (if \<not> c_allow_fault_injection (vp_config s) then Inl (RuntimeError ''fault injection disabled'')
      else
        case jfind ''value'' request of
          None \<Rightarrow> Inl out_of_range
        | Some v \<Rightarrow>
            if \<not> is_number_integer v then Inl (RuntimeError ''delay must be integer milliseconds'')
            else bind_result (get_int fc v) (\<lambda>delay.
              if delay < 0 \<or> 5000 < delay then Inl (RuntimeError ''delay outside [0,5000]'')
              else Inr (done_with cid (JObject [(''infer_delay_ms'', JInt delay)]) key
                          (s\<lparr>vp_infer_delay_ms := delay\<rparr>))))"

text \<open>The snapshot of the metrics as JSON.\<close>

definition json_of_rates :: "rates \<Rightarrow> (string \<times> json) list" where
  "json_of_rates r =
     [(''capture_fps'', json_of_fp (rt_capture_fps r)), (''process_fps'', json_of_fp (rt_process_fps r)),
      (''encode_fps'', json_of_fp (rt_encode_fps r)), (''cpu_percent_one_core'', json_of_fp (rt_cpu_percent r)),
      (''rate_window_s'', JFloat (rt_window_s r))]"

definition json_of_metrics :: "(metrics_report \<Rightarrow> (string \<times> json) list) \<Rightarrow> metrics_report \<Rightarrow> (string \<times> json) list" where
  "json_of_metrics tables r =
     [(''uptime_s'', JFloat (mr_uptime_s r)), (''sample_window'', JString ''latest 1024 observations per stage'')] @
     tables r @ (case mr_rates r of None \<Rightarrow> [] | Some rt \<Rightarrow> json_of_rates rt) @
     [(''rss_mb'', JFloat (mr_rss_mb r)), (''fd_count'', JInt (int (mr_fd_count r)))]"

definition get_metrics ::
  "(metrics_report \<Rightarrow> (string \<times> json) list) \<Rightarrow> vision_env \<Rightarrow> json \<Rightarrow> string \<Rightarrow> vision \<Rightarrow> cmd_result" where
  "get_metrics tables env cid key s =
     (let (report, m) = Metrics.snapshot (ve_os env) (ve_now env) (vp_metrics s); s1 = s\<lparr>vp_metrics := m\<rparr>
      in done_with cid (JObject (put_key ''pipeline'' (status env s1) (json_of_metrics tables report))) key s1)"

definition fresh_detections :: "vision_env \<Rightarrow> vision \<Rightarrow> bool" where
  "fresh_detections env s \<longleftrightarrow> vp_detection_sequence s \<noteq> 0 \<and>
     age_ms (ve_now env) (vp_detection_time s) \<le> of_int (c_infer_max_age_ms (vp_config s))"

definition get_detections :: "vision_env \<Rightarrow> json \<Rightarrow> string \<Rightarrow> vision \<Rightarrow> cmd_result" where
  "get_detections env cid key s =
     (let fresh = fresh_detections env s
      in done_with cid (JObject
           [(''fresh'', JBool fresh), (''sequence'', JInt (uint (vp_detection_sequence s))),
            (''detections'', if fresh then vp_detections s else JArray []),
            (''age_ms'', JFloat (if vp_detection_sequence s \<noteq> 0 then age_ms (ve_now env) (vp_detection_time s) else - 1))])
           key s)"

definition clear_detections :: "vision \<Rightarrow> vision" where
  "clear_detections s = s\<lparr>vp_detections := JArray [], vp_detection_sequence := 0, vp_detection_frame := None\<rparr>"

definition enable_inference :: "bool \<Rightarrow> json \<Rightarrow> string \<Rightarrow> vision \<Rightarrow> cmd_result" where
  "enable_inference on cid key s =
     (let s1 = clear_detections (s\<lparr>vp_epoch := vp_epoch s + 1, vp_enabled := on, vp_inference := q_clear (vp_inference s)\<rparr>)
      in done_with cid (JObject [(''inference_enabled'', JBool on)]) key s1)"

definition restart_camera :: "json \<Rightarrow> string \<Rightarrow> vision \<Rightarrow> cmd_result" where
  "restart_camera cid key s =
     \<lparr>cr_response = put_key ''data'' (JObject [(''note'', JString ''camera restart requested; poll get_status'')])
        (put_key ''status'' (JString ''accepted'') (completed cid)),
      cr_key = key, cr_state = s\<lparr>vp_restart_capture := True\<rparr>, cr_retain = False\<rparr>"

definition set_threshold :: "json \<Rightarrow> json \<Rightarrow> string \<Rightarrow> vision \<Rightarrow> cmd_result result" where
  "set_threshold request cid key s =
     (case jfind ''value'' request of
        None \<Rightarrow> Inl out_of_range
      | Some v \<Rightarrow> bind_result (get_float v) (\<lambda>value.
          if \<not> fp_finite value \<or> fp_le value (Fin 0) \<or> fp_le (Fin 1) value
          then Inl (RuntimeError ''threshold must be in (0,1)'')
          else Inr (done_with cid (JObject [(''threshold'', json_of_fp value)]) key (s\<lparr>vp_threshold := value\<rparr>))))"

text \<open>The reply of the two commands that queue a job for the snapshot thread.\<close>

definition queue_job :: "snapshot_job \<Rightarrow> vision \<Rightarrow> cmd_result" where
  "queue_job job s =
     (let (stored, q) = tryPush (vp_snapshots s) job
      in if \<not> stored
         then \<lparr>cr_response = put_key ''reason'' (JString ''snapshot queue full'') (put_key ''code'' (JInt 429)
                 (put_key ''status'' (JString ''error'') (completed (sn_id job)))),
               cr_key = sn_cache_key job, cr_state = s\<lparr>vp_snapshots := q\<rparr>, cr_retain = False\<rparr>
         else \<lparr>cr_response = put_key ''status'' (JString ''accepted'') (completed (sn_id job)),
               cr_key = sn_cache_key job, cr_state = s\<lparr>vp_snapshots := q\<rparr>, cr_retain = True\<rparr>)"

definition get_preview :: "vision_env \<Rightarrow> nat \<Rightarrow> json \<Rightarrow> vision \<Rightarrow> cmd_result result" where
  "get_preview env connection cid s =
     (case vp_detection_frame s of
        None \<Rightarrow> Inl (RuntimeError ''no fresh detection frame'')
      | Some f \<Rightarrow>
          if of_int (c_infer_max_age_ms (vp_config s)) < age_ms (ve_now env) (fr_captured f)
          then Inl (RuntimeError ''no fresh detection frame'')
          else Inr (queue_job \<lparr>sn_frame = f, sn_connection = connection, sn_id = cid, sn_cache_key = [],
                               sn_preview = True, sn_detections = vp_detections s\<rparr> s))"

definition capture :: "vision_env \<Rightarrow> nat \<Rightarrow> json \<Rightarrow> string \<Rightarrow> vision \<Rightarrow> cmd_result result" where
  "capture env connection cid key s =
     (case vp_latest s of
        None \<Rightarrow> Inl (RuntimeError ''no fresh frame available'')
      | Some f \<Rightarrow>
          if 2 * ns_per_s + fr_captured f < ve_now env then Inl (RuntimeError ''no fresh frame available'')
          else Inr (queue_job \<lparr>sn_frame = f, sn_connection = connection, sn_id = cid, sn_cache_key = key,
                               sn_preview = False, sn_detections = JArray []\<rparr> s))"

definition record_event :: "vision_env \<Rightarrow> json \<Rightarrow> string \<Rightarrow> vision \<Rightarrow> cmd_result result" where
  "record_event env cid key s =
     (if \<not> vp_has_video s \<or> \<not> ve_video_healthy env then Inl (RuntimeError ''video unavailable'')
      else Inr \<lparr>cr_response = put_key ''data'' (JObject
                  [(''note'', JString ''event recording requested; poll get_events (overlapping triggers merge)'')])
                  (put_key ''status'' (JString ''accepted'') (completed cid)),
                cr_key = key, cr_state = s\<lparr>vp_video_log := vp_video_log s @ [VideoTrigger (ve_now env)]\<rparr>,
                cr_retain = False\<rparr>)"

section \<open>One request\<close>

text \<open>The arguments for code that is not ours: parser, printer, casts, and the tables of counters and stages.\<close>

record vision_lib =
  vl_parse :: "string \<Rightarrow> json result"
  vl_dump :: "json \<Rightarrow> string"
  vl_cast :: "rat \<Rightarrow> int"
  vl_tables :: "metrics_report \<Rightarrow> (string \<times> json) list"

definition command_name :: "json \<Rightarrow> string result" where
  "command_name request =
     bind_result (json_value get_string request ''cmd'' []) (\<lambda>cmd.
       if cmd \<noteq> [] then Inr cmd
       else bind_result (json_value get_string request ''skill_name'' []) (\<lambda>skill.
         Inr (if skill = ''CaptureSkill'' then ''capture''
              else if skill = ''QuerySkill'' then ''get_status'' else [])))"

definition execute ::
  "vision_lib \<Rightarrow> vision_env \<Rightarrow> nat \<Rightarrow> string \<Rightarrow> json \<Rightarrow> json \<Rightarrow> string \<Rightarrow> vision \<Rightarrow> cmd_result result" where
  "execute lib env connection cmd request cid key s =
     (if cmd = ''get_status'' then Inr (done_with cid (status env s) key s)
      else if cmd = ''get_events'' then
        (if \<not> vp_has_video s then Inl (RuntimeError ''video unavailable'')
         else Inr (done_with cid (ve_recording_status env) key s))
      else if cmd = ''set_infer_delay'' then set_infer_delay (vl_cast lib) request cid key s
      else if cmd = ''get_metrics'' then Inr (get_metrics (vl_tables lib) env cid key s)
      else if cmd = ''get_detections'' then Inr (get_detections env cid key s)
      else if cmd = ''start'' \<or> cmd = ''stop'' then Inr (enable_inference (cmd = ''start'') cid key s)
      else if cmd = ''restart_camera'' then Inr (restart_camera cid key s)
      else if cmd = ''set_threshold'' then set_threshold request cid key s
      else if cmd = ''get_preview'' then get_preview env connection cid s
      else if cmd = ''capture'' then capture env connection cid key s
      else if cmd = ''record_event'' then record_event env cid key s
      else Inl (RuntimeError ''unknown command''))"

fun what :: "cxx_error \<Rightarrow> string" where
  "what (InvalidArgument m) = m"
| "what (RuntimeError m) = m"

definition newline :: string where
  "newline = [CHR 0x0A]"

definition error_reply :: "vision_lib \<Rightarrow> json \<Rightarrow> cxx_error \<Rightarrow> string" where
  "error_reply lib cid e = vl_dump lib (JObject
     [(''id'', cid), (''status'', JString ''error''), (''code'', JInt 400), (''reason'', JString (what e))]) @ newline"

text \<open>The key of a request in the replay cache.\<close>

definition reply_key :: "vision_lib \<Rightarrow> nat \<Rightarrow> json \<Rightarrow> string" where
  "reply_key lib connection cid = dec connection @ '':'' @ vl_dump lib cid"

definition add_reply :: "string \<Rightarrow> json \<Rightarrow> vision \<Rightarrow> vision" where
  "add_reply key reply s = s\<lparr>vp_cache := cacheReply key reply (vp_cache s)\<rparr>"

text \<open>The part of \<open>command\<close> after the id of the request is known and admissible.\<close>

definition handle_request ::
  "vision_lib \<Rightarrow> vision_env \<Rightarrow> nat \<Rightarrow> json \<Rightarrow> json \<Rightarrow> vision \<Rightarrow> vision \<times> sv_act list" where
  "handle_request lib env connection request cid s =
     (let key = (if is_null cid then [] else reply_key lib connection cid);
          outcome = bind_result (command_name request) (\<lambda>cmd. execute lib env connection cmd request cid key s)
      in case outcome of
           Inl e \<Rightarrow> (s, [Respond connection (error_reply lib cid e)])
         | Inr r \<Rightarrow>
             let response = JObject (cr_response r);
                 s1 = (if cr_key r \<noteq> [] then add_reply (cr_key r) response (cr_state r) else cr_state r)
             in (s1, (if cr_retain r then [Retain connection] else []) @
                     [Respond connection (vl_dump lib response @ newline)]))"

definition command :: "vision_lib \<Rightarrow> vision_env \<Rightarrow> nat \<Rightarrow> string \<Rightarrow> vision \<Rightarrow> vision \<times> sv_act list" where
  "command lib env connection line s =
     (case vl_parse lib line of
        Inl e \<Rightarrow> (s, [Respond connection (error_reply lib JNull e)])
      | Inr request \<Rightarrow>
          if \<not> is_object request
          then (s, [Respond connection (error_reply lib JNull (RuntimeError ''request must be an object''))])
          else
            let cid = (case jfind ''id'' request of None \<Rightarrow> JNull | Some i \<Rightarrow> i)
            in if \<not> is_null cid \<and> \<not> is_number_integer cid \<and> \<not> is_string cid
               then (s, [Respond connection (error_reply lib cid (RuntimeError ''id must be integer/string''))])
               else if 128 < length (vl_dump lib cid)
               then (s, [Respond connection (error_reply lib cid (RuntimeError ''id too long''))])
               else
                 case (if is_null cid then None else rp_replies (vp_cache s) (reply_key lib connection cid)) of
                   Some reply \<Rightarrow> (s, [Respond connection (vl_dump lib reply @ newline)])
                 | None \<Rightarrow> handle_request lib env connection request cid s)"

section \<open>Every request is answered\<close>

lemma tryPush_cases: "tryPush q x = (False, q') \<Longrightarrow> bq_q q' = bq_q q" "tryPush q x = (True, q') \<Longrightarrow> bq_q q' = bq_q q @ [x]"
  by (auto simp: tryPush_def Let_def split: if_splits)

lemma tryPush_closed: "tryPush q x = (stored, q') \<Longrightarrow> bq_closed q' = bq_closed q \<and> (bq_closed q \<longrightarrow> \<not> stored)"
  by (auto simp: tryPush_def Let_def split: if_splits)

text \<open>What a successful command leaves of the snapshot queue and of the cache.\<close>

definition cmd_ok :: "nat \<Rightarrow> vision \<Rightarrow> cmd_result \<Rightarrow> bool" where
  "cmd_ok connection s r \<longleftrightarrow>
     vp_cache (cr_state r) = vp_cache s \<and>
     bq_closed (vp_snapshots (cr_state r)) = bq_closed (vp_snapshots s) \<and> (bq_closed (vp_snapshots s) \<longrightarrow> \<not> cr_retain r) \<and>
     (if cr_retain r
      then \<exists>job. bq_q (vp_snapshots (cr_state r)) = bq_q (vp_snapshots s) @ [job] \<and> sn_connection job = connection
      else bq_q (vp_snapshots (cr_state r)) = bq_q (vp_snapshots s))"

lemma queue_job_ok: "sn_connection job = connection \<Longrightarrow> cmd_ok connection s (queue_job job s)"
  by (auto simp: queue_job_def cmd_ok_def dest: tryPush_cases tryPush_closed split: prod.splits)

lemma done_with_ok:
  "vp_cache s1 = vp_cache s \<Longrightarrow> vp_snapshots s1 = vp_snapshots s \<Longrightarrow> cmd_ok connection s (done_with cid d key s1)"
  by (simp add: cmd_ok_def done_with_def)

lemmas command_defs = set_infer_delay_def get_metrics_def get_detections_def enable_inference_def clear_detections_def
  restart_camera_def set_threshold_def get_preview_def capture_def record_event_def Let_def

lemma if_either: "(if P then x else y) = z \<Longrightarrow> (x = z \<Longrightarrow> Q) \<Longrightarrow> (y = z \<Longrightarrow> Q) \<Longrightarrow> Q"
  by (cases P) simp_all

lemma execute_ok: "execute lib env connection cmd request cid key s = Inr r \<Longrightarrow> cmd_ok connection s r"
proof -
  assume ex: "execute lib env connection cmd request cid key s = Inr r"
  have restart: "cmd_ok connection s (restart_camera cid key s)" by (simp add: cmd_ok_def restart_camera_def)
  have event: "cmd_ok connection s r" if "record_event env cid key s = Inr r"
    using that by (auto simp: cmd_ok_def record_event_def split: if_splits)
  have delay: "cmd_ok connection s r" if "set_infer_delay fc request cid key s = Inr r" for fc
    using that by (auto simp: set_infer_delay_def bind_result_Inr intro: done_with_ok split: if_splits option.splits)
  have threshold: "cmd_ok connection s r" if "set_threshold request cid key s = Inr r"
    using that by (auto simp: set_threshold_def bind_result_Inr intro: done_with_ok split: if_splits option.splits)
  have preview: "cmd_ok connection s r" if "get_preview env connection cid s = Inr r"
    using that by (auto simp: get_preview_def intro: queue_job_ok split: if_splits option.splits)
  have photo: "cmd_ok connection s r" if "capture env connection cid key s = Inr r"
    using that by (auto simp: capture_def intro: queue_job_ok split: if_splits option.splits)
  have metrics: "cmd_ok connection s (get_metrics t env cid key s)" for t
    by (auto simp: get_metrics_def Let_def intro!: done_with_ok split: prod.splits)
  have detections: "cmd_ok connection s (get_detections env cid key s)"
    by (auto simp: get_detections_def Let_def intro: done_with_ok)
  have enable: "cmd_ok connection s (enable_inference on cid key s)" for on
    by (auto simp: enable_inference_def clear_detections_def Let_def intro: done_with_ok)
  have plain: "cmd_ok connection s (done_with cid d key s)" for d by (simp add: done_with_ok)
  from ex show ?thesis
    unfolding execute_def
    by (elim if_either event delay threshold preview photo)
      (auto simp only: sum.inject sum.distinct restart metrics detections enable plain)
qed

text \<open>The ways in which an executed command changes the shared state, apart from the cache of replies.\<close>

inductive command_effect :: "vision \<Rightarrow> vision \<Rightarrow> bool" for s where
  unchanged: "command_effect s s"
| delay: "command_effect s (s\<lparr>vp_infer_delay_ms := d\<rparr>)"
| threshold: "0 < v \<Longrightarrow> v < 1 \<Longrightarrow> command_effect s (s\<lparr>vp_threshold := Fin v\<rparr>)"
| enable: "command_effect s (clear_detections
    (s\<lparr>vp_epoch := vp_epoch s + 1, vp_enabled := on, vp_inference := q_clear (vp_inference s)\<rparr>))"
| restart: "command_effect s (s\<lparr>vp_restart_capture := True\<rparr>)"
| job: "command_effect s (s\<lparr>vp_snapshots := snd (tryPush (vp_snapshots s) new)\<rparr>)"
| event: "command_effect s (s\<lparr>vp_video_log := vp_video_log s @ [VideoTrigger now]\<rparr>)"
| measured: "command_effect s (s\<lparr>vp_metrics := m\<rparr>)"

lemma set_threshold_effect:
  "set_threshold request cid key s = Inr r \<Longrightarrow> command_effect s (cr_state r)"
  by (auto simp: set_threshold_def bind_result_Inr done_with_def
      dest!: get_float_not_nan unit_fp intro: command_effect.intros split: if_splits option.splits)

lemma execute_effect: "execute lib env connection cmd request cid key s = Inr r \<Longrightarrow> command_effect s (cr_state r)"
proof -
  assume ex: "execute lib env connection cmd request cid key s = Inr r"
  note effects = command_effect.intros
  have restart: "command_effect s (cr_state (restart_camera cid key s))" by (simp add: restart_camera_def effects)
  have queue: "command_effect s (cr_state (queue_job new s))" for new
    using effects(6) [of s new] by (auto simp: queue_job_def split: prod.split)
  have event: "command_effect s (cr_state r)" if "record_event env cid key s = Inr r"
    using that by (auto simp: record_event_def effects split: if_splits)
  have delay: "command_effect s (cr_state r)" if "set_infer_delay fc request cid key s = Inr r" for fc
    using that by (auto simp: set_infer_delay_def bind_result_Inr done_with_def effects split: if_splits option.splits)
  have preview: "command_effect s (cr_state r)" if "get_preview env connection cid s = Inr r"
    using that queue by (auto simp: get_preview_def split: if_splits option.splits)
  have photo: "command_effect s (cr_state r)" if "capture env connection cid key s = Inr r"
    using that queue by (auto simp: capture_def split: if_splits option.splits)
  have metrics: "command_effect s (cr_state (get_metrics t env cid key s))" for t
    by (auto simp: get_metrics_def Let_def done_with_def effects split: prod.splits)
  have detections: "command_effect s (cr_state (get_detections env cid key s))"
    by (simp add: get_detections_def Let_def done_with_def effects)
  have enable: "command_effect s (cr_state (enable_inference on cid key s))" for on
    by (simp add: enable_inference_def Let_def done_with_def effects)
  have plain: "command_effect s (cr_state (done_with cid d key s))" for d by (simp add: done_with_def effects)
  from ex show ?thesis
    unfolding execute_def
    by (elim if_either event delay set_threshold_effect preview photo)
      (auto simp only: sum.inject sum.distinct restart metrics detections enable plain)
qed

text \<open>What \<open>command\<close> does, in one of three ways: an error, a replay, or an executed command.\<close>

lemma handle_request_cases:
  obtains (error) e where "handle_request lib env connection request cid s = (s, [Respond connection (error_reply lib cid e)])"
  | (executed) cmd key r where "execute lib env connection cmd request cid key s = Inr r" "cmd_ok connection s r"
      "handle_request lib env connection request cid s =
        ((if cr_key r \<noteq> [] then add_reply (cr_key r) (JObject (cr_response r)) (cr_state r) else cr_state r),
         (if cr_retain r then [Retain connection] else []) @ [Respond connection (vl_dump lib (JObject (cr_response r)) @ newline)])"
proof -
  define key where "key = (if is_null cid then [] else reply_key lib connection cid)"
  show thesis
  proof (cases "bind_result (command_name request) (\<lambda>cmd. execute lib env connection cmd request cid key s)")
    case (Inl e)
    then show thesis by (intro error) (simp add: handle_request_def Let_def flip: key_def)
  next
    case (Inr r)
    then obtain cmd where ex: "execute lib env connection cmd request cid key s = Inr r"
      by (auto simp: bind_result_Inr)
    then have "cmd_ok connection s r" by (rule execute_ok)
    then show thesis using Inr
      by (intro executed [OF ex]) (simp_all add: handle_request_def Let_def flip: key_def)
  qed
qed

lemma command_cases:
  obtains (error) cid e where "command lib env connection line s = (s, [Respond connection (error_reply lib cid e)])"
  | (replay) request cid reply where "vl_parse lib line = Inr request" "jfind ''id'' request = Some cid"
      "rp_replies (vp_cache s) (reply_key lib connection cid) = Some reply"
      "command lib env connection line s = (s, [Respond connection (vl_dump lib reply @ newline)])"
  | (executed) cmd request cid key r where "vl_parse lib line = Inr request"
      "execute lib env connection cmd request cid key s = Inr r" "cmd_ok connection s r"
      "command lib env connection line s =
        ((if cr_key r \<noteq> [] then add_reply (cr_key r) (JObject (cr_response r)) (cr_state r) else cr_state r),
         (if cr_retain r then [Retain connection] else []) @ [Respond connection (vl_dump lib (JObject (cr_response r)) @ newline)])"
proof -
  show thesis
  proof (cases "vl_parse lib line")
    case (Inl e)
    with error show thesis by (simp add: command_def)
  next
    case (Inr request)
    define cid where "cid = (case jfind ''id'' request of None \<Rightarrow> JNull | Some i \<Rightarrow> i)"
    show thesis
    proof (cases "is_object request \<and> (is_null cid \<or> is_number_integer cid \<or> is_string cid) \<and> length (vl_dump lib cid) \<le> 128")
      case False
      have "\<exists>i e. command lib env connection line s = (s, [Respond connection (error_reply lib i e)])"
      proof (cases "is_object request")
        case True
        with False have "\<not> is_null cid \<and> \<not> is_number_integer cid \<and> \<not> is_string cid \<or> 128 < length (vl_dump lib cid)"
          by auto
        then show ?thesis using True Inr by (auto simp: command_def Let_def simp flip: cid_def)
      qed (use Inr in \<open>auto simp: command_def\<close>)
      then show thesis using error by blast
    next
      case True
      show thesis
      proof (cases "if is_null cid then None else rp_replies (vp_cache s) (reply_key lib connection cid)")
        case None
        with True Inr have "command lib env connection line s = handle_request lib env connection request cid s"
          by (auto simp: command_def Let_def simp flip: cid_def)
        then show thesis
          using error executed Inr by (cases rule: handle_request_cases [of lib env connection request cid s]) auto
      next
        case (Some reply)
        then have "\<not> is_null cid" by (auto split: if_splits)
        then have "jfind ''id'' request = Some cid" by (auto simp: cid_def split: option.splits)
        moreover have "command lib env connection line s = (s, [Respond connection (vl_dump lib reply @ newline)])"
          using True Inr Some by (auto simp: command_def Let_def simp flip: cid_def)
        ultimately show thesis using Inr Some \<open>\<not> is_null cid\<close> by (intro replay) auto
      qed
    qed
  qed
qed


section \<open>Repeated requests\<close>

lemma reply_key_inj:
  "reply_key lib c1 i1 = reply_key lib c2 i2 \<Longrightarrow> c1 = c2 \<and> vl_dump lib i1 = vl_dump lib i2"
  using dec_prefix_inj [of "CHR '':''" c1 "vl_dump lib i1" c2 "vl_dump lib i2"]
  by (simp add: reply_key_def is_digit_def)

lemma command_replays:
  assumes "vl_parse lib line = Inr request" and "jfind ''id'' request = Some cid"
    and "is_number_integer cid \<or> is_string cid" and "length (vl_dump lib cid) \<le> 128"
    and "rp_replies (vp_cache s) (reply_key lib connection cid) = Some reply"
  shows "command lib env connection line s = (s, [Respond connection (vl_dump lib reply @ newline)])"
proof -
  have "is_object request" using assms(2) by (cases request) auto
  moreover have "\<not> is_null cid" using assms(3) by (cases cid) auto
  ultimately show ?thesis using assms by (auto simp: command_def Let_def)
qed

text \<open>C10: A request that is repeated with the same id on the same connection is not executed again. Once the
  reply to its id is cached, the same line changes nothing at all and gets that reply byte for byte, even
  after up to 127 other replies were cached in between, in whatever state the rest of the program is by then.
  A reply is never used for another connection or another id.\<close>

theorem repeated_request_replayed:
  assumes "vl_parse lib line = Inr request" and "jfind ''id'' request = Some cid"
    and "is_number_integer cid \<or> is_string cid" and "length (vl_dump lib cid) \<le> 128"
    and "cache_ok c0" and "rp_replies c0 (reply_key lib connection cid) = None"
    and "length others < 128" and "reply_key lib connection cid \<notin> fst ` set others"
    and "vp_cache s = replies.put_all others (cacheReply (reply_key lib connection cid) reply c0)"
  shows "command lib env connection line s = (s, [Respond connection (vl_dump lib reply @ newline)]) \<and>
         (\<forall>connection2 cid2. reply_key lib connection2 cid2 = reply_key lib connection cid \<longrightarrow>
            connection2 = connection \<and> vl_dump lib cid2 = vl_dump lib cid)"
proof -
  let ?key = "reply_key lib connection cid"
  have new: "?key \<notin> set (rp_order c0)" using assms(6) in_dom [OF assms(5)] by simp
  obtain pre where order: "rp_order (cacheReply ?key reply c0) = pre @ ?key # []"
    using replies.order_put_last [OF assms(5) new] by auto
  have "rp_replies (vp_cache s) ?key = rp_replies (cacheReply ?key reply c0) ?key"
    unfolding assms(9)
    by (rule replies.survives [OF cache_ok_cacheReply [OF assms(5)] order]) (use assms(7,8) in simp_all)
  then have "rp_replies (vp_cache s) ?key = Some reply" by (simp add: rp_replies_cacheReply)
  from command_replays [OF assms(1-4) this] show ?thesis by (auto dest: reply_key_inj)
qed

section \<open>Examples\<close>

text \<open>A library that knows two lines, and a pipeline as it is after its construction, but for its sizes.\<close>

definition demo_lib :: vision_lib where
  "demo_lib = \<lparr>vl_parse = (\<lambda>line.
       if line = ''stop'' then Inr (JObject [(''id'', JInt 7), (''cmd'', JString ''stop'')])
       else if line = ''shot'' then Inr (JObject [(''id'', JString ''p''), (''skill_name'', JString ''CaptureSkill'')])
       else Inl (RuntimeError ''json.exception.parse_error'')),
     vl_dump = (\<lambda>j. case j of JInt i \<Rightarrow> dec (nat i) | JString t \<Rightarrow> [CHR 0x22] @ t @ [CHR 0x22] | _ \<Rightarrow> ''null''),
     vl_cast = (\<lambda>_. 0), vl_tables = (\<lambda>_. [])\<rparr>"

definition demo_answers :: "nat \<Rightarrow> vision_env" where
  "demo_answers now = \<lparr>ve_now = now, ve_video_healthy = False, ve_video_error = [], ve_video_dropped = 0,
     ve_recording_status = JNull, ve_pool_available = 12,
     ve_os = \<lparr>os_cpu = 0, os_resident = 0, os_page_size = 4096, os_fds = 3\<rparr>\<rparr>"

definition demo_queue :: "nat \<Rightarrow> 'a bqueue" where
  "demo_queue n = \<lparr>bq_capacity = n, bq_dropped = 0, bq_high = 0, bq_closed = False, bq_q = []\<rparr>"

definition demo_vision :: vision where
  "demo_vision = \<lparr>vp_config = Config, vp_origin = 0, vp_inference = demo_queue 2, vp_snapshots = demo_queue 8,
     vp_metrics = Metrics 0, vp_health = InferenceHealth 150 2000, vp_infer_delay_ms = 0, vp_has_video = False,
     vp_running = True, vp_enabled = True, vp_threshold = Fin (1 / 2), vp_epoch = 0, vp_restart_capture = False,
     vp_capture_state = ''running'', vp_capture_error = [], vp_infer_error = [],
     vp_latest = Some \<lparr>fr_bytes = [], fr_sequence = 1, fr_generation = 0, fr_captured = 5\<rparr>,
     vp_detection_frame = None, vp_camera_info = JObject [], vp_detections = JArray [],
     vp_detection_sequence = 0, vp_detection_time = 0, vp_cache = empty_cache, vp_video_log = []\<rparr>"


theorem repeated_request_replayed_witness:
  "let s = demo_vision\<lparr>vp_cache := cacheReply ''4:7'' JNull (cacheReply (reply_key demo_lib 3 (JInt 7)) (JInt 1) empty_cache)\<rparr>
   in command demo_lib (demo_answers 9) 3 ''stop'' s = (s, [Respond 3 (''1'' @ newline)])"
proof -
  have key: "reply_key demo_lib 3 (JInt 7) = ''3:7''" by (simp add: reply_key_def demo_lib_def dec.simps)
  have dump: "vl_dump demo_lib (JInt 1) = ''1''" "vl_dump demo_lib (JInt 7) = ''7''" by (simp_all add: demo_lib_def dec.simps)
  have parse: "vl_parse demo_lib ''stop'' = Inr (JObject [(''id'', JInt 7), (''cmd'', JString ''stop'')])"
    by (simp add: demo_lib_def)
  show ?thesis
    unfolding Let_def dump(1) [symmetric]
    by (rule repeated_request_replayed [where cid = "JInt 7" and others = "[(''4:7'', JNull)]" and ?c0.0 = empty_cache,
          OF parse, THEN conjunct1])
      (simp_all add: key dump, simp add: empty_cache_def)
qed

end
