(* ===== verification/V4L2Camera.thy ===== *)
theory V4L2Camera
  imports Prelude Complex_Main
begin

unbundle bit_operations_syntax

text \<open>
  The camera of \<open>hardware/v4l2_camera/V4L2Camera.cpp\<close>: negotiation of the format, the mapped buffers, the
  stream, the copy of one frame, and the retries of interrupted calls. What the kernel answers to the calls of one operation is an
  argument (after \<open>xioctl\<close> has retried interrupted calls); what the operations acquire and release is
  logged. Copying outside a buffer is not undefined here but a fault that the model records.
\<close>

section \<open>Interrupted calls\<close>

text \<open>
  \<open>xioctl\<close> calls \<open>ioctl\<close> until it is not interrupted; \<open>answers n\<close> is the \<open>n\<close>-th return code with \<open>errno\<close>. The loop
  has no bound, so not returning is \<open>None\<close>.
\<close>

definition EINTR :: int where
  "EINTR = 4"

definition call_interrupted :: "int \<times> int \<Rightarrow> bool" where
  "call_interrupted answer \<longleftrightarrow> fst answer < 0 \<and> snd answer = EINTR"

partial_function (option) xioctl :: "(nat \<Rightarrow> int \<times> int) \<Rightarrow> nat \<Rightarrow> int option" where
  "xioctl answers n = (if call_interrupted (answers n) then xioctl answers (n + 1) else Some (fst (answers n)))"

lemma xioctl_after:
  "(\<And>k. n \<le> k \<Longrightarrow> k < n + m \<Longrightarrow> call_interrupted (answers k)) \<Longrightarrow> xioctl answers n = xioctl answers (n + m)"
proof (induction m arbitrary: n)
  case (Suc m)
  have "xioctl answers n = xioctl answers (n + 1)"
    by (subst xioctl.simps) (simp add: Suc.prems)
  also have "\<dots> = xioctl answers (n + 1 + m)" by (rule Suc.IH) (simp add: Suc.prems)
  finally show ?case by simp
qed simp

lemma xioctl_sound:
  assumes "xioctl answers n = Some r"
  shows "\<exists>m. (\<forall>k. n \<le> k \<and> k < n + m \<longrightarrow> call_interrupted (answers k)) \<and> \<not> call_interrupted (answers (n + m)) \<and> r = fst (answers (n + m))"
proof (rule xioctl.raw_induct [OF _ assms], goal_cases)
  case (1 xio answers n r)
  show ?case
  proof (cases "call_interrupted (answers n)")
    case True
    with 1(2) have "xio answers (n + 1) = Some r" by simp
    from 1(1) [OF this] obtain m where m: "\<forall>k. n + 1 \<le> k \<and> k < n + 1 + m \<longrightarrow> call_interrupted (answers k)"
        "\<not> call_interrupted (answers (n + 1 + m))" "r = fst (answers (n + 1 + m))" by blast
    have "call_interrupted (answers k)" if "n \<le> k" "k < n + Suc m" for k
      using that m(1) True by (cases "k = n") auto
    with m(2,3) show ?thesis by (intro exI [of _ "Suc m"]) simp
  next
    case False
    with 1(2) show ?thesis by (intro exI [of _ 0]) auto
  qed
qed

text \<open>It returns the first answer that is not an interruption, and returns at all just when there is one.\<close>

lemma xioctl_iff:
  "xioctl answers 0 = Some r \<longleftrightarrow>
     (\<exists>m. (\<forall>k < m. call_interrupted (answers k)) \<and> \<not> call_interrupted (answers m) \<and> r = fst (answers m))"
proof
  show "xioctl answers 0 = Some r" if "\<exists>m. (\<forall>k < m. call_interrupted (answers k)) \<and> \<not> call_interrupted (answers m) \<and> r = fst (answers m)"
  proof -
    from that obtain m where m: "\<forall>k < m. call_interrupted (answers k)" "\<not> call_interrupted (answers m)" "r = fst (answers m)"
      by blast
    from m(1) have "xioctl answers 0 = xioctl answers m" using xioctl_after [of 0 m answers] by simp
    with m(2,3) show ?thesis by (subst (asm) (2) xioctl.simps) simp
  qed
qed (auto dest: xioctl_sound)

section \<open>State\<close>

record cam_buffer =
  bf_data :: "nat option"
  bf_size :: nat

record cam_timing =
  ti_poll_ms :: rat
  ti_copy_ms :: rat
  ti_driver_interval_ms :: rat
  ti_sequence_gaps :: u64

datatype cam_event =
    Opened int | ClosedFd int
  | Mapped nat nat | Unmapped nat nat
  | StreamOn | StreamOff
  | Queued nat | Dequeued nat

record camera =
  cm_device :: string
  cm_error :: string
  cm_width :: int
  cm_height :: int
  cm_fps :: int
  cm_fd :: int
  cm_negotiated_fps :: rat
  cm_timing :: cam_timing
  cm_last_driver_us :: u64
  cm_last_sequence :: u32
  cm_have_sequence :: bool
  cm_stride :: nat
  cm_streaming :: bool
  cm_buffers :: "cam_buffer list"
  cm_log :: "cam_event list"

definition no_timing :: cam_timing where
  "no_timing = \<lparr>ti_poll_ms = 0, ti_copy_ms = 0, ti_driver_interval_ms = 0, ti_sequence_gaps = 0\<rparr>"

definition V4L2Camera :: "string \<Rightarrow> int \<Rightarrow> int \<Rightarrow> int \<Rightarrow> camera" where
  "V4L2Camera device w h fps =
     \<lparr>cm_device = device, cm_error = [], cm_width = w, cm_height = h, cm_fps = fps, cm_fd = - 1,
      cm_negotiated_fps = 0, cm_timing = no_timing, cm_last_driver_us = 0, cm_last_sequence = 0,
      cm_have_sequence = False, cm_stride = 0, cm_streaming = False, cm_buffers = [], cm_log = []\<rparr>"

definition cam_emit :: "cam_event \<Rightarrow> camera \<Rightarrow> camera" where
  "cam_emit ev c = c\<lparr>cm_log := cm_log c @ [ev]\<rparr>"

definition fail :: "string \<Rightarrow> string \<Rightarrow> camera \<Rightarrow> bool \<times> camera" where
  "fail strerror text c = (False, c\<lparr>cm_error := text @ '': '' @ strerror\<rparr>)"

section \<open>Stopping and closing\<close>

definition stop :: "camera \<Rightarrow> camera" where
  "stop c = (if cm_streaming c then cam_emit StreamOff c else c)\<lparr>cm_streaming := False\<rparr>"

fun unmap_all :: "cam_buffer list \<Rightarrow> camera \<Rightarrow> camera" where
  "unmap_all [] c = c"
| "unmap_all (b # bs) c =
     unmap_all bs (case bf_data b of None \<Rightarrow> c | Some a \<Rightarrow> cam_emit (Unmapped a (bf_size b)) c)"

definition close :: "camera \<Rightarrow> camera" where
  "close c0 =
     (let c1 = stop c0; c2 = (unmap_all (cm_buffers c1) c1)\<lparr>cm_buffers := []\<rparr>;
          c3 = (if 0 \<le> cm_fd c2 then cam_emit (ClosedFd (cm_fd c2)) c2 else c2)
      in c3\<lparr>cm_fd := - 1\<rparr>)"

section \<open>Opening and starting\<close>

abbreviation V4L2_CAP_VIDEO_CAPTURE :: u32 where "V4L2_CAP_VIDEO_CAPTURE \<equiv> 1"
abbreviation V4L2_CAP_STREAMING :: u32 where "V4L2_CAP_STREAMING \<equiv> 0x04000000"
abbreviation V4L2_CAP_DEVICE_CAPS :: u32 where "V4L2_CAP_DEVICE_CAPS \<equiv> 0x80000000"
abbreviation V4L2_PIX_FMT_YUYV :: u32 where "V4L2_PIX_FMT_YUYV \<equiv> 0x56595559"

text \<open>
  The kernel's answers during \<open>open\<close>; \<open>None\<close> is a failed call. A format is width, height, pixel format and
  bytes per line; a frame interval is numerator and denominator.
\<close>

record open_env =
  oe_open :: int
  oe_strerror :: string
  oe_querycap :: "(u32 \<times> u32) option"
  oe_s_fmt :: "(u32 \<times> u32 \<times> u32 \<times> u32) option"
  oe_s_parm :: "(u32 \<times> u32) option"
  oe_g_parm :: "(u32 \<times> u32) option"
  oe_reqbufs :: "u32 option"
  oe_querybuf :: "nat \<Rightarrow> u32 option"
  oe_mmap :: "nat \<Rightarrow> nat option"

definition frame_rate :: "u32 \<times> u32 \<Rightarrow> rat" where
  "frame_rate p = (if fst p \<noteq> 0 then of_nat (unat (snd p)) / of_nat (unat (fst p)) else 0)"

fun map_buffers :: "open_env \<Rightarrow> nat list \<Rightarrow> camera \<Rightarrow> bool \<times> camera" where
  "map_buffers env [] c = (True, c)"
| "map_buffers env (i # is) c =
     (case oe_querybuf env i of
        None \<Rightarrow> fail (oe_strerror env) ''QUERYBUF'' c
      | Some len \<Rightarrow>
          (case oe_mmap env i of
             None \<Rightarrow> fail (oe_strerror env) ''mmap'' c
           | Some a \<Rightarrow>
               map_buffers env is
                 (cam_emit (Mapped a (unat len))
                   (c\<lparr>cm_buffers := (cm_buffers c)[i := \<lparr>bf_data = Some a, bf_size = unat len\<rparr>]\<rparr>))))"

text \<open>The part of \<open>open\<close> after the format is accepted.\<close>

definition setup_stream :: "open_env \<Rightarrow> camera \<Rightarrow> bool \<times> camera" where
  "setup_stream env c =
     (case oe_s_parm env of
        None \<Rightarrow> fail (oe_strerror env) ''S_PARM'' c
      | Some parm \<Rightarrow>
          let actual = (case oe_g_parm env of None \<Rightarrow> parm | Some a \<Rightarrow> a);
              c1 = c\<lparr>cm_negotiated_fps := frame_rate actual, cm_last_driver_us := 0,
                     cm_have_sequence := False, cm_timing := no_timing\<rparr>
          in case oe_reqbufs env of
               None \<Rightarrow> fail (oe_strerror env) ''REQBUFS'' c1
             | Some n \<Rightarrow>
                 if n < 2 then (False, c1\<lparr>cm_error := ''insufficient camera buffers''\<rparr>)
                 else
                   let (ok, c2) = map_buffers env [0..<unat n]
                         (c1\<lparr>cm_buffers := replicate (unat n) \<lparr>bf_data = None, bf_size = 0\<rparr>\<rparr>)
                   in if ok then (True, c2\<lparr>cm_error := []\<rparr>) else (False, c2))"

definition open_camera :: "open_env \<Rightarrow> camera \<Rightarrow> bool \<times> camera" where
  "open_camera env c0 =
     (let c1 = (close c0)\<lparr>cm_fd := oe_open env\<rparr>
      in if oe_open env < 0 then fail (oe_strerror env) ''open camera'' c1
      else
        let c = cam_emit (Opened (oe_open env)) c1
        in case oe_querycap env of
             None \<Rightarrow> fail (oe_strerror env) ''QUERYCAP'' c
           | Some (capabilities, device_caps) \<Rightarrow>
               let caps = (if capabilities AND V4L2_CAP_DEVICE_CAPS \<noteq> 0 then device_caps else capabilities)
               in if caps AND V4L2_CAP_VIDEO_CAPTURE = 0 \<or> caps AND V4L2_CAP_STREAMING = 0
                  then (False, c\<lparr>cm_error := ''camera requires single-planar capture + streaming''\<rparr>)
                  else
                    case oe_s_fmt env of
                      None \<Rightarrow> fail (oe_strerror env) ''S_FMT'' c
                    | Some (w, h, pixelformat, bytesperline) \<Rightarrow>
                        if w \<noteq> word_of_int (cm_width c) \<or> h \<noteq> word_of_int (cm_height c) \<or> pixelformat \<noteq> V4L2_PIX_FMT_YUYV
                        then (False, c\<lparr>cm_error := ''camera changed requested size/format; use a supported YUYV mode''\<rparr>)
                        else
                          let c2 = c\<lparr>cm_stride := unat bytesperline\<rparr>
                          in if cm_stride c2 < nat (cm_width c2) * 2
                             then (False, c2\<lparr>cm_error := ''invalid camera stride''\<rparr>)
                             else setup_stream env c2)"

fun queue_all :: "string \<Rightarrow> (nat \<Rightarrow> bool) \<Rightarrow> nat list \<Rightarrow> camera \<Rightarrow> bool \<times> camera" where
  "queue_all strerror ok [] c = (True, c)"
| "queue_all strerror ok (i # is) c =
     (if \<not> ok i then fail strerror ''QBUF'' c else queue_all strerror ok is (cam_emit (Queued i) c))"

definition start :: "string \<Rightarrow> (nat \<Rightarrow> bool) \<Rightarrow> bool \<Rightarrow> camera \<Rightarrow> bool \<times> camera" where
  "start strerror qbuf streamon c =
     (let (ok, c1) = queue_all strerror qbuf [0..<length (cm_buffers c)] c
      in if \<not> ok then (False, c1)
         else if \<not> streamon then fail strerror ''STREAMON'' c1
         else (True, (cam_emit StreamOn c1)\<lparr>cm_streaming := True\<rparr>))"

section \<open>Copying a frame\<close>

datatype frame_result = Frame | Timeout | Error

datatype poll_answer = PollNothing | PollIntr | PollFailed | PollReady bool

text \<open>A dequeued buffer: index, error flag, bytes used, time stamp and sequence number.\<close>

record dq_buffer =
  dq_index :: u32
  dq_flag_error :: bool
  dq_bytesused :: u32
  dq_sec :: u64
  dq_usec :: u64
  dq_sequence :: u32

datatype dq_answer = DqAgain | DqFailed | DqOk dq_buffer

text \<open>The clock readings are in nanoseconds; \<open>fe_memory a\<close> are the bytes of the mapping at \<open>a\<close>.\<close>

record frame_env =
  fe_strerror :: string
  fe_clock :: "nat \<Rightarrow> nat"
  fe_poll :: poll_answer
  fe_dqbuf :: dq_answer
  fe_qbuf :: bool
  fe_memory :: "nat \<Rightarrow> byte list"

text \<open>\<open>memcpy\<close> between byte arrays; \<open>None\<close> is an access outside one of them.\<close>

definition memcpy :: "byte list \<Rightarrow> nat \<Rightarrow> byte list \<Rightarrow> nat \<Rightarrow> nat \<Rightarrow> byte list option" where
  "memcpy dst d src s n =
     (if d + n \<le> length dst \<and> s + n \<le> length src
      then Some (take d dst @ take n (drop s src) @ drop (d + n) dst) else None)"

fun copy_rows :: "byte list \<Rightarrow> nat \<Rightarrow> nat \<Rightarrow> nat list \<Rightarrow> byte list \<Rightarrow> byte list option" where
  "copy_rows src stride row_bytes [] dst = Some dst"
| "copy_rows src stride row_bytes (row # rows) dst =
     (case memcpy dst (row * row_bytes) src (row * stride) row_bytes of
        None \<Rightarrow> None
      | Some dst1 \<Rightarrow> copy_rows src stride row_bytes rows dst1)"

definition valid_frame :: "nat \<Rightarrow> dq_buffer \<Rightarrow> camera \<Rightarrow> bool" where
  "valid_frame capacity b c \<longleftrightarrow>
     (let needed = cm_stride c * nat (cm_height c - 1) + nat (cm_width c) * 2
      in unat (dq_index b) < length (cm_buffers c) \<and> \<not> dq_flag_error b \<and>
         needed \<le> unat (dq_bytesused b) \<and> unat (dq_bytesused b) \<le> bf_size (cm_buffers c ! unat (dq_index b)) \<and>
         nat (cm_width c) * nat (cm_height c) * 2 \<le> capacity)"

definition frame_timing :: "dq_buffer \<Rightarrow> camera \<Rightarrow> camera" where
  "frame_timing b c =
     (let driver_us = dq_sec b * 1000000 + dq_usec b; t = cm_timing c;
          t1 = (if cm_last_driver_us c \<noteq> 0 \<and> cm_last_driver_us c < driver_us
                then t\<lparr>ti_driver_interval_ms := of_nat (unat (driver_us - cm_last_driver_us c)) / 1000\<rparr> else t);
          t2 = (if cm_have_sequence c \<and> cm_last_sequence c < dq_sequence b
                then t1\<lparr>ti_sequence_gaps := ucast (dq_sequence b - cm_last_sequence c - 1)\<rparr> else t1)
      in c\<lparr>cm_timing := t2, cm_last_driver_us := driver_us, cm_last_sequence := dq_sequence b, cm_have_sequence := True\<rparr>)"

definition set_error :: "string \<Rightarrow> camera \<Rightarrow> camera" where
  "set_error text c = c\<lparr>cm_error := text\<rparr>"

text \<open>The result, the destination buffer (\<open>None\<close> after a fault) and the camera.\<close>

definition copyFrame :: "frame_env \<Rightarrow> byte list \<Rightarrow> camera \<Rightarrow> frame_result \<times> byte list option \<times> camera" where
  "copyFrame env dst c0 =
     (let c = c0\<lparr>cm_timing := no_timing\<lparr>ti_poll_ms := of_nat (fe_clock env 1 - fe_clock env 0) / 1000000\<rparr>\<rparr>
      in case fe_poll env of
           PollNothing \<Rightarrow> (Timeout, Some dst, c)
         | PollIntr \<Rightarrow> (Timeout, Some dst, c)
         | PollFailed \<Rightarrow> (Error, Some dst, snd (fail (fe_strerror env) ''camera poll'' c))
         | PollReady True \<Rightarrow> (Error, Some dst, set_error ''camera disconnected or poll device error'' c)
         | PollReady False \<Rightarrow>
             (case fe_dqbuf env of
                DqAgain \<Rightarrow> (Timeout, Some dst, c)
              | DqFailed \<Rightarrow> (Error, Some dst, snd (fail (fe_strerror env) ''DQBUF'' c))
              | DqOk b \<Rightarrow>
                  let c1 = cam_emit (Dequeued (unat (dq_index b))) c;
                      valid = valid_frame (length dst) b c1;
                      c2 = (if valid
                            then (frame_timing b c1)\<lparr>cm_timing :=
                                   (cm_timing (frame_timing b c1))\<lparr>ti_copy_ms := of_nat (fe_clock env 3 - fe_clock env 2) / 1000000\<rparr>\<rparr>
                            else c1);
                      dst1 = (if valid
                              then copy_rows (fe_memory env (the (bf_data (cm_buffers c1 ! unat (dq_index b)))))
                                     (cm_stride c1) (nat (cm_width c1) * 2) [0..<nat (cm_height c1)] dst
                              else Some dst)
                  in if \<not> fe_qbuf env
                     then (Error, dst1, snd (fail (fe_strerror env) ''return camera buffer'' c2))
                     else
                       let c3 = cam_emit (Queued (unat (dq_index b))) c2
                       in if \<not> valid then (Error, dst1, set_error ''invalid or truncated camera frame'' c3)
                          else (Frame, dst1, c3)))"

section \<open>The operations together\<close>

text \<open>The camera's owner calls \<open>start\<close> only as \<open>open() && start()\<close>.\<close>

datatype cam_op =
    OpenStart open_env string "nat \<Rightarrow> bool" bool
  | Stop
  | Close
  | Copy frame_env "byte list"

fun cam_exec :: "cam_op \<Rightarrow> camera \<Rightarrow> camera" where
  "cam_exec (OpenStart env err qbuf on) c =
     (let (ok, c1) = open_camera env c in if ok then snd (start err qbuf on c1) else c1)"
| "cam_exec Stop c = stop c"
| "cam_exec Close c = close c"
| "cam_exec (Copy env dst) c = snd (snd (copyFrame env dst c))"

fun cam_run :: "cam_op list \<Rightarrow> camera \<Rightarrow> camera" where
  "cam_run [] c = c"
| "cam_run (op # ops) c = cam_run ops (cam_exec op c)"

interpretation camera_machine: step_machine cam_exec cam_run
  by unfold_locales simp_all

text \<open>
  What is held: the buffers that are mapped, the descriptor that is open, the stream that is on. The log
  has acquired and released everything else.
\<close>

definition held :: "camera \<Rightarrow> bool" where
  "held c \<longleftrightarrow>
     (\<forall>a n. count_list (cm_log c) (Mapped a n) =
        count_list (cm_log c) (Unmapped a n) + count (mset (cm_buffers c)) \<lparr>bf_data = Some a, bf_size = n\<rparr>) \<and>
     (\<forall>fd \<ge> 0. count_list (cm_log c) (Opened fd) = count_list (cm_log c) (ClosedFd fd) + of_bool (cm_fd c = fd)) \<and>
     count_list (cm_log c) StreamOn = count_list (cm_log c) StreamOff + of_bool (cm_streaming c)"

text \<open>A buffer that is not mapped has no bytes; buffers exist only with a stride that holds a row.\<close>

definition sound :: "camera \<Rightarrow> bool" where
  "sound c \<longleftrightarrow> 0 < cm_width c \<and> 0 < cm_height c \<and>
     (\<forall>b \<in> set (cm_buffers c). bf_data b = None \<longrightarrow> bf_size b = 0) \<and>
     (cm_buffers c \<noteq> [] \<longrightarrow> nat (cm_width c) * 2 \<le> cm_stride c)"

definition cam_inv :: "camera \<Rightarrow> bool" where
  "cam_inv c \<longleftrightarrow> held c \<and> sound c"

lemma cam_emit_simps [simp]:
  "cm_log (cam_emit ev c) = cm_log c @ [ev]" "cm_buffers (cam_emit ev c) = cm_buffers c"
  "cm_fd (cam_emit ev c) = cm_fd c" "cm_streaming (cam_emit ev c) = cm_streaming c"
  "cm_width (cam_emit ev c) = cm_width c" "cm_height (cam_emit ev c) = cm_height c"
  "cm_stride (cam_emit ev c) = cm_stride c" "cm_timing (cam_emit ev c) = cm_timing c"
  by (simp_all add: cam_emit_def)

lemma fail_simps [simp]:
  "fst (fail e t c) = False" "cm_log (snd (fail e t c)) = cm_log c" "cm_buffers (snd (fail e t c)) = cm_buffers c"
  "cm_fd (snd (fail e t c)) = cm_fd c" "cm_streaming (snd (fail e t c)) = cm_streaming c"
  "cm_width (snd (fail e t c)) = cm_width c" "cm_height (snd (fail e t c)) = cm_height c"
  "cm_stride (snd (fail e t c)) = cm_stride c"
  by (simp_all add: fail_def)

lemma frame_timing_simps [simp]:
  "cm_log (frame_timing b c) = cm_log c" "cm_buffers (frame_timing b c) = cm_buffers c"
  "cm_fd (frame_timing b c) = cm_fd c" "cm_streaming (frame_timing b c) = cm_streaming c"
  "cm_width (frame_timing b c) = cm_width c" "cm_height (frame_timing b c) = cm_height c"
  "cm_stride (frame_timing b c) = cm_stride c"
  by (simp_all add: frame_timing_def Let_def)

lemma cam_inv_cong:
  "cam_inv c \<Longrightarrow> cm_log c1 = cm_log c \<Longrightarrow> cm_buffers c1 = cm_buffers c \<Longrightarrow> cm_fd c1 = cm_fd c \<Longrightarrow>
     cm_streaming c1 = cm_streaming c \<Longrightarrow> cm_width c1 = cm_width c \<Longrightarrow> cm_height c1 = cm_height c \<Longrightarrow>
     cm_stride c1 = cm_stride c \<Longrightarrow> cam_inv c1"
  by (simp add: cam_inv_def held_def sound_def)

lemma cam_inv_error [simp]: "cam_inv (c\<lparr>cm_error := e\<rparr>) \<longleftrightarrow> cam_inv c"
  by (simp add: cam_inv_def held_def sound_def)

lemma cam_inv_fail: "cam_inv c \<Longrightarrow> cam_inv (snd (fail e t c))"
  by (erule cam_inv_cong) simp_all

lemma cam_inv_queued [simp]: "cam_inv (cam_emit (Queued i) c) \<longleftrightarrow> cam_inv c" "cam_inv (cam_emit (Dequeued i) c) \<longleftrightarrow> cam_inv c"
  by (simp_all add: cam_inv_def held_def sound_def)

lemma stop_inv: "cam_inv c \<Longrightarrow> cam_inv (stop c)"
  by (simp add: stop_def cam_inv_def held_def sound_def)

fun unmap_events :: "cam_buffer list \<Rightarrow> cam_event list" where
  "unmap_events [] = []"
| "unmap_events (b # bs) = (case bf_data b of None \<Rightarrow> [] | Some a \<Rightarrow> [Unmapped a (bf_size b)]) @ unmap_events bs"

lemma unmap_all_log:
  "cm_log (unmap_all bs c) = cm_log c @ unmap_events bs \<and>
   cm_fd (unmap_all bs c) = cm_fd c \<and> cm_streaming (unmap_all bs c) = cm_streaming c \<and>
   cm_width (unmap_all bs c) = cm_width c \<and> cm_height (unmap_all bs c) = cm_height c \<and>
   cm_stride (unmap_all bs c) = cm_stride c"
  by (induction bs arbitrary: c) (auto split: option.splits)

lemma count_unmapped:
  "count_list (unmap_events bs) (Unmapped a n) =
     count (mset bs) \<lparr>bf_data = Some a, bf_size = n\<rparr>"
  by (induction bs) (auto split: option.splits)

lemma count_other:
  "(\<And>a n. ev \<noteq> Unmapped a n) \<Longrightarrow>
     count_list (unmap_events bs) ev = 0"
  by (induction bs) (auto split: option.splits)

lemma close_inv: "cam_inv c \<Longrightarrow> cam_inv (close c)"
proof -
  assume inv: "cam_inv c"
  define c1 where "c1 = stop c"
  have c1: "cam_inv c1" unfolding c1_def by (rule stop_inv [OF inv])
  have "cm_buffers (close c) = []" "cm_fd (close c) = - 1" "cm_streaming (close c) = cm_streaming c1"
      "cm_width (close c) = cm_width c1" "cm_height (close c) = cm_height c1"
      "cm_log (close c) = cm_log c1 @ unmap_events (cm_buffers c1) @
         (if 0 \<le> cm_fd c1 then [ClosedFd (cm_fd c1)] else [])"
    using unmap_all_log [of "cm_buffers c1" c1] by (simp_all add: close_def Let_def flip: c1_def)
  with c1 show ?thesis
    by (auto simp: cam_inv_def held_def sound_def count_unmapped count_other)
qed

lemma map_buffers_inv:
  assumes "cam_inv c" and "distinct is" and "\<forall>i \<in> set is. i < length (cm_buffers c) \<and> bf_data (cm_buffers c ! i) = None"
  shows "cam_inv (snd (map_buffers env is c))"
  using assms
proof (induction "is" arbitrary: c)
  case (Cons i js)
  show ?case
  proof (cases "oe_querybuf env i")
    case (Some len)
    show ?thesis
    proof (cases "oe_mmap env i")
      case (Some a)
      define c1 where "c1 = cam_emit (Mapped a (unat len))
        (c\<lparr>cm_buffers := (cm_buffers c)[i := \<lparr>bf_data = Some a, bf_size = unat len\<rparr>]\<rparr>)"
      have i: "i < length (cm_buffers c)" "bf_data (cm_buffers c ! i) = None" using Cons.prems(3) by auto
      have sub: "count (mset (cm_buffers c) - {#cm_buffers c ! i#}) \<lparr>bf_data = Some a', bf_size = n\<rparr> =
          count (mset (cm_buffers c)) \<lparr>bf_data = Some a', bf_size = n\<rparr>" for a' n
        using i(2) by auto
      have "cam_inv c1"
        using Cons.prems(1) i
        by (auto dest!: set_update_subset_insert [THEN subsetD] simp: cam_inv_def held_def sound_def c1_def mset_update sub)
      moreover have "\<forall>j \<in> set js. j < length (cm_buffers c1) \<and> bf_data (cm_buffers c1 ! j) = None"
        using Cons.prems(2,3) by (auto simp: c1_def nth_list_update)
      ultimately show ?thesis
        using Cons.IH [of c1] Cons.prems(2) \<open>oe_querybuf env i = Some len\<close> Some by (simp add: c1_def)
    qed (use Cons \<open>oe_querybuf env i = Some len\<close> in \<open>simp add: cam_inv_fail\<close>)
  qed (use Cons in \<open>simp add: cam_inv_fail\<close>)
qed simp

lemma setup_stream_inv:
  assumes "cam_inv c" and "cm_buffers c = []" and "nat (cm_width c) * 2 \<le> cm_stride c"
  shows "cam_inv (snd (setup_stream env c))"
proof -
  define c1 where "c1 = (\<lambda>parm bs. c\<lparr>cm_negotiated_fps := frame_rate parm, cm_last_driver_us := 0,
      cm_have_sequence := False, cm_timing := no_timing, cm_buffers := bs\<rparr>)"
  have "cam_inv (c1 parm (replicate n \<lparr>bf_data = None, bf_size = 0\<rparr>))" for parm n
    using assms by (simp add: cam_inv_def held_def sound_def c1_def)
  then have mapped: "cam_inv (snd (map_buffers env [0..<n] (c1 parm (replicate n \<lparr>bf_data = None, bf_size = 0\<rparr>))))" for parm n
    by (rule map_buffers_inv) (simp_all add: c1_def)
  then have mapped: "map_buffers env [0..<n] (c1 parm (replicate n \<lparr>bf_data = None, bf_size = 0\<rparr>)) = (ok, c2) \<Longrightarrow>
      cam_inv c2" for parm n ok c2
    by (metis snd_conv)
  have "c1 parm [] = c\<lparr>cm_negotiated_fps := frame_rate parm, cm_last_driver_us := 0,
      cm_have_sequence := False, cm_timing := no_timing\<rparr>" for parm
    using assms(2) by (cases c) (simp add: c1_def)
  moreover have "cam_inv (c1 parm [])" for parm
    using assms by (simp add: cam_inv_def held_def sound_def c1_def)
  ultimately have plain: "cam_inv (c\<lparr>cm_negotiated_fps := frame_rate parm, cm_last_driver_us := 0,
      cm_have_sequence := False, cm_timing := no_timing\<rparr>)" for parm
    by metis
  show ?thesis
    using assms(1) plain unfolding setup_stream_def
    by (auto simp: Let_def cam_inv_fail dest: mapped [unfolded c1_def] split: option.splits prod.splits if_splits)
qed

lemma open_camera_inv: "cam_inv c \<Longrightarrow> cam_inv (snd (open_camera env c))"
proof -
  assume "cam_inv c"
  then have c0: "cam_inv (close c)" "cm_buffers (close c) = []" "cm_fd (close c) = - 1"
    by (simp_all add: close_inv, simp_all add: close_def Let_def)
  define c1 where "c1 = (close c)\<lparr>cm_fd := oe_open env\<rparr>"
  define c2 where "c2 = cam_emit (Opened (oe_open env)) c1"
  have c2: "cam_inv c2" "cm_buffers c2 = []" if "0 \<le> oe_open env"
    using c0 that by (auto simp: cam_inv_def held_def sound_def c1_def c2_def)
  have c1: "cam_inv c1" if "oe_open env < 0"
    using c0 that by (auto simp: cam_inv_def held_def sound_def c1_def)
  have err: "cam_inv (c2\<lparr>cm_error := e\<rparr>)" "cam_inv (c2\<lparr>cm_stride := k, cm_error := e\<rparr>)" "cam_inv (c2\<lparr>cm_stride := k\<rparr>)"
    if "0 \<le> oe_open env" for e k
    using c2 [OF that] by (simp_all add: cam_inv_def held_def sound_def)
  have leaf: "cam_inv (snd (setup_stream env (c2\<lparr>cm_stride := k\<rparr>)))"
    if "0 \<le> oe_open env" "\<not> k < nat (cm_width c2) * 2" for k
    using that c2 err(3) by (intro setup_stream_inv) simp_all
  have leaves: "cam_inv (snd (fail e t c2))" "cam_inv (c2\<lparr>cm_error := m\<rparr>)"
    "cam_inv (c2\<lparr>cm_stride := k, cm_error := m\<rparr>)" if "0 \<le> oe_open env" for e t m k
    using c2 err that by (simp_all add: cam_inv_fail)
  show ?thesis
  proof (cases "oe_open env < 0")
    case True
    then show ?thesis by (simp add: open_camera_def Let_def cam_inv_fail c1 flip: c1_def)
  next
    case False
    then have ok: "0 \<le> oe_open env" by simp
    obtain caps fmt where answers: "oe_querycap env = caps" "oe_s_fmt env = fmt" by blast
    show ?thesis
      unfolding open_camera_def Let_def c1_def [symmetric] c2_def [symmetric] answers
      by (cases caps; cases fmt) (simp_all add: False c2 [OF ok] err [OF ok] leaves [OF ok] leaf [OF ok] case_prod_unfold)
  qed
qed

lemma queue_all_inv: "cam_inv c \<Longrightarrow> cam_inv (snd (queue_all e ok is c))"
  by (induction "is" arbitrary: c) (simp_all add: cam_inv_fail)

lemma queue_all_streaming: "cm_streaming (snd (queue_all e ok is c)) = cm_streaming c"
  by (induction "is" arbitrary: c) simp_all

lemma start_inv:
  assumes "cam_inv c" and "\<not> cm_streaming c"
  shows "cam_inv (snd (start e qbuf on c))"
proof -
  obtain ok c1 where q: "queue_all e qbuf [0..<length (cm_buffers c)] c = (ok, c1)" by fastforce
  then have c1: "cam_inv c1" "\<not> cm_streaming c1"
    using queue_all_inv [OF assms(1)] queue_all_streaming assms(2) by (metis snd_conv)+
  then have "cam_inv ((cam_emit StreamOn c1)\<lparr>cm_streaming := True\<rparr>)"
    by (simp add: cam_inv_def held_def sound_def)
  with c1 show ?thesis by (simp add: start_def Let_def q cam_inv_fail)
qed

lemma copyFrame_inv: "cam_inv c \<Longrightarrow> cam_inv (snd (snd (copyFrame env dst c)))"
proof -
  assume inv: "cam_inv c"
  have "cm_log (snd (snd (copyFrame env dst c))) \<in> {cm_log c} \<union> (\<Union>i. {cm_log c @ [Dequeued i], cm_log c @ [Dequeued i, Queued i]}) \<and>
     cm_buffers (snd (snd (copyFrame env dst c))) = cm_buffers c \<and> cm_fd (snd (snd (copyFrame env dst c))) = cm_fd c \<and>
     cm_streaming (snd (snd (copyFrame env dst c))) = cm_streaming c \<and>
     cm_width (snd (snd (copyFrame env dst c))) = cm_width c \<and> cm_height (snd (snd (copyFrame env dst c))) = cm_height c \<and>
     cm_stride (snd (snd (copyFrame env dst c))) = cm_stride c"
    by (simp add: copyFrame_def Let_def set_error_def split: poll_answer.splits bool.splits dq_answer.splits)
  then show ?thesis using inv by (auto simp: cam_inv_def held_def sound_def)
qed

lemma open_camera_stopped: "\<not> cm_streaming (snd (open_camera env c))"
proof -
  have map: "cm_streaming (snd (map_buffers env is c)) = cm_streaming c" for "is" c
    by (induction "is" arbitrary: c) (simp_all split: option.splits)
  have stopped: "\<not> cm_streaming (snd (setup_stream env c))" if "\<not> cm_streaming c" for c
    using that map
    by (simp add: setup_stream_def Let_def case_prod_unfold split: option.splits)
  have shut: "\<not> cm_streaming (close c)"
    using unmap_all_log [of "cm_buffers (stop c)" "stop c"] by (simp add: close_def Let_def) (simp add: stop_def)
  obtain caps fmt where answers: "oe_querycap env = caps" "oe_s_fmt env = fmt" by blast
  show ?thesis unfolding open_camera_def Let_def answers
    by (cases caps; cases fmt) (simp_all add: shut stopped case_prod_unfold)
qed

lemma cam_exec_inv: "cam_inv c \<Longrightarrow> cam_inv (cam_exec op c)"
proof (cases op)
  case (OpenStart env err qbuf on)
  assume inv: "cam_inv c"
  obtain ok c1 where o: "open_camera env c = (ok, c1)" by fastforce
  with inv have "cam_inv c1" "\<not> cm_streaming c1" using open_camera_inv open_camera_stopped by (metis snd_conv)+
  with OpenStart o show ?thesis by (simp add: start_inv)
qed (simp_all add: stop_inv close_inv copyFrame_inv)

lemma cam_run_inv: "cam_inv c \<Longrightarrow> cam_inv (cam_run ops c)"
  by (erule camera_machine.machine_invariant) (rule cam_exec_inv)

lemma V4L2Camera_inv: "0 < w \<Longrightarrow> 0 < h \<Longrightarrow> cam_inv (V4L2Camera device w h fps)"
  by (simp add: cam_inv_def held_def sound_def V4L2Camera_def)

text \<open>C33: The camera leaks nothing: after any sequence of opens, starts, copies, stops and closes, however many
  of the kernel's calls failed and wherever they did, a final \<open>close\<close> leaves every mapping unmapped as often
  as it was mapped and with the same length, every descriptor closed as often as it was opened, and the
  stream switched off as often as it was switched on.\<close>

theorem camera_releases_everything:
  assumes "0 < w" and "0 < h"
  shows "let log = cm_log (close (cam_run ops (V4L2Camera device w h fps)))
         in (\<forall>a n. count_list log (Mapped a n) = count_list log (Unmapped a n)) \<and>
            (\<forall>fd \<ge> 0. count_list log (Opened fd) = count_list log (ClosedFd fd)) \<and>
            count_list log StreamOn = count_list log StreamOff"
proof -
  define c where "c = cam_run ops (V4L2Camera device w h fps)"
  have "cam_inv (close c)" unfolding c_def by (intro close_inv cam_run_inv V4L2Camera_inv assms)
  moreover have "cm_buffers (close c) = []" "cm_fd (close c) = - 1" by (simp_all add: close_def Let_def)
  moreover have "\<not> cm_streaming (close c)"
    using unmap_all_log [of "cm_buffers (stop c)" "stop c"] by (simp add: close_def Let_def) (simp add: stop_def)
  ultimately show ?thesis by (simp add: cam_inv_def held_def flip: c_def)
qed

section \<open>The copied frame\<close>

text \<open>The packed frame of a buffer whose rows start every \<open>stride\<close> bytes.\<close>

definition packed_rows :: "byte list \<Rightarrow> nat \<Rightarrow> nat \<Rightarrow> nat \<Rightarrow> byte list" where
  "packed_rows src stride row_bytes rows = concat (map (\<lambda>r. take row_bytes (drop (r * stride) src)) [0..<rows])"

lemma copy_rows_append:
  "copy_rows src stride n (xs @ ys) dst =
     (case copy_rows src stride n xs dst of None \<Rightarrow> None | Some d \<Rightarrow> copy_rows src stride n ys d)"
  by (induction xs arbitrary: dst) (auto split: option.splits)

lemma length_packed_rows:
  "(\<And>r. r < rows \<Longrightarrow> r * stride + n \<le> length src) \<Longrightarrow> length (packed_rows src stride n rows) = rows * n"
proof (induction rows)
  case (Suc rows)
  have "length (packed_rows src stride n rows) = rows * n" by (rule Suc.IH) (use Suc.prems in simp)
  moreover have "rows * stride + n \<le> length src" by (rule Suc.prems) simp
  ultimately show ?case by (simp add: packed_rows_def)
qed (simp add: packed_rows_def)

lemma copy_rows_packed:
  assumes "\<And>r. r < rows \<Longrightarrow> r * stride + n \<le> length src" and "rows * n \<le> length dst"
  shows "copy_rows src stride n [0..<rows] dst = Some (packed_rows src stride n rows @ drop (rows * n) dst)"
  using assms
proof (induction rows)
  case (Suc rows)
  have len: "length (packed_rows src stride n rows) = rows * n"
    by (rule length_packed_rows) (use Suc.prems in simp)
  have row: "rows * stride + n \<le> length src" by (rule Suc.prems(1)) simp
  have "copy_rows src stride n [0..<rows] dst = Some (packed_rows src stride n rows @ drop (rows * n) dst)"
    using Suc by simp
  moreover have "packed_rows src stride n (Suc rows) = packed_rows src stride n rows @ take n (drop (rows * stride) src)"
    by (simp add: packed_rows_def)
  ultimately show ?case
    using row len Suc.prems(2) by (simp add: copy_rows_append memcpy_def add.commute)
qed (simp add: packed_rows_def)

lemma rows_in_bounds:
  assumes "valid_frame capacity b c" and "sound c" and "r < nat (cm_height c)"
  shows "r * cm_stride c + nat (cm_width c) * 2 \<le> bf_size (cm_buffers c ! unat (dq_index b))"
proof -
  have "r \<le> nat (cm_height c - 1)" using assms(3) by linarith
  then have "r * cm_stride c \<le> cm_stride c * nat (cm_height c - 1)" by (subst mult.commute) (rule mult_le_mono2)
  moreover have "cm_stride c * nat (cm_height c - 1) + nat (cm_width c) * 2 \<le> bf_size (cm_buffers c ! unat (dq_index b))"
    using assms(1) unfolding valid_frame_def Let_def by linarith
  ultimately show ?thesis by linarith
qed

text \<open>C32: Copying a frame never touches memory outside the destination or the mapped buffer, whatever the driver
  reports (index, length, stride, error flag) and whatever happened to the camera before. When it returns a
  frame, the destination holds exactly the packed rows of the buffer that the driver handed out, followed by
  what was there beyond the frame; otherwise, unless only handing the buffer back failed, the destination is
  unchanged.\<close>

theorem frame_copied_in_bounds:
  assumes "0 < w" and "0 < h"
    and "copyFrame env dst (cam_run ops (V4L2Camera device w h fps)) = (result, dst1, c1)"
    and "\<forall>b \<in> set (cm_buffers (cam_run ops (V4L2Camera device w h fps))). \<forall>a. bf_data b = Some a \<longrightarrow>
           length (fe_memory env a) = bf_size b"
  shows "dst1 \<noteq> None \<and>
         (result = Frame \<longrightarrow> (\<exists>b a. fe_dqbuf env = DqOk b \<and> bf_data (cm_buffers c1 ! unat (dq_index b)) = Some a \<and>
            dst1 = Some (packed_rows (fe_memory env a) (cm_stride c1) (nat (cm_width c1) * 2) (nat (cm_height c1)) @
                         drop (nat (cm_height c1) * (nat (cm_width c1) * 2)) dst))) \<and>
         (result \<noteq> Frame \<and> fe_qbuf env \<longrightarrow> dst1 = Some dst)"
proof -
  define c where "c = cam_run ops (V4L2Camera device w h fps)"
  have sound: "sound c" using cam_run_inv [OF V4L2Camera_inv [OF assms(1,2)]] by (simp add: c_def cam_inv_def)
  have copy: "(\<exists>a. bf_data (cm_buffers c ! unat (dq_index b)) = Some a) \<and>
      copy_rows (fe_memory env (the (bf_data (cm_buffers c ! unat (dq_index b))))) (cm_stride c) (nat (cm_width c) * 2) [0..<nat (cm_height c)] dst =
        Some (packed_rows (fe_memory env (the (bf_data (cm_buffers c ! unat (dq_index b))))) (cm_stride c) (nat (cm_width c) * 2) (nat (cm_height c)) @
              drop (nat (cm_height c) * (nat (cm_width c) * 2)) dst)"
    if valid: "valid_frame (length dst) b c" for b
  proof -
    let ?b = "cm_buffers c ! unat (dq_index b)"
    have mem: "?b \<in> set (cm_buffers c)" using valid by (simp add: valid_frame_def Let_def)
    have "0 < nat (cm_width c)" using sound by (simp add: sound_def)
    then have "bf_size ?b \<noteq> 0" using valid by (auto simp: valid_frame_def Let_def)
    then obtain a where a: "bf_data ?b = Some a" using sound mem by (fastforce simp: sound_def)
    then have len: "length (fe_memory env a) = bf_size ?b" using assms(4) mem by (auto simp flip: c_def)
    have "nat (cm_height c) * (nat (cm_width c) * 2) \<le> length dst"
      using valid by (simp add: valid_frame_def Let_def ac_simps)
    then show ?thesis
      using copy_rows_packed [OF rows_in_bounds [OF valid sound, folded len]] a by simp
  qed
  have frame: "valid_frame n b (cam_emit ev (c\<lparr>cm_timing := t\<rparr>)) = valid_frame n b c" for n b ev t
    by (simp add: valid_frame_def)
  from assms(3) [folded c_def] copy show ?thesis
    unfolding copyFrame_def Let_def frame
    by (fastforce simp: fail_def set_error_def split: poll_answer.splits bool.splits dq_answer.splits if_splits)
qed

section \<open>Examples\<close>

text \<open>A camera of 2 x 2 pixels whose driver uses rows of 6 bytes and maps two buffers of 12 bytes.\<close>

definition demo_open :: open_env where
  "demo_open = \<lparr>oe_open = 5, oe_strerror = ''error'', oe_querycap = Some (0x84000001, 0x04000001),
     oe_s_fmt = Some (2, 2, V4L2_PIX_FMT_YUYV, 6), oe_s_parm = Some (1, 30), oe_g_parm = None,
     oe_reqbufs = Some 2, oe_querybuf = (\<lambda>i. Some 12), oe_mmap = (\<lambda>i. Some (100 * (i + 1)))\<rparr>"

definition demo_frame :: frame_env where
  "demo_frame = \<lparr>fe_strerror = ''error'', fe_clock = (\<lambda>n. 1000000 * n), fe_poll = PollReady False,
     fe_dqbuf = DqOk \<lparr>dq_index = 1, dq_flag_error = False, dq_bytesused = 10, dq_sec = 3, dq_usec = 7, dq_sequence = 9\<rparr>,
     fe_qbuf = True, fe_memory = (\<lambda>a. if a = 200 then [0, 1, 2, 3, 255, 255, 4, 5, 6, 7, 255, 255] else replicate 12 0)\<rparr>"

abbreviation demo_camera :: camera where
  "demo_camera \<equiv> cam_run [OpenStart demo_open ''error'' (\<lambda>_. True) True] (V4L2Camera ''/dev/video0'' 2 2 30)"

theorem camera_releases_everything_witness:
  "count_list (cm_log (close demo_camera)) (Mapped 100 12) = 1 \<and>
   count_list (cm_log (close demo_camera)) (Unmapped 100 12) = 1"
proof -
  have "count_list (cm_log (close demo_camera)) (Mapped 100 12) = 1" by code_simp
  with camera_releases_everything [of 2 2 "[OpenStart demo_open ''error'' (\<lambda>_. True) True]" "''/dev/video0''" 30]
  show ?thesis by (simp add: Let_def)
qed

lemma demo_buffers:
  "cm_buffers demo_camera = [\<lparr>bf_data = Some 100, bf_size = 12\<rparr>, \<lparr>bf_data = Some 200, bf_size = 12\<rparr>]"
  by code_simp

theorem frame_copied_in_bounds_witness:
  "fst (snd (copyFrame demo_frame (replicate 10 9) demo_camera)) = Some ([0, 1, 2, 3, 4, 5, 6, 7] @ [9, 9]) \<and>
   (\<exists>a. Some ([0, 1, 2, 3, 4, 5, 6, 7] @ [9, 9]) =
     Some (packed_rows (fe_memory demo_frame a) 6 4 2 @ drop 8 (replicate 10 9)))"
proof -
  obtain result dst1 c1 where copy: "copyFrame demo_frame (replicate 10 9) demo_camera = (result, dst1, c1)"
    by (metis surj_pair)
  have "fst (copyFrame demo_frame (replicate 10 9) demo_camera) = Frame"
      "fst (snd (copyFrame demo_frame (replicate 10 9) demo_camera)) = Some [0, 1, 2, 3, 4, 5, 6, 7, 9, 9]"
      "(\<lambda>c. (cm_stride c, cm_width c, cm_height c)) (snd (snd (copyFrame demo_frame (replicate 10 9) demo_camera))) = (6, 2, 2)"
    by code_simp+
  then have c1: "result = Frame" "dst1 = Some [0, 1, 2, 3, 4, 5, 6, 7, 9, 9]" "cm_stride c1 = 6" "cm_width c1 = 2" "cm_height c1 = 2"
    by (simp_all only: copy fst_conv snd_conv prod.case prod.inject)
  have "\<forall>b \<in> set (cm_buffers demo_camera). \<forall>a. bf_data b = Some a \<longrightarrow> length (fe_memory demo_frame a) = bf_size b"
    unfolding demo_buffers by (simp add: demo_frame_def)
  from frame_copied_in_bounds [OF _ _ copy this] c1 show ?thesis
    by (auto simp: copy simp del: cam_run.simps)
qed

end
