(* ===== verification/VisionLoops.thy ===== *)
theory VisionLoops
  imports VisionCommands V4L2Camera
begin

text \<open>
  The threads of \<open>app/VisionPipeline.cpp\<close>: capture, inference, snapshots, the network thread and the caller
  of \<open>stop\<close>. Each thread is a program counter with its local variables, and a step runs it from one access
  of the shared state to the next (a section under \<open>state_mutex_\<close>, an operation of a queue, a read or
  write of an atomic); the threads interleave in any order. What the camera, the detector, OpenCV, the pool
  and the clock answer in a step is an argument of the step.
\<close>

section \<open>Shared pieces\<close>

definition count_event :: "string \<Rightarrow> vision \<Rightarrow> vision" where
  "count_event key s = s\<lparr>vp_metrics := increment key 1 (vp_metrics s)\<rparr>"

definition note_time :: "string \<Rightarrow> rat \<Rightarrow> vision \<Rightarrow> vision" where
  "note_time key v s = s\<lparr>vp_metrics := Metrics.observe key v (vp_metrics s)\<rparr>"

definition video_call :: "video_call \<Rightarrow> vision \<Rightarrow> vision" where
  "video_call v s = (if vp_has_video s then s\<lparr>vp_video_log := vp_video_log s @ [v]\<rparr> else s)"

text \<open>What a restart and a recovery do under the mutex: a new epoch, and nothing captured or detected.\<close>

definition new_epoch :: "vision \<Rightarrow> vision" where
  "new_epoch s = clear_detections (s\<lparr>vp_epoch := vp_epoch s + 1, vp_latest := None, vp_capture_state := ''recovering''\<rparr>)"

section \<open>The capture thread\<close>

datatype cap_pc =
    CapTop
  | CapRestart
  | CapRestartClear
  | CapOpen
  | CapAcquire
  | CapGeneration frame
  | CapFill frame nat
  | CapRecover
  | CapRecoverClear
  | CapPublish frame
  | CapEnabled frame
  | CapPush frame
  | CapSubmit frame
  | CapExit

record capture_thread =
  ct_pc :: cap_pc
  ct_opened :: bool
  ct_failures :: nat
  ct_sequence :: u64
  ct_next_retry :: nat
  ct_next_synthetic :: nat
  ct_replay :: "byte list"

text \<open>
  The answers in one step: the clock; \<open>camera.open() && camera.start()\<close>, the negotiated rate and the camera's
  error; the frame of the pool; \<open>copyFrame\<close> and what it measured.
\<close>

record cap_env =
  ca_now :: nat
  ca_open :: bool
  ca_fps :: rat
  ca_error :: string
  ca_frame :: "frame option"
  ca_copy :: "frame_result \<times> byte list"
  ca_timing :: cam_timing

text \<open>The handler of \<open>captureLoop\<close>, after which the thread closes the camera and ends.\<close>

definition capture_failed :: "cxx_error \<Rightarrow> vision \<Rightarrow> capture_thread \<Rightarrow> vision \<times> capture_thread" where
  "capture_failed e s t =
     (s\<lparr>vp_capture_state := ''failed'', vp_capture_error := what e\<rparr>, t\<lparr>ct_opened := False, ct_pc := CapExit\<rparr>)"

text \<open>The beginning of \<open>captureLoop\<close>; \<open>file\<close> is the content of the replay file, if it can be read.\<close>

definition capture_begin :: "nat \<Rightarrow> byte list option \<Rightarrow> vision \<Rightarrow> vision \<times> capture_thread" where
  "capture_begin now file s =
     (let c = vp_config s; n = nat (c_width c) * nat (c_height c) * 2;
          t = \<lparr>ct_pc = CapTop, ct_opened = False, ct_failures = 0, ct_sequence = 0, ct_next_retry = now,
               ct_next_synthetic = now, ct_replay = []\<rparr>
      in if c_replay_yuyv c = [] then (s, t)
         else
           case file of
             Some bytes \<Rightarrow>
               if length bytes = n then (s, t\<lparr>ct_replay := bytes\<rparr>)
               else capture_failed (RuntimeError ''replay_yuyv must contain exactly one packed YUYV frame'') s t
           | None \<Rightarrow> capture_failed (RuntimeError ''replay_yuyv must contain exactly one packed YUYV frame'') s t)"

text \<open>The synthetic picture: a grey value that changes with every frame.\<close>

fun synthetic_bytes :: "u64 \<Rightarrow> nat \<Rightarrow> byte list" where
  "synthetic_bytes seqno 0 = []"
| "synthetic_bytes seqno (Suc n) =
     (let v = of_nat (32 + unat seqno mod 160) in [v, 128, v, 128] @ synthetic_bytes seqno n)"

definition open_step :: "cap_env \<Rightarrow> vision \<Rightarrow> capture_thread \<Rightarrow> vision \<times> capture_thread" where
  "open_step env s t =
     (if \<not> c_synthetic (vp_config s) \<and> \<not> ct_opened t then
        (if ca_now env < ct_next_retry t then (s, t\<lparr>ct_pc := CapTop\<rparr>)
         else
           let s1 = s\<lparr>vp_capture_state := (if ca_open env then ''running'' else ''recovering''),
                      vp_capture_error := (if ca_open env then [] else ca_error env),
                      vp_camera_info := JObject [(''device'', JString (c_device (vp_config s))),
                        (''requested_fps'', JInt (c_fps (vp_config s))),
                        (''negotiated_fps'', JFloat (if ca_open env then ca_fps env else 0))]\<rparr>
           in if \<not> ca_open env
              then (count_event ''camera_retries'' s1,
                    t\<lparr>ct_opened := False, ct_next_retry := ca_now env + 2 * ns_per_s, ct_pc := CapTop\<rparr>)
              else (s1, t\<lparr>ct_opened := True, ct_failures := 0, ct_pc := CapAcquire\<rparr>))
      else (s, t\<lparr>ct_pc := CapAcquire\<rparr>))"

text \<open>A frame is complete: time, number, metrics.\<close>

definition frame_done :: "cap_env \<Rightarrow> nat \<Rightarrow> frame \<Rightarrow> vision \<Rightarrow> capture_thread \<Rightarrow> vision \<times> capture_thread" where
  "frame_done env began f s t =
     (let f1 = f\<lparr>fr_captured := ca_now env, fr_sequence := ct_sequence t + 1\<rparr>
      in (count_event ''captured'' (note_time ''capture_wait_and_copy'' (age_ms (ca_now env) began) s),
          t\<lparr>ct_sequence := ct_sequence t + 1, ct_pc := CapPublish f1\<rparr>))"

definition camera_metrics :: "cam_timing \<Rightarrow> vision \<Rightarrow> vision" where
  "camera_metrics ti s =
     (let s1 = note_time ''capture_copy'' (ti_copy_ms ti) (note_time ''capture_poll'' (ti_poll_ms ti) s);
          s2 = (if 0 < ti_driver_interval_ms ti then note_time ''camera_driver_interval'' (ti_driver_interval_ms ti) s1 else s1)
      in if ti_sequence_gaps ti \<noteq> 0
         then s2\<lparr>vp_metrics := increment ''camera_driver_sequence_gaps'' (ti_sequence_gaps ti) (vp_metrics s2)\<rparr> else s2)"

text \<open>Filling the frame, since the time \<open>began\<close>.\<close>

definition fill_step :: "cap_env \<Rightarrow> nat \<Rightarrow> frame \<Rightarrow> vision \<Rightarrow> capture_thread \<Rightarrow> vision \<times> capture_thread" where
  "fill_step env began f s t =
     (if c_synthetic (vp_config s) then
        let next = max (ct_next_synthetic t + 1000 * (1000000 div nat (c_fps (vp_config s)))) (ca_now env);
            bytes = (if ct_replay t \<noteq> [] then ct_replay t else synthetic_bytes (ct_sequence t) (length (fr_bytes f) div 4))
        in frame_done env began (f\<lparr>fr_bytes := bytes\<rparr>)
             (s\<lparr>vp_capture_state := (if ct_replay t = [] then ''synthetic'' else ''replay'')\<rparr>)
             (t\<lparr>ct_next_synthetic := next\<rparr>)
      else
        let (result, bytes) = ca_copy env
        in if result \<noteq> Frame then
             let s1 = count_event (if result = Timeout then ''camera_timeouts'' else ''camera_errors'') s;
                 t1 = t\<lparr>ct_failures := ct_failures t + 1\<rparr>
             in (s1, t1\<lparr>ct_pc := (if 5 \<le> ct_failures t1 then CapRecover else CapTop)\<rparr>)
           else frame_done env began (f\<lparr>fr_bytes := bytes\<rparr>) (camera_metrics (ca_timing env) s) (t\<lparr>ct_failures := 0\<rparr>))"

definition capture_step :: "cap_env \<Rightarrow> vision \<Rightarrow> capture_thread \<Rightarrow> vision \<times> capture_thread" where
  "capture_step env s t =
     (case ct_pc t of
        CapTop \<Rightarrow>
          if \<not> vp_running s then (s, t\<lparr>ct_pc := CapExit\<rparr>)
          else if vp_restart_capture s
          then (s\<lparr>vp_restart_capture := False\<rparr>,
                t\<lparr>ct_opened := False, ct_failures := 0, ct_next_retry := ca_now env, ct_pc := CapRestart\<rparr>)
          else (s, t\<lparr>ct_pc := CapOpen\<rparr>)
      | CapRestart \<Rightarrow> (new_epoch s, t\<lparr>ct_pc := CapRestartClear\<rparr>)
      | CapRestartClear \<Rightarrow>
          (count_event ''camera_manual_restarts''
             (video_call (VideoReset (ca_now env)) (s\<lparr>vp_inference := q_clear (vp_inference s)\<rparr>)),
           t\<lparr>ct_pc := CapOpen\<rparr>)
      | CapOpen \<Rightarrow> open_step env s t
      | CapAcquire \<Rightarrow>
          (case ca_frame env of
             None \<Rightarrow> (count_event ''pool_exhausted'' s, t\<lparr>ct_pc := CapTop\<rparr>)
           | Some f \<Rightarrow> (s, t\<lparr>ct_pc := CapGeneration f\<rparr>))
      | CapGeneration f \<Rightarrow> (s, t\<lparr>ct_pc := CapFill (f\<lparr>fr_generation := vp_epoch s\<rparr>) (ca_now env)\<rparr>)
      | CapFill f began \<Rightarrow> fill_step env began f s t
      | CapRecover \<Rightarrow>
          (new_epoch (s\<lparr>vp_capture_error := (if ca_error env = [] then ''capture timeout'' else ca_error env)\<rparr>),
           t\<lparr>ct_pc := CapRecoverClear\<rparr>)
      | CapRecoverClear \<Rightarrow>
          (video_call (VideoReset (ca_now env)) (s\<lparr>vp_inference := q_clear (vp_inference s)\<rparr>),
           t\<lparr>ct_opened := False, ct_next_retry := ca_now env + ns_per_s, ct_pc := CapTop\<rparr>)
      | CapPublish f \<Rightarrow> (s\<lparr>vp_latest := Some f\<rparr>, t\<lparr>ct_pc := CapEnabled f\<rparr>)
      | CapEnabled f \<Rightarrow> (s, t\<lparr>ct_pc := (if vp_enabled s then CapPush f else CapSubmit f)\<rparr>)
      | CapPush f \<Rightarrow> (s\<lparr>vp_inference := snd (pushLatest (vp_inference s) f)\<rparr>, t\<lparr>ct_pc := CapSubmit f\<rparr>)
      | CapSubmit f \<Rightarrow> (video_call (VideoSubmit f) s, t\<lparr>ct_pc := CapTop\<rparr>)
      | CapExit \<Rightarrow> (s, t))"

section \<open>The inference thread\<close>

datatype inf_pc =
    InfTop
  | InfPop
  | InfCheck frame
  | InfAge frame
  | InfServe frame nat
  | InfPublish frame nat json bool
  | InfFail frame string
  | InfDisable frame
  | InfClear
  | InfExit

record infer_thread =
  it_pc :: inf_pc
  it_confirmed :: int
  it_errors :: nat
  it_generation :: u64
  it_next_admission :: nat

text \<open>
  The answers in one step: the clock; the detections, or the message of an exception that preprocessing or
  the engine threw; the times of the stages of a successful inference.
\<close>

record inf_env =
  ie_now :: nat
  ie_result :: "string + detection list"
  ie_times :: "(string \<times> rat) list"

definition infer_begin :: "nat \<Rightarrow> infer_thread" where
  "infer_begin now = \<lparr>it_pc = InfTop, it_confirmed = 0, it_errors = 0, it_generation = - 1, it_next_admission = now\<rparr>"

definition json_of_detection :: "detection \<Rightarrow> json" where
  "json_of_detection d = JObject
     [(''class_id'', JInt (dt_class d)), (''confidence'', json_of_fp (dt_confidence d)),
      (''box'', JArray [JInt (rc_x (dt_box d)), JInt (rc_y (dt_box d)), JInt (rc_width (dt_box d)), JInt (rc_height (dt_box d))])]"

text \<open>Whether the centre of a person's box lies in the region of interest. Halving truncates.\<close>

definition in_roi :: "config \<Rightarrow> detection \<Rightarrow> bool" where
  "in_roi c d \<longleftrightarrow>
     (let b = dt_box d;
          x = fp_div (fp_of_int (rc_x b + rc_width b div 2)) (fp_of_int (c_width c));
          y = fp_div (fp_of_int (rc_y b + rc_height b div 2)) (fp_of_int (c_height c))
      in dt_class d = 0 \<and> fp_le (c_roi c ! 0) x \<and> fp_le (c_roi c ! 1) y \<and> fp_le x (c_roi c ! 2) \<and> fp_le y (c_roi c ! 3))"

fun note_times :: "(string \<times> rat) list \<Rightarrow> vision \<Rightarrow> vision" where
  "note_times [] s = s"
| "note_times ((key, v) # rest) s = note_times rest (note_time key v s)"

text \<open>The end of a service in the health record, which may change its state, and in the metrics.\<close>

definition end_service :: "rat \<Rightarrow> vision \<Rightarrow> vision" where
  "end_service service s =
     (let s1 = s\<lparr>vp_health := health_end service (vp_health s)\<rparr>
      in if degraded (vp_health s) \<noteq> degraded (vp_health s1)
         then count_event (if degraded (vp_health s1) then ''inference_degradations'' else ''inference_recoveries'') s1 else s1)"

definition note_service :: "inf_env \<Rightarrow> frame \<Rightarrow> nat \<Rightarrow> vision \<Rightarrow> vision" where
  "note_service env f began s =
     count_event ''processed''
       (note_time ''capture_to_detection'' (age_ms (ie_now env) (fr_captured f))
         (note_times (ie_times env) (note_time ''inference_service'' (age_ms (ie_now env) began) s)))"

definition admission_pause :: "vision \<Rightarrow> nat" where
  "admission_pause s = (if degraded (vp_health s) then nat (c_infer_degraded_interval_ms (vp_config s)) * ns_per_ms else 0)"

text \<open>A successful inference, up to the section that publishes it.\<close>

definition serve_done :: "inf_env \<Rightarrow> frame \<Rightarrow> nat \<Rightarrow> detection list \<Rightarrow> vision \<Rightarrow> infer_thread \<Rightarrow> vision \<times> infer_thread" where
  "serve_done env f began ds s t =
     (let s1 = end_service (age_ms (ie_now env) began) s
      in (note_service env f began s1,
          t\<lparr>it_next_admission := ie_now env + admission_pause s1, it_errors := 0,
            it_pc := InfPublish f (ie_now env) (JArray (map json_of_detection ds)) (list_ex (in_roi (vp_config s)) ds)\<rparr>))"

definition serve_step :: "inf_env \<Rightarrow> frame \<Rightarrow> nat \<Rightarrow> vision \<Rightarrow> infer_thread \<Rightarrow> vision \<times> infer_thread" where
  "serve_step env f began s t =
     (case ie_result env of
        Inl message \<Rightarrow> (count_event ''inference_errors'' (s\<lparr>vp_health := health_fail (vp_health s)\<rparr>), t\<lparr>it_pc := InfFail f message\<rparr>)
      | Inr ds \<Rightarrow> serve_done env f began ds s t)"

text \<open>The section that publishes a result, unless it is stale.\<close>

definition stale_result :: "frame \<Rightarrow> nat \<Rightarrow> vision \<Rightarrow> bool" where
  "stale_result f ended s \<longleftrightarrow>
     \<not> vp_running s \<or> \<not> vp_enabled s \<or> fr_generation f \<noteq> vp_epoch s \<or>
     of_int (c_infer_max_age_ms (vp_config s)) < age_ms ended (fr_captured f)"

definition show_result :: "frame \<Rightarrow> json \<Rightarrow> vision \<Rightarrow> vision" where
  "show_result f found s =
     (count_event ''detections_published''
       (s\<lparr>vp_detections := found, vp_detection_frame := Some f, vp_detection_sequence := fr_sequence f\<rparr>))
     \<lparr>vp_detection_time := fr_captured f, vp_infer_error := []\<rparr>"

definition publish_step :: "frame \<Rightarrow> nat \<Rightarrow> json \<Rightarrow> bool \<Rightarrow> vision \<Rightarrow> infer_thread \<Rightarrow> vision \<times> infer_thread" where
  "publish_step f ended found person s t =
     (if stale_result f ended s
      then (count_event ''stale_results_discarded'' s, t\<lparr>it_confirmed := 0, it_pc := InfTop\<rparr>)
      else
        let needed = c_event_confirm (vp_config s);
            confirmed = (if person then min (it_confirmed t + 1) needed else 0)
        in (if needed \<le> confirmed then video_call (VideoTrigger (fr_captured f)) (show_result f found s)
            else show_result f found s,
            t\<lparr>it_confirmed := confirmed, it_errors := 0, it_pc := InfTop\<rparr>))"

lemmas serve_defs = serve_step_def serve_done_def end_service_def note_service_def
lemmas publish_defs = publish_step_def show_result_def stale_result_def

fun infer_at :: "inf_env \<Rightarrow> vision \<Rightarrow> infer_thread \<Rightarrow> inf_pc \<Rightarrow> vision \<times> infer_thread" where
  "infer_at env s t InfTop =
     (if \<not> vp_running s then (s, t\<lparr>it_pc := InfExit\<rparr>)
      else if ie_now env < it_next_admission t then (s, t)
      else (s, t\<lparr>it_pc := InfPop\<rparr>))"
| "infer_at env s t InfPop =
     (let (popped, q) = popLatest (vp_inference s)
      in (case popped of
            None \<Rightarrow> if q_closed (vp_inference s) then (s, t\<lparr>it_pc := InfTop\<rparr>) else (s, t)
          | Some f \<Rightarrow>
              (s\<lparr>vp_inference := q\<rparr>,
               if fr_generation f \<noteq> it_generation t
               then t\<lparr>it_confirmed := 0, it_generation := fr_generation f, it_pc := InfCheck f\<rparr>
               else t\<lparr>it_pc := InfCheck f\<rparr>)))"
| "infer_at env s t (InfCheck f) =
     (if \<not> vp_enabled s \<or> fr_generation f \<noteq> vp_epoch s then (s, t\<lparr>it_confirmed := 0, it_pc := InfTop\<rparr>)
      else (s, t\<lparr>it_pc := InfAge f\<rparr>))"
| "infer_at env s t (InfAge f) =
     (let began = ie_now env
      in if of_int (c_infer_max_age_ms (vp_config s)) < age_ms began (fr_captured f)
         then (count_event ''expired_input_frames'' s, t\<lparr>it_confirmed := 0, it_pc := InfTop\<rparr>)
         else (note_time ''queue_wait'' (age_ms began (fr_captured f))
                 (s\<lparr>vp_health := health_begin began (vp_health s)\<rparr>),
               t\<lparr>it_pc := InfServe f began\<rparr>))"
| "infer_at env s t (InfServe f began) = serve_step env f began s t"
| "infer_at env s t (InfPublish f ended found person) = publish_step f ended found person s t"
| "infer_at env s t (InfFail f message) =
     (s\<lparr>vp_infer_error := message\<rparr>,
      t\<lparr>it_confirmed := 0, it_errors := it_errors t + 1, it_pc := (if 3 \<le> it_errors t + 1 then InfDisable f else InfTop)\<rparr>)"
| "infer_at env s t (InfDisable f) =
     (if fr_generation f = vp_epoch s then s\<lparr>vp_enabled := False, vp_epoch := vp_epoch s + 1\<rparr> else s,
      t\<lparr>it_pc := InfClear\<rparr>)"
| "infer_at env s t InfClear = (s\<lparr>vp_inference := q_clear (vp_inference s)\<rparr>, t\<lparr>it_errors := 0, it_pc := InfTop\<rparr>)"
| "infer_at env s t InfExit = (s, t)"

definition infer_step :: "inf_env \<Rightarrow> vision \<Rightarrow> infer_thread \<Rightarrow> vision \<times> infer_thread" where
  "infer_step env s t = infer_at env s t (it_pc t)"

section \<open>The snapshot thread\<close>

datatype snap_pc =
    SnapTop
  | SnapJob snapshot_job
  | SnapCheck snapshot_job string
  | SnapReply snapshot_job "(string \<times> json) list"
  | SnapExit

text \<open>
  The answers in one step: an exception of OpenCV, the encoded preview (\<open>None\<close> when the encoder failed),
  whether the photo was written, the two clocks.
\<close>

record snap_env =
  se_exception :: "string option"
  se_jpeg :: "byte list option"
  se_written :: bool
  se_wall :: nat
  se_now :: nat

text \<open>Two hexadecimal digits per byte.\<close>

fun hex :: "byte list \<Rightarrow> string" where
  "hex [] = []"
| "hex (b # bs) = [''0123456789abcdef'' ! unat (drop_bit 4 b), ''0123456789abcdef'' ! unat (b AND 15)] @ hex bs"

text \<open>The handler of \<open>snapshotLoop\<close>: it adds to the reply whatever the reply already holds.\<close>

definition failed_reply :: "string \<Rightarrow> (string \<times> json) list \<Rightarrow> (string \<times> json) list" where
  "failed_reply reason response =
     put_key ''reason'' (JString reason) (put_key ''code'' (JInt 500) (put_key ''status'' (JString ''error'') response))"

definition preview_data :: "snap_env \<Rightarrow> snapshot_job \<Rightarrow> string \<Rightarrow> vision \<Rightarrow> json" where
  "preview_data env job encoded s = JObject
     [(''sequence'', JInt (uint (fr_sequence (sn_frame job)))), (''jpeg_hex'', JString encoded),
      (''detections'', sn_detections job), (''source_width'', JInt (c_width (vp_config s))),
      (''source_height'', JInt (c_height (vp_config s))), (''width'', JInt 320), (''height'', JInt 240),
      (''age_ms'', JFloat (age_ms (se_now env) (fr_captured (sn_frame job)))),
      (''capture_pts_ns'', JInt (int (fr_captured (sn_frame job)) - int (vp_origin s)))]"

definition preview_reply :: "vision_lib \<Rightarrow> snap_env \<Rightarrow> snapshot_job \<Rightarrow> string \<Rightarrow> vision \<Rightarrow> vision \<times> (string \<times> json) list" where
  "preview_reply lib env job encoded s =
     (let response = completed (sn_id job)
      in if fr_generation (sn_frame job) \<noteq> vp_epoch s \<or> \<not> vp_enabled s
         then (s, failed_reply ''preview generation expired'' response)
         else
           let response1 = put_key ''data'' (preview_data env job encoded s) response
           in if 60000 < length (vl_dump lib (JObject response1))
              then (s, failed_reply ''preview metadata exceeds response budget'' response1)
              else (count_event ''previews'' s, response1))"

definition photo_reply :: "snap_env \<Rightarrow> snapshot_job \<Rightarrow> vision \<Rightarrow> vision \<times> (string \<times> json) list" where
  "photo_reply env job s =
     (let path = c_output (vp_config s) @ ''/capture-'' @ dec (se_wall env) @ ''.jpg''
      in if \<not> se_written env then (s, failed_reply ''JPEG write failed'' (completed (sn_id job)))
         else (count_event ''snapshots'' s,
               put_key ''data'' (JObject [(''path'', JString path), (''sequence'', JInt (uint (fr_sequence (sn_frame job))))])
                 (completed (sn_id job))))"

text \<open>A functor in the network thread's queue: the job and its reply.\<close>

type_synonym reply_functor = "snapshot_job \<times> (string \<times> json) list"

fun snap_step :: "vision_lib \<Rightarrow> snap_env \<Rightarrow> vision \<Rightarrow> snap_pc \<Rightarrow> vision \<times> snap_pc \<times> reply_functor list" where
  "snap_step lib env s SnapTop =
     (let (popped, q) = pop (vp_snapshots s)
      in case popped of
           None \<Rightarrow> (s, if q_closed (vp_snapshots s) then SnapExit else SnapTop, [])
         | Some job \<Rightarrow> (s\<lparr>vp_snapshots := q\<rparr>, SnapJob job, []))"
| "snap_step lib env s (SnapJob job) =
     (case se_exception env of
        Some message \<Rightarrow> (s, SnapReply job (failed_reply message (completed (sn_id job))), [])
      | None \<Rightarrow>
          if sn_preview job then
            (case se_jpeg env of
               None \<Rightarrow> (s, SnapReply job (failed_reply ''preview exceeds bounded response'' (completed (sn_id job))), [])
             | Some jpeg \<Rightarrow>
                 if 24000 < length jpeg
                 then (s, SnapReply job (failed_reply ''preview exceeds bounded response'' (completed (sn_id job))), [])
                 else (s, SnapCheck job (hex jpeg), []))
          else (let (s1, response) = photo_reply env job s in (s1, SnapReply job response, [])))"
| "snap_step lib env s (SnapCheck job encoded) =
     (let (s1, response) = preview_reply lib env job encoded s in (s1, SnapReply job response, []))"
| "snap_step lib env s (SnapReply job response) = (s, SnapTop, [(job, response)])"
| "snap_step lib env s SnapExit = (s, SnapExit, [])"

section \<open>All threads\<close>

record vsys =
  vs_vision :: vision
  vs_capture :: capture_thread
  vs_infer :: infer_thread
  vs_snap :: snap_pc
  vs_pending :: "reply_functor list"
  vs_acts :: "sv_act list"

text \<open>Who takes the next step.\<close>

datatype vchoice =
    Capture cap_env
  | Inference inf_env
  | Snapshots snap_env
  | Request vision_env nat string
  | RunFunctor
  | PublishMetrics vision_env
  | StopRunning
  | CloseInference
  | CloseSnapshots

text \<open>The functor that \<open>snapshotLoop\<close> queues into the network thread.\<close>

definition run_functor :: "vision_lib \<Rightarrow> reply_functor \<Rightarrow> vision \<Rightarrow> vision \<times> sv_act list" where
  "run_functor lib fn s =
     (let (job, response) = fn
      in (if sn_cache_key job \<noteq> [] then add_reply (sn_cache_key job) (JObject response) s else s,
          [Respond (sn_connection job) (vl_dump lib (JObject response) @ newline), Release (sn_connection job)]))"

definition publish_metrics :: "vision_env \<Rightarrow> vision \<Rightarrow> vision" where
  "publish_metrics env s = s\<lparr>vp_metrics := snd (Metrics.snapshot (ve_os env) (ve_now env) (vp_metrics s))\<rparr>"

text \<open>The line that \<open>publishMetrics\<close> writes; its effect on the state is \<open>publish_metrics\<close>.\<close>

definition metrics_line :: "vision_lib \<Rightarrow> vision_env \<Rightarrow> nat \<Rightarrow> vision \<Rightarrow> string \<times> vision" where
  "metrics_line lib env connections s =
     (let (report, m) = Metrics.snapshot (ve_os env) (ve_now env) (vp_metrics s); s1 = s\<lparr>vp_metrics := m\<rparr>
      in (vl_dump lib (JObject (put_key ''connections'' (JInt (int connections))
            (put_key ''pipeline'' (status env s1) (json_of_metrics (vl_tables lib) report)))) @ newline, s1))"

lemma metrics_line_state: "snd (metrics_line lib env connections s) = publish_metrics env s"
  by (simp add: metrics_line_def publish_metrics_def case_prod_unfold Let_def)

fun vs_step :: "vision_lib \<Rightarrow> vchoice \<Rightarrow> vsys \<Rightarrow> vsys" where
  "vs_step lib (Capture env) st =
     (let (s, t) = capture_step env (vs_vision st) (vs_capture st) in st\<lparr>vs_vision := s, vs_capture := t\<rparr>)"
| "vs_step lib (Inference env) st =
     (let (s, t) = infer_step env (vs_vision st) (vs_infer st) in st\<lparr>vs_vision := s, vs_infer := t\<rparr>)"
| "vs_step lib (Snapshots env) st =
     (let (s, pc, queued) = snap_step lib env (vs_vision st) (vs_snap st)
      in st\<lparr>vs_vision := s, vs_snap := pc, vs_pending := vs_pending st @ queued\<rparr>)"
| "vs_step lib (Request env connection line) st =
     (let (s, acts) = command lib env connection line (vs_vision st)
      in st\<lparr>vs_vision := s, vs_acts := vs_acts st @ acts\<rparr>)"
| "vs_step lib RunFunctor st =
     (case vs_pending st of
        [] \<Rightarrow> st
      | fn # fns \<Rightarrow>
          let (s, acts) = run_functor lib fn (vs_vision st)
          in st\<lparr>vs_vision := s, vs_pending := fns, vs_acts := vs_acts st @ acts\<rparr>)"
| "vs_step lib (PublishMetrics env) st = st\<lparr>vs_vision := publish_metrics env (vs_vision st)\<rparr>"
| "vs_step lib StopRunning st = st\<lparr>vs_vision := (vs_vision st)\<lparr>vp_running := False\<rparr>\<rparr>"
| "vs_step lib CloseInference st =
     st\<lparr>vs_vision := (vs_vision st)\<lparr>vp_inference := q_close True (vp_inference (vs_vision st))\<rparr>\<rparr>"
| "vs_step lib CloseSnapshots st =
     st\<lparr>vs_vision := (vs_vision st)\<lparr>vp_snapshots := q_close False (vp_snapshots (vs_vision st))\<rparr>\<rparr>"

fun vs_run :: "vision_lib \<Rightarrow> vchoice list \<Rightarrow> vsys \<Rightarrow> vsys" where
  "vs_run lib [] st = st"
| "vs_run lib (c # cs) st = vs_run lib cs (vs_step lib c st)"

interpretation vision_machine: step_machine "vs_step lib" "vs_run lib" for lib
  by unfold_locales simp_all

text \<open>The system after \<open>start\<close> has created the threads at time \<open>now\<close>.\<close>

definition vs_start :: "nat \<Rightarrow> byte list option \<Rightarrow> vision \<Rightarrow> vsys" where
  "vs_start now file s =
     (let (s1, t) = capture_begin now file (s\<lparr>vp_running := True\<rparr>)
      in \<lparr>vs_vision = s1, vs_capture = t, vs_infer = infer_begin now, vs_snap = SnapTop, vs_pending = [], vs_acts = []\<rparr>)"

section \<open>Invariants of the shared state\<close>

text \<open>
  A property of the shared state that ignores the bookkeeping (metrics, health, queues, logs, messages) and
  survives a new epoch and the commands of a client: every thread but the inference thread keeps it.
\<close>

locale vision_invariant =
  fixes ok :: "vision \<Rightarrow> bool"
  assumes bookkeeping:
      "ok (s\<lparr>vp_inference := q\<rparr>) = ok s" "ok (s\<lparr>vp_snapshots := sq\<rparr>) = ok s" "ok (s\<lparr>vp_metrics := m\<rparr>) = ok s"
      "ok (s\<lparr>vp_health := h\<rparr>) = ok s" "ok (s\<lparr>vp_infer_delay_ms := d\<rparr>) = ok s" "ok (s\<lparr>vp_latest := l\<rparr>) = ok s"
      "ok (s\<lparr>vp_running := b\<rparr>) = ok s" "ok (s\<lparr>vp_restart_capture := b\<rparr>) = ok s" "ok (s\<lparr>vp_infer_error := e\<rparr>) = ok s"
      "ok (s\<lparr>vp_capture_state := e\<rparr>) = ok s" "ok (s\<lparr>vp_capture_error := e\<rparr>) = ok s" "ok (s\<lparr>vp_camera_info := j\<rparr>) = ok s"
      "ok (s\<lparr>vp_cache := rc\<rparr>) = ok s" "ok (s\<lparr>vp_video_log := lg\<rparr>) = ok s"
    and new_epoch: "ok s \<Longrightarrow> ok (new_epoch s)"
    and enabling: "ok s \<Longrightarrow> ok (clear_detections (s\<lparr>vp_epoch := vp_epoch s + 1, vp_enabled := on, vp_inference := q\<rparr>))"
    and threshold: "0 < v \<Longrightarrow> v < 1 \<Longrightarrow> ok s \<Longrightarrow> ok (s\<lparr>vp_threshold := Fin v\<rparr>)"
begin

lemma ok_recording:
  "ok (count_event k s) = ok s" "ok (note_time k r s) = ok s" "ok (video_call vc s) = ok s" "ok (add_reply key reply s) = ok s"
  "ok (camera_metrics ti s) = ok s"
  by (simp_all add: count_event_def note_time_def video_call_def add_reply_def camera_metrics_def Let_def bookkeeping)

lemma ok_note_times: "ok (note_times xs s) = ok s"
  by (induction xs s rule: note_times.induct) (simp_all add: ok_recording)

lemmas views = bookkeeping ok_recording ok_note_times

lemma capture_step_ok: "ok s \<Longrightarrow> ok (fst (capture_step env s t))"
  by (simp add: capture_step_def open_step_def fill_step_def frame_done_def Let_def views new_epoch case_prod_unfold
      split: cap_pc.split option.split)

lemma snap_step_ok: "ok s \<Longrightarrow> ok (fst (snap_step lib env s pc))"
  by (cases pc) (auto simp: photo_reply_def preview_reply_def Let_def views split: prod.splits option.splits)

lemma command_effect_ok: "command_effect s s1 \<Longrightarrow> ok s \<Longrightarrow> ok s1"
  by (induction rule: command_effect.induct) (simp_all add: views enabling threshold)

lemma command_ok: "ok s \<Longrightarrow> ok (fst (command lib env connection line s))"
proof (cases rule: command_cases [of lib env connection line s])
  case (executed cmd request cid key r)
  assume "ok s"
  with execute_effect [OF executed(2)] have "ok (cr_state r)" by (rule command_effect_ok)
  with executed(4) show ?thesis by (simp add: views)
qed auto

lemma other_step_ok:
  assumes "ok (vs_vision st)" and "\<And>env. ch \<noteq> Inference env"
  shows "ok (vs_vision (vs_step lib ch st))"
proof (cases ch)
  case (Capture env)
  then show ?thesis using assms capture_step_ok [of "vs_vision st" env "vs_capture st"] by (auto split: prod.splits)
next
  case (Snapshots env)
  then show ?thesis using assms snap_step_ok [of "vs_vision st" lib env "vs_snap st"] by (auto split: prod.splits)
next
  case (Request env connection line)
  then show ?thesis using assms command_ok [of "vs_vision st" lib env connection line] by (auto split: prod.splits)
qed (use assms in \<open>auto simp: run_functor_def publish_metrics_def views split: list.splits prod.splits\<close>)

lemma start_ok: "ok s \<Longrightarrow> ok (vs_vision (vs_start now file s))"
  by (simp add: vs_start_def capture_begin_def capture_failed_def Let_def views split: option.split)

end

lemma other_step_infer: "(\<And>env. ch \<noteq> Inference env) \<Longrightarrow> vs_infer (vs_step lib ch st) = vs_infer st"
  by (cases ch) (auto split: prod.splits list.splits)

section \<open>Detections belong to the current epoch\<close>

text \<open>What is shown as detected: nothing, or the result of one frame, of the current epoch while inference is enabled.\<close>

definition det_ok :: "vision \<Rightarrow> bool" where
  "det_ok s \<longleftrightarrow>
     (case vp_detection_frame s of
        None \<Rightarrow> vp_detections s = JArray [] \<and> vp_detection_sequence s = 0
      | Some f \<Rightarrow> (vp_enabled s \<longrightarrow> fr_generation f = vp_epoch s) \<and>
          vp_detection_sequence s = fr_sequence f \<and> vp_detection_time s = fr_captured f)"

interpretation det: vision_invariant det_ok
  by unfold_locales (auto simp: det_ok_def new_epoch_def clear_detections_def split: option.splits)

lemma infer_step_det:
  assumes "det_ok s"
  shows "det_ok (fst (infer_step env s t))"
proof (cases "it_pc t")
  case (InfPublish f ended found person)
  have "det_ok (show_result f found s)" if "fr_generation f = vp_epoch s"
    using that by (simp add: show_result_def det_ok_def count_event_def)
  with assms InfPublish show ?thesis
    by (auto simp: infer_step_def publish_step_def stale_result_def Let_def det.views)
next
  case (InfDisable f)
  with assms show ?thesis by (auto simp: infer_step_def det_ok_def split: option.splits)
qed (use assms in \<open>auto simp: infer_step_def serve_defs Let_def det.views split: prod.splits option.splits sum.splits\<close>)

lemma vs_step_det:
  assumes "det_ok (vs_vision st)"
  shows "det_ok (vs_vision (vs_step lib c st))"
proof (cases "\<exists>env. c = Inference env")
  case True
  with infer_step_det [OF assms] show ?thesis by (auto simp: Let_def case_prod_unfold)
next
  case False
  with assms show ?thesis by (auto intro: det.other_step_ok)
qed

lemma vs_run_det: "det_ok (vs_vision st) \<Longrightarrow> det_ok (vs_vision (vs_run lib cs st))"
  by (erule vision_machine.machine_invariant) (rule vs_step_det)

lemma VisionPipeline_det: "VisionPipeline c t = Inr s \<Longrightarrow> det_ok s"
  by (auto simp: VisionPipeline_def bind_result_Inr det_ok_def)

text \<open>C4: A stop, a start, a camera restart and a recovery invalidate what was detected before, in every
  interleaving of the threads: while inference is enabled, the frame behind the detections that clients see
  is one of the current epoch, its number and time are those that are reported, and a result that is
  reported as fresh comes from a frame at most \<open>infer_max_age_ms\<close> old. While inference is enabled, no result
  of a frame that was queued or in flight when the epoch ended is shown.\<close>

theorem detections_current:
  assumes "VisionPipeline c t = Inr s0"
  shows "let s = vs_vision (vs_run lib cs (vs_start now file s0))
         in (vp_enabled s \<longrightarrow> (\<forall>f. vp_detection_frame s = Some f \<longrightarrow> fr_generation f = vp_epoch s)) \<and>
            (fresh_detections env s \<longrightarrow> (\<exists>f. vp_detection_frame s = Some f \<and> vp_detection_sequence s = fr_sequence f \<and>
               age_ms (ve_now env) (fr_captured f) \<le> of_int (c_infer_max_age_ms (vp_config s))))"
proof -
  have "det_ok (vs_vision (vs_run lib cs (vs_start now file s0)))"
    by (intro vs_run_det det.start_ok VisionPipeline_det [OF assms])
  then show ?thesis by (auto simp: Let_def det_ok_def fresh_detections_def split: option.splits)
qed

section \<open>An example\<close>

definition demo_config :: config where
  "demo_config = \<lparr>c_device = [], c_model = [], c_preprocess = ''cpu'', c_output = ''out'', c_output_activation = ''logits'',
     c_replay_yuyv = [], c_width = 96, c_height = 64, c_fps = 30, c_port = 9000, c_rtsp_port = 8554, c_bitrate = 2000000,
     c_queue = 2, c_pool = 12, c_run_seconds = 0, c_infer_delay_ms = 0, c_infer_slow_ms = 150, c_infer_stall_ms = 2000,
     c_infer_max_age_ms = 500, c_infer_degraded_interval_ms = 200, c_allow_fault_injection = False,
     c_record_max_mb = 256, c_record_max_files = 128, c_record_min_free_mb = 64, c_record_max_seconds = 60,
     c_event_confirm = 3, c_event_tail = 5, c_event_pre = 3, c_video = False, c_synthetic = True, c_native_outputs = True,
     c_threshold = Fin (1 / 2), c_nms = Fin (1 / 2), c_roi = [Fin 0, Fin 0, Fin 1, Fin 1]\<rparr>"

definition demo_start :: vision where
  "demo_start = \<lparr>vp_config = demo_config, vp_origin = 0, vp_inference = demo_queue 2, vp_snapshots = demo_queue 8,
     vp_metrics = Metrics 0, vp_health = InferenceHealth 150 2000, vp_infer_delay_ms = 0, vp_has_video = False,
     vp_running = False, vp_enabled = True, vp_threshold = Fin (1 / 2), vp_epoch = 0, vp_restart_capture = False,
     vp_capture_state = ''starting'', vp_capture_error = [], vp_infer_error = [], vp_latest = None,
     vp_detection_frame = None, vp_camera_info = JObject [], vp_detections = JArray [],
     vp_detection_sequence = 0, vp_detection_time = 0, vp_cache = empty_cache, vp_video_log = []\<rparr>"

lemma demo_start: "VisionPipeline demo_config 0 = Inr demo_start"
  by (simp add: VisionPipeline_def demo_config_def FramePool_def BoundedQueue_def demo_start_def demo_queue_def)

text \<open>One frame at time \<open>now\<close>, and its inference with a result.\<close>

definition demo_capture :: "nat \<Rightarrow> vchoice list" where
  "demo_capture now = replicate 9 (Capture \<lparr>ca_now = now, ca_open = True, ca_fps = 30, ca_error = [],
     ca_frame = Some \<lparr>fr_bytes = [], fr_sequence = 0, fr_generation = 0, fr_captured = 0\<rparr>,
     ca_copy = (Timeout, []), ca_timing = no_timing\<rparr>)"

definition demo_infer :: "nat \<Rightarrow> nat \<Rightarrow> string + detection list \<Rightarrow> vchoice list" where
  "demo_infer n now result = replicate n (Inference \<lparr>ie_now = now, ie_result = result, ie_times = []\<rparr>)"

text \<open>One captured frame and its inference.\<close>

definition demo_shown :: "vchoice list" where
  "demo_shown = demo_capture 5 @ demo_infer 6 6 (Inr [])"

definition demo_result :: "vision \<Rightarrow> bool" where
  "demo_result s \<longleftrightarrow> vp_enabled s \<and> vp_detection_frame s \<noteq> None"

lemma demo_shown: "demo_result (vs_vision (vs_run demo_lib demo_shown (vs_start 0 None demo_start)))"
  by code_simp

theorem detections_current_witness:
  "let s = vs_vision (vs_run demo_lib demo_shown (vs_start 0 None demo_start))
   in \<exists>f. vp_detection_frame s = Some f \<and> fr_generation f = vp_epoch s"
  using detections_current [OF demo_start, of demo_lib demo_shown 0 None] demo_shown
  by (auto simp: Let_def demo_result_def)

end
