(* ===== verification/Preprocessor.thy ===== *)
theory Preprocessor
  imports Yolov5PostProcess
begin

text \<open>
  The preprocessing of \<open>hardware/rknpu_infer/Preprocessor.h\<close>: a packed YUYV frame is converted to RGB,
  scaled to the letterbox size and copied into the middle of the grey model input, which is allocated
  once and reused for every frame. The image operations of OpenCV and of the RGA are arguments; an RGA
  operation may fail with a message.
\<close>

section \<open>State and operations\<close>

type_synonym rgb = "byte \<times> byte \<times> byte"

text \<open>An image of a height and a width, by row and column.\<close>

record image =
  im_rows :: int
  im_cols :: int
  im_at :: "int \<Rightarrow> int \<Rightarrow> rgb"

record image_ops =
  io_cvtColor :: "int \<Rightarrow> int \<Rightarrow> byte list \<Rightarrow> image"
  io_resize :: "int \<Rightarrow> int \<Rightarrow> image \<Rightarrow> image"
  io_imcvtcolor :: "int \<Rightarrow> int \<Rightarrow> byte list \<Rightarrow> string + image"
  io_imresize :: "int \<Rightarrow> int \<Rightarrow> image \<Rightarrow> string + image"

record preprocessor =
  pp_full :: image
  pp_resized :: image
  pp_input :: image
  pp_box :: letterbox
  pp_rga :: bool

definition grey :: rgb where
  "grey = (114, 114, 114)"

definition blank :: "int \<Rightarrow> int \<Rightarrow> image" where
  "blank rows cols = \<lparr>im_rows = rows, im_cols = cols, im_at = (\<lambda>_ _. (0, 0, 0))\<rparr>"

text \<open>\<open>built_with_rga\<close> is whether \<open>EDGE_WITH_RGA\<close> was defined. \<open>create\<close> leaves the pixels undefined; here they are 0.\<close>

definition Preprocessor :: "(fp \<Rightarrow> int) \<Rightarrow> bool \<Rightarrow> int \<Rightarrow> int \<Rightarrow> bool \<Rightarrow> preprocessor result" where
  "Preprocessor fc built_with_rga width height rga =
     bind_result (make_letterbox fc width height) (\<lambda>box.
       let p = \<lparr>pp_full = blank height width, pp_resized = blank (lb_resized_h box) (lb_resized_w box),
                pp_input = \<lparr>im_rows = 640, im_cols = 640, im_at = (\<lambda>_ _. grey)\<rparr>,
                pp_box = box, pp_rga = rga\<rparr>
       in if \<not> built_with_rga \<and> rga then Inl (RuntimeError ''RGA not enabled in this build'') else Inr p)"

text \<open>Copying an image into a rectangle of another; OpenCV throws when the rectangle is not inside.\<close>

definition copy_into :: "image \<Rightarrow> int \<Rightarrow> int \<Rightarrow> int \<Rightarrow> int \<Rightarrow> image \<Rightarrow> image result" where
  "copy_into src x0 y0 w h dst =
     (if 0 \<le> x0 \<and> 0 \<le> w \<and> x0 + w \<le> im_cols dst \<and> 0 \<le> y0 \<and> 0 \<le> h \<and> y0 + h \<le> im_rows dst
      then Inr (dst\<lparr>im_at := (\<lambda>y x. if y0 \<le> y \<and> y < y0 + h \<and> x0 \<le> x \<and> x < x0 + w
                                  then im_at src (y - y0) (x - x0) else im_at dst y x)\<rparr>)
      else Inl (RuntimeError ''cv::Exception''))"

definition run :: "image_ops \<Rightarrow> byte list \<Rightarrow> preprocessor \<Rightarrow> preprocessor result" where
  "run ops yuyv p =
     (let b = pp_box p;
          place = (\<lambda>full resized.
            bind_result (copy_into resized (lb_left b) (lb_top b) (lb_resized_w b) (lb_resized_h b) (pp_input p))
              (\<lambda>input. Inr (p\<lparr>pp_full := full, pp_resized := resized, pp_input := input\<rparr>)))
      in if \<not> pp_rga p then
           let full = io_cvtColor ops (lb_width b) (lb_height b) yuyv
           in place full (io_resize ops (im_rows (pp_resized p)) (im_cols (pp_resized p)) full)
         else
           case io_imcvtcolor ops (im_rows (pp_full p)) (im_cols (pp_full p)) yuyv of
             Inl what \<Rightarrow> Inl (RuntimeError (''RGA color conversion: '' @ what))
           | Inr full \<Rightarrow>
               (case io_imresize ops (im_rows (pp_resized p)) (im_cols (pp_resized p)) full of
                  Inl what \<Rightarrow> Inl (RuntimeError (''RGA resize: '' @ what))
                | Inr resized \<Rightarrow> place full resized))"

text \<open>A frame that fails leaves the preprocessor as it was for the next one.\<close>

fun run_all :: "image_ops \<Rightarrow> byte list list \<Rightarrow> preprocessor \<Rightarrow> preprocessor" where
  "run_all ops [] p = p"
| "run_all ops (f # fs) p = run_all ops fs (case run ops f p of Inl _ \<Rightarrow> p | Inr p1 \<Rightarrow> p1)"

section \<open>The input the model sees\<close>

abbreviation in_box :: "letterbox \<Rightarrow> int \<Rightarrow> int \<Rightarrow> bool" where
  "in_box b y x \<equiv> lb_top b \<le> y \<and> y < lb_top b + lb_resized_h b \<and> lb_left b \<le> x \<and> x < lb_left b + lb_resized_w b"

definition pp_inv :: "preprocessor \<Rightarrow> bool" where
  "pp_inv p \<longleftrightarrow>
     im_rows (pp_input p) = 640 \<and> im_cols (pp_input p) = 640 \<and>
     (\<forall>y x. \<not> in_box (pp_box p) y x \<longrightarrow> im_at (pp_input p) y x = grey) \<and>
     0 \<le> lb_left (pp_box p) \<and> 0 \<le> lb_resized_w (pp_box p) \<and> lb_left (pp_box p) + lb_resized_w (pp_box p) \<le> 640 \<and>
     0 \<le> lb_top (pp_box p) \<and> 0 \<le> lb_resized_h (pp_box p) \<and> lb_top (pp_box p) + lb_resized_h (pp_box p) \<le> 640"

lemma run_inv:
  assumes "pp_inv p" and "run ops f p = Inr p1"
  shows "pp_inv p1" and "pp_box p1 = pp_box p" and "pp_rga p1 = pp_rga p"
    and "\<And>y x. in_box (pp_box p) y x \<Longrightarrow>
           im_at (pp_input p1) y x = im_at (pp_resized p1) (y - lb_top (pp_box p)) (x - lb_left (pp_box p))"
  using assms
  by (auto simp: run_def Let_def copy_into_def bind_result_Inr pp_inv_def split: if_splits sum.splits)

lemma run_total: "pp_inv p \<Longrightarrow> \<not> pp_rga p \<Longrightarrow> \<exists>p1. run ops f p = Inr p1"
  by (simp add: run_def Let_def copy_into_def pp_inv_def)

lemma run_all_inv: "pp_inv p \<Longrightarrow> pp_inv (run_all ops fs p) \<and> pp_rga (run_all ops fs p) = pp_rga p"
proof (induction fs arbitrary: p)
  case (Cons f fs)
  show ?case
  proof (cases "run ops f p")
    case (Inr p1)
    with Cons.IH [of p1] run_inv [OF Cons.prems Inr] show ?thesis by simp
  qed (use Cons in simp)
qed simp

lemma Preprocessor_inv:
  assumes "Preprocessor fc built w h rga = Inr p" and "0 < w" "w < 2 ^ 31" "0 < h" "h < 2 ^ 31"
  shows "pp_inv p" and "pp_rga p = rga"
  using assms(1) letterbox_fits [OF assms(2-5), of fc]
  by (auto simp: Preprocessor_def bind_result_Inr pp_inv_def Let_def split: if_splits)


definition demo_ops :: image_ops where
  "demo_ops = \<lparr>io_cvtColor = (\<lambda>w h f. \<lparr>im_rows = h, im_cols = w, im_at = (\<lambda>_ _. (hd f, hd f, hd f))\<rparr>),
     io_resize = (\<lambda>h w i. i\<lparr>im_rows := h, im_cols := w\<rparr>),
     io_imcvtcolor = (\<lambda>_ _ _. Inl ''no device''), io_imresize = (\<lambda>_ _ _. Inl ''no device'')\<rparr>"


end
