(* ===== verification/RKNNEngine.thy ===== *)
theory RKNNEngine
  imports Yolov5PostProcess
begin

text \<open>
  The inference engine of \<open>hardware/rknpu_infer/RKNNEngine.cpp\<close>: loading and validating a model, running it
  on an image, and the calls of the RKNN runtime that have to be paired. What the file system and the
  runtime answer during one call is an argument; the calls that change the runtime's state are logged.
\<close>

section \<open>State and operations\<close>

datatype rknn_call = Init | Destroy | InputsSet | Run | OutputsGet | OutputsRelease

record engine =
  eg_initialized :: bool
  eg_attrs :: "tensor_attr list"
  eg_log :: "rknn_call list"

text \<open>
  The answers during \<open>loadModel\<close>: the size of the file (\<open>None\<close> when it cannot be opened), whether it was
  read in full, and the runtime's return codes with what the queries filled in.
\<close>

record load_env =
  le_size :: "int option"
  le_read :: bool
  le_init :: int
  le_io :: "int \<times> nat \<times> nat"
  le_input :: "int \<times> tensor_attr"
  le_output :: "nat \<Rightarrow> int \<times> tensor_attr"

record infer_env =
  ie_set :: int
  ie_run :: int
  ie_get :: "bool \<Rightarrow> int \<times> rknn_output list"

text \<open>What \<open>infer\<close> looks at in a \<open>cv::Mat\<close>.\<close>

record mat_info =
  mi_8uc3 :: bool
  mi_rows :: int
  mi_cols :: int
  mi_continuous :: bool

definition no_attr :: tensor_attr where
  "no_attr = \<lparr>at_n_dims = 0, at_dims = [], at_fmt = RKNN_TENSOR_NCHW, at_type = OtherType, at_qnt_type = OtherQnt,
     at_zp = 0, at_scale = Fin 0\<rparr>"

definition RKNNEngine :: engine where
  "RKNNEngine = \<lparr>eg_initialized = False, eg_attrs = replicate 3 no_attr, eg_log = []\<rparr>"

definition eg_call :: "rknn_call \<Rightarrow> engine \<Rightarrow> engine" where
  "eg_call c e = e\<lparr>eg_log := eg_log e @ [c]\<rparr>"

text \<open>The destructor.\<close>

definition destroy :: "engine \<Rightarrow> engine" where
  "destroy e = (if eg_initialized e then eg_call Destroy e else e)"

text \<open>\<open>check\<close>: a negative code is an exception that names the operation and the code.\<close>

definition check :: "(int \<Rightarrow> string) \<Rightarrow> int \<Rightarrow> string \<Rightarrow> unit result" where
  "check show_int code operation =
     (if code < 0 then Inl (RuntimeError (operation @ '': '' @ show_int code)) else Inr ())"

definition input_shape :: "tensor_attr \<Rightarrow> bool" where
  "input_shape a \<longleftrightarrow> at_n_dims a = 4 \<and>
     (at_fmt a = RKNN_TENSOR_NHWC \<and> at_dims a ! 1 = 640 \<and> at_dims a ! 2 = 640 \<and> at_dims a ! 3 = 3 \<or>
      at_fmt a = RKNN_TENSOR_NCHW \<and> at_dims a ! 1 = 3 \<and> at_dims a ! 2 = 640 \<and> at_dims a ! 3 = 640)"

definition output_layout :: "nat \<Rightarrow> tensor_attr \<Rightarrow> bool" where
  "output_layout i a \<longleftrightarrow>
     (let grid = 80 div 2 ^ i
      in at_n_dims a = 4 \<and> at_dims a ! 0 = 1 \<and> at_dims a ! 1 = 255 \<and> at_dims a ! 2 = grid \<and>
         at_dims a ! 3 = grid \<and> at_fmt a = RKNN_TENSOR_NCHW)"

text \<open>The loop over the outputs. An attribute is stored before it is examined.\<close>

fun query_outputs :: "(int \<Rightarrow> string) \<Rightarrow> load_env \<Rightarrow> nat list \<Rightarrow> engine \<Rightarrow> unit result \<times> engine" where
  "query_outputs show_int env [] e = (Inr (), e)"
| "query_outputs show_int env (i # is) e =
     (let (code, a) = le_output env i; e1 = e\<lparr>eg_attrs := (eg_attrs e)[i := a]\<rparr>
      in case check show_int code ''query output'' of
           Inl err \<Rightarrow> (Inl err, e1)
         | Inr _ \<Rightarrow>
             if \<not> output_layout i a
             then (Inl (RuntimeError ''unsupported output layout; expected [1,255,H,W] heads at 80/40/20''), e1)
             else query_outputs show_int env is e1)"

text \<open>The part of \<open>loadModel\<close> after the model was initialized.\<close>

definition validate_model :: "(int \<Rightarrow> string) \<Rightarrow> load_env \<Rightarrow> engine \<Rightarrow> unit result \<times> engine" where
  "validate_model show_int env e =
     (let (io_code, n_input, n_output) = le_io env; (in_code, input) = le_input env
      in case check show_int io_code ''query IO'' of
           Inl err \<Rightarrow> (Inl err, e)
         | Inr _ \<Rightarrow>
             if n_input \<noteq> 1 \<or> n_output \<noteq> 3 then (Inl (RuntimeError ''requires YOLOv5 1 input/3 raw heads''), e)
             else
               case check show_int in_code ''query input'' of
                 Inl err \<Rightarrow> (Inl err, e)
               | Inr _ \<Rightarrow>
                   if \<not> input_shape input then (Inl (RuntimeError ''requires 640x640 RGB input''), e)
                   else query_outputs show_int env [0, 1, 2] e)"

definition loadModel :: "(int \<Rightarrow> string) \<Rightarrow> load_env \<Rightarrow> string \<Rightarrow> engine \<Rightarrow> unit result \<times> engine" where
  "loadModel show_int env path e =
     (if eg_initialized e then (Inl (RuntimeError ''model already loaded''), e)
      else
        case le_size env of
          None \<Rightarrow> (Inl (RuntimeError (''cannot read model: '' @ path)), e)
        | Some sz \<Rightarrow>
            if sz \<le> 0 \<or> 256 * 1024 * 1024 < sz then (Inl (RuntimeError ''invalid model size''), e)
            else if \<not> le_read env then (Inl (RuntimeError ''truncated model''), e)
            else
              case check show_int (le_init env) ''rknn_init'' of
                Inl err \<Rightarrow> (Inl err, e)
              | Inr _ \<Rightarrow> validate_model show_int env (eg_call Init (e\<lparr>eg_initialized := True\<rparr>)))"

definition is_quantized :: "bool \<Rightarrow> tensor_attr list \<Rightarrow> bool" where
  "is_quantized native_outputs attrs \<longleftrightarrow>
     native_outputs \<and>
     list_all (\<lambda>a. (at_type a = RKNN_TENSOR_INT8 \<or> at_type a = RKNN_TENSOR_UINT8) \<and>
                   at_qnt_type a = RKNN_TENSOR_QNT_AFFINE_ASYMMETRIC) attrs"

text \<open>
  \<open>infer\<close>; \<open>post\<close> is \<open>Yolov5PostProcess::process\<close> with everything but the outputs and the quantization. The
  guard's destructor releases the outputs whether \<open>post\<close> returns or throws.
\<close>

definition infer ::
  "(int \<Rightarrow> string) \<Rightarrow> infer_env \<Rightarrow> (rknn_output list \<Rightarrow> tensor_attr list option \<Rightarrow> detection list result) \<Rightarrow>
     mat_info \<Rightarrow> bool \<Rightarrow> engine \<Rightarrow> detection list result \<times> engine" where
  "infer show_int env post rgb native_outputs e =
     (if \<not> eg_initialized e \<or> \<not> mi_8uc3 rgb \<or> mi_rows rgb \<noteq> 640 \<or> mi_cols rgb \<noteq> 640 \<or> \<not> mi_continuous rgb
      then (Inl (RuntimeError ''invalid RKNN input''), e)
      else
        let e1 = eg_call InputsSet e
        in case check show_int (ie_set env) ''inputs_set'' of
             Inl err \<Rightarrow> (Inl err, e1)
           | Inr _ \<Rightarrow>
               let e2 = eg_call Run e1
               in case check show_int (ie_run env) ''rknn_run'' of
                    Inl err \<Rightarrow> (Inl err, e2)
                  | Inr _ \<Rightarrow>
                      let quantized = is_quantized native_outputs (eg_attrs e2);
                          (code, outputs) = ie_get env (\<not> quantized)
                      in case check show_int code ''outputs_get'' of
                           Inl err \<Rightarrow> (Inl err, e2)
                         | Inr _ \<Rightarrow>
                             (post outputs (if quantized then Some (eg_attrs e2) else None),
                              eg_call OutputsRelease (eg_call OutputsGet e2)))"

section \<open>Calls are paired\<close>

datatype engine_op =
    LoadModel load_env string
  | Infer infer_env "rknn_output list \<Rightarrow> tensor_attr list option \<Rightarrow> detection list result" mat_info bool

fun eg_exec :: "(int \<Rightarrow> string) \<Rightarrow> engine_op \<Rightarrow> engine \<Rightarrow> engine" where
  "eg_exec sh (LoadModel env path) e = snd (loadModel sh env path e)"
| "eg_exec sh (Infer env post rgb native) e = snd (infer sh env post rgb native e)"

fun eg_run :: "(int \<Rightarrow> string) \<Rightarrow> engine_op list \<Rightarrow> engine \<Rightarrow> engine" where
  "eg_run sh [] e = e"
| "eg_run sh (op # ops) e = eg_run sh ops (eg_exec sh op e)"

interpretation engine_machine: step_machine "eg_exec sh" "eg_run sh" for sh
  by unfold_locales simp_all

text \<open>
  Before the model is initialized the runtime is not used; afterwards the log is \<open>Init\<close> followed by
  inferences, in which every \<open>OutputsGet\<close> is directly followed by its \<open>OutputsRelease\<close>.
\<close>

fun inferences :: "rknn_call list \<Rightarrow> bool" where
  "inferences [] = True"
| "inferences (InputsSet # cs) = inferences cs"
| "inferences (Run # cs) = inferences cs"
| "inferences (OutputsGet # OutputsRelease # cs) = inferences cs"
| "inferences _ = False"

definition eg_inv :: "engine \<Rightarrow> bool" where
  "eg_inv e \<longleftrightarrow> length (eg_attrs e) = 3 \<and>
     (if eg_initialized e then (\<exists>cs. eg_log e = Init # cs \<and> inferences cs) else eg_log e = [])"

lemma inferences_append: "inferences cs \<Longrightarrow> inferences ds \<Longrightarrow> inferences (cs @ ds)"
  by (induction cs rule: inferences.induct) auto

lemma query_outputs_frame:
  "eg_initialized (snd (query_outputs sh env is e)) = eg_initialized e \<and>
   eg_log (snd (query_outputs sh env is e)) = eg_log e \<and>
   length (eg_attrs (snd (query_outputs sh env is e))) = length (eg_attrs e)"
  by (induction "is" arbitrary: e) (auto simp: Let_def split: prod.splits sum.splits)

lemma validate_frame:
  "eg_initialized (snd (validate_model sh env e)) = eg_initialized e \<and>
   eg_log (snd (validate_model sh env e)) = eg_log e \<and>
   length (eg_attrs (snd (validate_model sh env e))) = length (eg_attrs e)"
  using query_outputs_frame [of sh env "[0, 1, 2]" e]
  by (simp add: validate_model_def Let_def split: prod.splits sum.splits)

lemma loadModel_inv: "eg_inv e \<Longrightarrow> eg_inv (snd (loadModel sh env path e))"
  using validate_frame [of sh env "eg_call Init (e\<lparr>eg_initialized := True\<rparr>)"]
  by (auto simp: loadModel_def eg_inv_def eg_call_def split: option.splits sum.splits)

lemma infer_log:
  "\<exists>cs. eg_log (snd (infer sh env post rgb native e)) = eg_log e @ cs \<and> inferences cs \<and>
     eg_initialized (snd (infer sh env post rgb native e)) = eg_initialized e \<and>
     eg_attrs (snd (infer sh env post rgb native e)) = eg_attrs e \<and>
     (\<not> eg_initialized e \<longrightarrow> cs = [])"
  by (auto simp: infer_def eg_call_def Let_def split: sum.splits prod.splits)

lemma infer_inv: "eg_inv e \<Longrightarrow> eg_inv (snd (infer sh env post rgb native e))"
  using infer_log [of sh env post rgb native e] by (auto simp: eg_inv_def inferences_append)

lemma eg_exec_inv: "eg_inv e \<Longrightarrow> eg_inv (eg_exec sh op e)"
  by (cases op) (simp_all add: loadModel_inv infer_inv)

lemma eg_run_inv: "eg_inv e \<Longrightarrow> eg_inv (eg_run sh ops e)"
  by (erule engine_machine.machine_invariant) (rule eg_exec_inv)

text \<open>The runtime is used correctly whatever is called, in whatever order, and whatever fails: nothing
  reaches it before a model was initialized, a model is initialized at most once and destroyed exactly when
  it was initialized, also when its validation failed afterwards, and the outputs of every inference are
  released exactly once, directly after they were fetched, also when decoding them throws.\<close>

theorem runtime_calls_paired:
  "eg_log (destroy (eg_run sh ops RKNNEngine)) = [] \<or>
   (\<exists>cs. eg_log (destroy (eg_run sh ops RKNNEngine)) = Init # cs @ [Destroy] \<and> inferences cs)"
proof -
  have "eg_inv (eg_run sh ops RKNNEngine)" by (rule eg_run_inv) (simp add: eg_inv_def RKNNEngine_def)
  then show ?thesis by (auto simp: eg_inv_def destroy_def eg_call_def split: if_splits)
qed

end
