(* ===== verification/InferenceWorker.thy ===== *)
theory InferenceWorker
  imports VisionLoops Preprocessor RKNNEngine
begin

text \<open>
  The inference thread of \<open>app/VisionPipeline.cpp\<close> with its detector: the answer that \<open>infer_step\<close> takes as an
  argument is here what \<open>Preprocessor\<close>, \<open>RKNNEngine\<close> and \<open>Yolov5PostProcess\<close> compute from the frame, the
  configuration and the threshold of that moment, while the other threads go on. OpenCV, RGA, the runtime,
  the exponential function and the printing of integers stay arguments.
\<close>

section \<open>State and steps\<close>

record worker =
  wk_sys :: vsys
  wk_preprocess :: preprocessor
  wk_engine :: engine
  wk_answer :: "(string + detection list) option"

record detector_lib =
  dl_cv :: cv_rect_ops
  dl_cast :: "fp \<Rightarrow> int"
  dl_exp :: "fp \<Rightarrow> fp"
  dl_show :: "int \<Rightarrow> string"

record worker_env =
  we_inf :: inf_env
  we_images :: image_ops
  we_rknn :: infer_env

text \<open>The model input is allocated once as a continuous \<open>CV_8UC3\<close> matrix.\<close>

definition mat_of :: "image \<Rightarrow> mat_info" where
  "mat_of im = \<lparr>mi_8uc3 = True, mi_rows = im_rows im, mi_cols = im_cols im, mi_continuous = True\<rparr>"

text \<open>
  Preparing a frame and running the engine on it. \<open>threshold_\<close> is read here, once for all outputs. A failure
  is the message of the exception.
\<close>

definition detect ::
  "detector_lib \<Rightarrow> worker_env \<Rightarrow> frame \<Rightarrow> vision \<Rightarrow> preprocessor \<Rightarrow> engine \<Rightarrow>
     (string + detection list) \<times> preprocessor \<times> engine" where
  "detect dl env f s p e =
     (case run (we_images env) (fr_bytes f) p of
        Inl err \<Rightarrow> (Inl (what err), p, e)
      | Inr p1 \<Rightarrow>
          let c = vp_config s;
              post = (\<lambda>outputs quantization. process (dl_cv dl) (dl_cast dl) (dl_exp dl) outputs (pp_box p1)
                        (vp_threshold s) (c_nms c) (c_output_activation c = ''logits'') quantization);
              (found, e1) = infer (dl_show dl) (we_rknn env) post (mat_of (pp_input p1)) (c_native_outputs c) e
          in (map_sum what id found, p1, e1))"

text \<open>
  One step of the thread. The detector works on its own data except for the threshold, so its step leaves
  the shared state alone; the next step continues with its answer.
\<close>

definition resume :: "worker_env \<Rightarrow> string + detection list \<Rightarrow> worker \<Rightarrow> worker" where
  "resume env answer w =
     (let st = wk_sys w;
          (s, t) = infer_step ((we_inf env)\<lparr>ie_result := answer\<rparr>) (vs_vision st) (vs_infer st)
      in w\<lparr>wk_sys := st\<lparr>vs_vision := s, vs_infer := t\<rparr>, wk_answer := None\<rparr>)"

definition worker_step :: "detector_lib \<Rightarrow> worker_env \<Rightarrow> worker \<Rightarrow> worker" where
  "worker_step dl env w =
     (case it_pc (vs_infer (wk_sys w)) of
        InfServe f began \<Rightarrow>
          (case wk_answer w of
             None \<Rightarrow>
               let (answer, p, e) = detect dl env f (vs_vision (wk_sys w)) (wk_preprocess w) (wk_engine w)
               in w\<lparr>wk_preprocess := p, wk_engine := e, wk_answer := Some answer\<rparr>
           | Some answer \<Rightarrow> resume env answer w)
      | _ \<Rightarrow> resume env (Inr []) w)"

text \<open>A step of the inference thread or of any other; the inference thread has no step but \<open>worker_step\<close>.\<close>

datatype wk_choice = Worker worker_env | Other vchoice

fun wk_step :: "vision_lib \<Rightarrow> detector_lib \<Rightarrow> wk_choice \<Rightarrow> worker \<Rightarrow> worker" where
  "wk_step lib dl (Worker env) w = worker_step dl env w"
| "wk_step lib dl (Other (Inference env)) w = w"
| "wk_step lib dl (Other c) w = w\<lparr>wk_sys := vs_step lib c (wk_sys w)\<rparr>"

fun wk_run :: "vision_lib \<Rightarrow> detector_lib \<Rightarrow> wk_choice list \<Rightarrow> worker \<Rightarrow> worker" where
  "wk_run lib dl [] w = w"
| "wk_run lib dl (c # cs) w = wk_run lib dl cs (wk_step lib dl c w)"

interpretation worker_machine: step_machine "wk_step lib dl" "wk_run lib dl" for lib dl
  by unfold_locales simp_all

text \<open>
  A constructed and started pipeline: the preprocessor is built for the configured size, the engine has
  whatever model was loaded.
\<close>

definition worker_new ::
  "detector_lib \<Rightarrow> bool \<Rightarrow> config \<Rightarrow> nat \<Rightarrow> byte list option \<Rightarrow> engine \<Rightarrow> worker result" where
  "worker_new dl built_with_rga c now replay e =
     bind_result (VisionPipeline c now) (\<lambda>s.
       bind_result (Preprocessor (dl_cast dl) built_with_rga (c_width c) (c_height c) (c_preprocess c = ''rga'')) (\<lambda>p.
         Inr \<lparr>wk_sys = vs_start now replay s, wk_preprocess = p, wk_engine = e, wk_answer = None\<rparr>))"

section \<open>What clients are shown as detected\<close>

definition shown_ok :: "cv_rect_ops \<Rightarrow> config \<Rightarrow> detection \<Rightarrow> bool" where
  "shown_ok cv c d \<longleftrightarrow>
     0 \<le> dt_class d \<and> dt_class d < 80 \<and> 0 < cv_area cv (dt_box d) \<and>
     (case dt_confidence d of Fin v \<Rightarrow> 0 < v \<and> \<not> fp_less (to_float (1001 / 1000)) (Fin v) | _ \<Rightarrow> False) \<and>
     0 \<le> rc_x (dt_box d) \<and> rc_x (dt_box d) + rc_width (dt_box d) \<le> c_width c \<and>
     0 \<le> rc_y (dt_box d) \<and> rc_y (dt_box d) + rc_height (dt_box d) \<le> c_height c"

definition found_ok :: "cv_rect_ops \<Rightarrow> config \<Rightarrow> json \<Rightarrow> bool" where
  "found_ok cv c j \<longleftrightarrow>
     (\<exists>ds. j = JArray (map json_of_detection ds) \<and> length ds \<le> 100 \<and> (\<forall>d \<in> set ds. shown_ok cv c d))"

text \<open>What the pipeline publishes, and the two inputs of the detector that the threads share.\<close>

definition pub_ok :: "cv_rect_ops \<Rightarrow> config \<Rightarrow> vision \<Rightarrow> bool" where
  "pub_ok cv c s \<longleftrightarrow> vp_config s = c \<and> (\<exists>t. vp_threshold s = Fin t \<and> 0 < t) \<and> found_ok cv c (vp_detections s)"

lemma found_ok_empty [simp]: "found_ok cv c (JArray [])"
  unfolding found_ok_def by (rule exI [of _ "[]"]) simp

interpretation pub: vision_invariant "pub_ok cv c" for cv c
  by unfold_locales (simp_all add: pub_ok_def new_epoch_def clear_detections_def)

lemma pub_ok_shown: "pub_ok cv c s \<Longrightarrow> found_ok cv c found \<Longrightarrow> pub_ok cv c (show_result f found s)"
  by (simp add: pub_ok_def show_result_def count_event_def)

section \<open>The detector and the inference thread\<close>

definition found_list_ok :: "cv_rect_ops \<Rightarrow> config \<Rightarrow> detection list \<Rightarrow> bool" where
  "found_list_ok cv c ds \<longleftrightarrow> length ds \<le> 100 \<and> (\<forall>d \<in> set ds. shown_ok cv c d)"

definition box_ok :: "config \<Rightarrow> preprocessor \<Rightarrow> bool" where
  "box_ok c p \<longleftrightarrow> lb_width (pp_box p) = c_width c \<and> lb_height (pp_box p) = c_height c \<and> 0 < c_width c \<and> 0 < c_height c"

lemma found_list_json: "found_list_ok cv c ds \<Longrightarrow> found_ok cv c (JArray (map json_of_detection ds))"
  unfolding found_ok_def found_list_ok_def by blast

lemma found_list_empty [simp]: "found_list_ok cv c []"
  by (simp add: found_list_ok_def)

lemma run_box: "run ops f p = Inr p1 \<Longrightarrow> pp_box p1 = pp_box p"
  by (auto simp: run_def Let_def bind_result_Inr split: if_splits sum.splits)

lemma infer_result: "infer sh env post rgb native e = (Inr ds, e1) \<Longrightarrow> \<exists>outputs q. post outputs q = Inr ds"
  by (auto simp: infer_def Let_def split: if_splits sum.splits prod.splits)

lemma detection_shown:
  assumes "detection_ok cv b (Fin t) d" and "0 < t" and "lb_width b = c_width c" and "lb_height b = c_height c"
  shows "shown_ok cv c d"
  using assms by (cases "dt_confidence d") (auto simp: detection_ok_def shown_ok_def)

lemma detect_ok:
  assumes "detect dl env f s p e = (answer, p1, e1)" and s: "pub_ok (dl_cv dl) c s" and "box_ok c p"
  shows "box_ok c p1 \<and> (\<forall>ds. answer = Inr ds \<longrightarrow> found_list_ok (dl_cv dl) c ds)"
proof (cases "run (we_images env) (fr_bytes f) p")
  case (Inl err)
  with assms show ?thesis by (auto simp: detect_def)
next
  case (Inr p2)
  from s obtain t where t: "vp_threshold s = Fin t" "0 < t" by (auto simp: pub_ok_def)
  let ?post = "\<lambda>outputs q. process (dl_cv dl) (dl_cast dl) (dl_exp dl) outputs (pp_box p2) (vp_threshold s)
    (c_nms (vp_config s)) (c_output_activation (vp_config s) = ''logits'') q"
  obtain found e2 where run: "infer (dl_show dl) (we_rknn env) ?post (mat_of (pp_input p2)) (c_native_outputs (vp_config s)) e
      = (found, e2)" by fastforce
  have box: "box_ok c p2" using run_box [OF Inr] assms(3) by (simp add: box_ok_def)
  have "found_list_ok (dl_cv dl) c ds" if "found = Inr ds" for ds
  proof -
    from infer_result [OF run [unfolded that]] obtain outputs q where "?post outputs q = Inr ds" by blast
    from detections_valid [OF this] box t show ?thesis
      by (auto simp: found_list_ok_def box_ok_def intro: detection_shown)
  qed
  moreover have "answer = map_sum what id found" "p1 = p2" using assms(1) by (simp_all add: detect_def Inr run)
  ultimately show ?thesis using box by (cases found) auto
qed

definition pc_ok :: "cv_rect_ops \<Rightarrow> config \<Rightarrow> infer_thread \<Rightarrow> bool" where
  "pc_ok cv c t \<longleftrightarrow> (case it_pc t of InfPublish f ended found person \<Rightarrow> found_ok cv c found | _ \<Rightarrow> True)"

lemma infer_step_pub:
  assumes "pub_ok cv c s" and "pc_ok cv c t" and "\<And>ds. ie_result env = Inr ds \<Longrightarrow> found_list_ok cv c ds"
  shows "pub_ok cv c (fst (infer_step env s t)) \<and> pc_ok cv c (snd (infer_step env s t))"
proof (cases "it_pc t")
  case (InfPublish f ended found person)
  then have "found_ok cv c found" using assms(2) by (simp add: pc_ok_def)
  with InfPublish assms(1) show ?thesis
    by (auto simp: infer_step_def publish_step_def Let_def pub.views pub_ok_shown pc_ok_def)
next
  case (InfServe f began)
  with assms show ?thesis
    by (auto simp: infer_step_def serve_defs Let_def pub.views pc_ok_def found_list_json split: sum.split)
next
  case (InfDisable f)
  with assms show ?thesis by (auto simp: infer_step_def pub_ok_def pc_ok_def)
qed (use assms in \<open>auto simp: infer_step_def Let_def pub.views pc_ok_def split: prod.splits option.splits\<close>)

definition worker_ok :: "detector_lib \<Rightarrow> config \<Rightarrow> worker \<Rightarrow> bool" where
  "worker_ok dl c w \<longleftrightarrow>
     pub_ok (dl_cv dl) c (vs_vision (wk_sys w)) \<and> pc_ok (dl_cv dl) c (vs_infer (wk_sys w)) \<and> box_ok c (wk_preprocess w) \<and>
     (\<forall>ds. wk_answer w = Some (Inr ds) \<longrightarrow> found_list_ok (dl_cv dl) c ds)"

lemma resume_ok:
  assumes "worker_ok dl c w" and "\<And>ds. answer = Inr ds \<Longrightarrow> found_list_ok (dl_cv dl) c ds"
  shows "worker_ok dl c (resume env answer w)"
  using assms infer_step_pub [of "dl_cv dl" c "vs_vision (wk_sys w)" "vs_infer (wk_sys w)" "(we_inf env)\<lparr>ie_result := answer\<rparr>"]
  by (simp add: worker_ok_def resume_def Let_def case_prod_unfold)

lemma worker_step_ok:
  assumes "worker_ok dl c w"
  shows "worker_ok dl c (worker_step dl env w)"
proof -
  have other: "worker_ok dl c (resume env (Inr []) w)" using assms by (rule resume_ok) simp
  have answered: "worker_ok dl c (resume env answer w)" if "wk_answer w = Some answer" for answer
    using assms by (rule resume_ok) (use assms that in \<open>simp add: worker_ok_def\<close>)
  have "worker_ok dl c (w\<lparr>wk_preprocess := p, wk_engine := e, wk_answer := Some answer\<rparr>)"
    if "detect dl env f (vs_vision (wk_sys w)) (wk_preprocess w) (wk_engine w) = (answer, p, e)" for f answer p e
    using detect_ok [OF that, of c] assms by (simp add: worker_ok_def)
  with other answered show ?thesis by (simp add: worker_step_def split: inf_pc.split option.split prod.split)
qed

lemma wk_step_ok: "worker_ok dl c w \<Longrightarrow> worker_ok dl c (wk_step lib dl ch w)"
proof (induction lib dl ch w rule: wk_step.induct)
  case (1 lib dl env w)
  then show ?case by (simp add: worker_step_ok)
next
  case (2 lib dl env w)
  then show ?case by simp
qed (simp_all add: worker_ok_def pub.other_step_ok other_step_infer del: vs_step.simps)

lemma wk_run_ok: "worker_ok dl c w \<Longrightarrow> worker_ok dl c (wk_run lib dl cs w)"
  by (erule worker_machine.machine_invariant) (rule wk_step_ok)

text \<open>
  A step of the worker is a step of the pipeline of \<open>VisionLoops\<close> with the detector's answer, or none: what holds
  in every run of the pipeline holds in every run of the worker.
\<close>

lemma worker_step_refines: "\<exists>cs. wk_sys (worker_step dl env w) = vs_run lib cs (wk_sys w)"
proof -
  have resume: "\<exists>cs. wk_sys (resume env answer w) = vs_run lib cs (wk_sys w)" for answer
    by (rule exI [of _ "[Inference ((we_inf env)\<lparr>ie_result := answer\<rparr>)]"]) (simp add: resume_def Let_def case_prod_unfold)
  have none: "\<exists>cs. wk_sys w = vs_run lib cs (wk_sys w)" by (rule exI [of _ "[]"]) simp
  show ?thesis
    using resume none by (simp add: worker_step_def case_prod_unfold Let_def split: inf_pc.split option.split)
qed

lemma wk_step_refines: "\<exists>cs. wk_sys (wk_step lib dl c w) = vs_run lib cs (wk_sys w)"
proof (cases "(\<exists>env. c = Worker env) \<or> (\<exists>env. c = Other (Inference env))")
  case True
  then show ?thesis using worker_step_refines by (auto intro: exI [of _ "[]"])
next
  case False
  then obtain ch where c: "c = Other ch" and "\<And>env. ch \<noteq> Inference env" by (cases c) auto
  then have "wk_step lib dl c w = w\<lparr>wk_sys := vs_step lib ch (wk_sys w)\<rparr>" by (cases ch) auto
  then show ?thesis by (intro exI [of _ "[ch]"]) simp
qed

lemma wk_run_refines: "\<exists>cs'. wk_sys (wk_run lib dl cs w) = vs_run lib cs' (wk_sys w)"
proof (induction cs arbitrary: w)
  case Nil
  show ?case by (rule exI [of _ "[]"]) simp
next
  case (Cons c cs)
  obtain xs where "wk_sys (wk_step lib dl c w) = vs_run lib xs (wk_sys w)" using wk_step_refines by blast
  moreover obtain ys where "wk_sys (wk_run lib dl cs (wk_step lib dl c w)) = vs_run lib ys (wk_sys (wk_step lib dl c w))"
    using Cons.IH by blast
  ultimately show ?case by (intro exI [of _ "xs @ ys"]) (simp add: vision_machine.machine_append)
qed

section \<open>From a loaded configuration\<close>

lemma load_threshold:
  assumes "load fc path file = Inr c"
  shows "\<exists>t. c_threshold c = Fin t \<and> 0 < t"
proof -
  from assms obtain j c0 where "read_fields fc j Config = Inr c0" and check: "check_config c0 = Inr c"
    by (rule load_cases)
  then have "c_threshold c0 \<noteq> NaN" using read_not_nan [OF _ Config_not_nan] by blast
  moreover have "\<not> fp_le (c_threshold c0) (Fin 0)" "\<not> fp_le (Fin 1) (c_threshold c0)"
    using check_config_cases(1) [OF check] by (simp_all add: outside_limits_def)
  ultimately show ?thesis using unit_fp check_config_cases(4) [OF check] by fastforce
qed

lemma Preprocessor_box: "Preprocessor fc built w h rga = Inr p \<Longrightarrow> lb_width (pp_box p) = w \<and> lb_height (pp_box p) = h \<and> 0 < w \<and> 0 < h"
  by (auto simp: Preprocessor_def make_letterbox_def bind_result_Inr Let_def split: if_splits)

lemma vs_start_pc: "pc_ok cv c (vs_infer (vs_start now file s))"
  by (simp add: vs_start_def infer_begin_def pc_ok_def Let_def case_prod_unfold)

lemma worker_new_ok:
  assumes "load fc path file = Inr c" and "worker_new dl built c now replay e = Inr w"
  shows "worker_ok dl c w"
proof -
  from assms(2) obtain s p where s: "VisionPipeline c now = Inr s"
      and p: "Preprocessor (dl_cast dl) built (c_width c) (c_height c) (c_preprocess c = ''rga'') = Inr p"
      and w: "w = \<lparr>wk_sys = vs_start now replay s, wk_preprocess = p, wk_engine = e, wk_answer = None\<rparr>"
    by (auto simp: worker_new_def bind_result_Inr)
  have "vp_config s = c" "vp_threshold s = c_threshold c" "vp_detections s = JArray []"
    using s by (auto simp: VisionPipeline_def bind_result_Inr)
  then have "pub_ok (dl_cv dl) c s" using load_threshold [OF assms(1)] by (simp add: pub_ok_def)
  then show ?thesis using Preprocessor_box [OF p] by (simp add: w worker_ok_def box_ok_def pub.start_ok vs_start_pc)
qed

text \<open>C5: What clients are shown as detected is always sound, end to end. For every configuration that \<open>load\<close>
  accepts, whatever the runtime, the image operations and the other threads answer, in every interleaving,
  whatever thresholds clients set meanwhile: the published detections are a JSON list of at most 100
  detections, each with a class below 80, a finite positive confidence of at most 1.001, and a box of
  positive area inside the configured camera image. The detector's steps add no behaviour to the pipeline: each
  such run is one of the pipeline's own, so that its other properties hold here too.\<close>

theorem published_detections_valid:
  assumes "load fc path file = Inr c" and "worker_new dl built c now replay e = Inr w"
  shows "(\<exists>ds. vp_detections (vs_vision (wk_sys (wk_run lib dl cs w))) = JArray (map json_of_detection ds) \<and>
            length ds \<le> 100 \<and> (\<forall>d \<in> set ds. shown_ok (dl_cv dl) c d)) \<and>
         (\<exists>cs'. wk_sys (wk_run lib dl cs w) = vs_run lib cs' (wk_sys w))"
  using wk_run_ok [OF worker_new_ok [OF assms], of lib cs] wk_run_refines [of lib dl cs w]
  by (simp add: worker_ok_def pub_ok_def found_ok_def)

section \<open>An example\<close>

text \<open>A square camera and a model whose coarsest output has one person in its first cell, as probabilities.\<close>

definition demo_json :: json where
  "demo_json = JObject [(''height'', JInt 640), (''output_activation'', JString ''probabilities''), (''synthetic'', JBool True),
     (''video'', JBool False), (''threshold'', JFloat (1 / 2)), (''nms'', JFloat (1 / 2))]"

definition demo_square :: config where
  "demo_square = demo_config\<lparr>c_device := ''/dev/video10'', c_model := ''models/yolov5s-640-640.rknn'', c_output := ''output'',
     c_output_activation := ''probabilities'', c_width := 640, c_height := 640\<rparr>"

definition demo_detector :: detector_lib where
  "demo_detector = \<lparr>dl_cv = demo_cv, dl_cast = (\<lambda>_. 0), dl_exp = (\<lambda>x. x), dl_show = (\<lambda>_. [])\<rparr>"

definition demo_worker_env :: worker_env where
  "demo_worker_env = \<lparr>we_inf = \<lparr>ie_now = 6, ie_result = Inr [], ie_times = []\<rparr>, we_images = demo_ops,
     we_rknn = \<lparr>ie_set = 0, ie_run = 0,
       ie_get = (\<lambda>_. (0, [demo_output (\<lambda>_. Fin 0), demo_output (\<lambda>_. Fin 0), demo_output demo_head]))\<rparr>\<rparr>"

definition demo_engine :: engine where
  "demo_engine = RKNNEngine\<lparr>eg_initialized := True\<rparr>"

definition demo_choices :: "wk_choice list" where
  "demo_choices = map Other (demo_capture 5) @ replicate 4 (Worker demo_worker_env)"

lemma half_float: "to_float (1 / 2) = Fin (1 / 2)"
  by (rule to_float_exact [of _ 1 "- 1"]) simp_all

lemma demo_load: "load (\<lambda>_. 0) ''agent.json'' (Some (Inr demo_json)) = Inr demo_square"
proof -
  have "read_fields (\<lambda>_. 0) demo_json Config = Inr demo_square"
    unfolding read_fields_def in_order.simps by (simp add: demo_json_def READ_def wrap32_def demo_square_def demo_config_def Config_def half_float)
  moreover have "check_config demo_square = Inr demo_square"
    by (simp add: check_config_def outside_limits_def invalid_roi_def demo_config_def demo_square_def)
  ultimately show ?thesis by (simp add: load_def demo_json_def)
qed

text \<open>The two steps of the inference thread that follow a successful detection.\<close>

lemma answer_published:
  assumes "it_pc (vs_infer (wk_sys w)) = InfServe f began" and "wk_answer w = Some (Inr ds)"
    and "ie_times (we_inf env) = []" and "vp_running (vs_vision (wk_sys w))" and "vp_enabled (vs_vision (wk_sys w))"
    and "fr_generation f = vp_epoch (vs_vision (wk_sys w))"
    and "age_ms (ie_now (we_inf env)) (fr_captured f) \<le> of_int (c_infer_max_age_ms (vp_config (vs_vision (wk_sys w))))"
  shows "vp_detections (vs_vision (wk_sys (worker_step dl env (worker_step dl env w)))) = JArray (map json_of_detection ds)"
  using assms
  by (simp add: worker_step_def resume_def infer_step_def serve_defs publish_defs Let_def count_event_def note_time_def video_call_def)

lemma demo_letterbox: "make_letterbox (\<lambda>_. 0) 640 640 = Inr demo_box"
proof -
  have "fp_div (Fin 640) (fp_of_int 640) = Fin 1" by simp
  then show ?thesis unfolding make_letterbox_def Let_def fp_min_def by (simp add: demo_box_def del: fp_div.simps)
qed

definition demo_preprocessor :: preprocessor where
  "demo_preprocessor = \<lparr>pp_full = blank 640 640, pp_resized = blank 640 640,
     pp_input = \<lparr>im_rows = 640, im_cols = 640, im_at = (\<lambda>_ _. grey)\<rparr>, pp_box = demo_box, pp_rga = False\<rparr>"

definition demo_worker :: worker where
  "demo_worker = \<lparr>wk_sys = vs_start 0 None (demo_start\<lparr>vp_config := demo_square\<rparr>), wk_preprocess = demo_preprocessor,
     wk_engine = demo_engine, wk_answer = None\<rparr>"

lemma demo_worker: "worker_new demo_detector False demo_square 0 None demo_engine = Inr demo_worker"
proof -
  have "VisionPipeline demo_square 0 = Inr (demo_start\<lparr>vp_config := demo_square\<rparr>)"
    by (simp add: VisionPipeline_def demo_square_def demo_config_def FramePool_def BoundedQueue_def demo_start_def demo_queue_def)
  moreover have "Preprocessor (\<lambda>_. 0) False 640 640 False = Inr demo_preprocessor"
    by (simp add: Preprocessor_def demo_letterbox demo_preprocessor_def demo_box_def)
  ultimately show ?thesis by (simp add: worker_new_def demo_worker_def demo_detector_def demo_square_def demo_config_def)
qed

definition demo_square_frame :: frame where
  "demo_square_frame = \<lparr>fr_bytes = [], fr_sequence = 1, fr_generation = 0, fr_captured = 5\<rparr>"

definition demo_serving :: "worker \<Rightarrow> bool" where
  "demo_serving w \<longleftrightarrow>
     (let s = vs_vision (wk_sys w); p = wk_preprocess w
      in it_pc (vs_infer (wk_sys w)) = InfServe demo_square_frame 6 \<and> wk_answer w = None \<and> wk_engine w = demo_engine \<and>
         pp_box p = demo_box \<and> \<not> pp_rga p \<and> im_rows (pp_input p) = 640 \<and> im_cols (pp_input p) = 640 \<and>
         vp_running s \<and> vp_enabled s \<and> vp_epoch s = 0 \<and> vp_config s = demo_square \<and> vp_threshold s = Fin (1 / 2))"

lemma demo_serving: "demo_serving (wk_run demo_lib demo_detector demo_choices demo_worker)"
  by code_simp

lemma demo_process: "process demo_cv (\<lambda>_. 0) (\<lambda>x. x) [demo_output (\<lambda>_. Fin 0), demo_output (\<lambda>_. Fin 0), demo_output demo_head]
    demo_box (Fin (1 / 2)) (Fin (1 / 2)) False None = Inr [demo_found]"
  using detections_valid_witness by (rule conjunct1)

lemma demo_answer:
  assumes "demo_serving w"
  shows "fst (detect demo_detector demo_worker_env f (vs_vision (wk_sys w)) (wk_preprocess w) (wk_engine w)) = Inr [demo_found]"
  using assms demo_process
  by (simp add: demo_serving_def Let_def detect_def run_def copy_into_def infer_def check_def is_quantized_def demo_engine_def
      demo_detector_def demo_worker_env_def demo_square_def demo_config_def mat_of_def RKNNEngine_def no_attr_def eg_call_def demo_box_def numeral_3_eq_3)

lemma demo_published:
  assumes "demo_serving w"
  shows "vp_detections (vs_vision (wk_sys (wk_run demo_lib demo_detector (replicate 3 (Worker demo_worker_env)) w)))
    = JArray [json_of_detection demo_found]"
proof -
  let ?w1 = "worker_step demo_detector demo_worker_env w"
  have "?w1 = w\<lparr>wk_preprocess := p, wk_engine := e, wk_answer := Some (Inr [demo_found])\<rparr>"
    if "detect demo_detector demo_worker_env demo_square_frame (vs_vision (wk_sys w)) (wk_preprocess w) (wk_engine w) = (Inr [demo_found], p, e)" for p e
    using assms that by (simp add: demo_serving_def worker_step_def Let_def)
  moreover obtain p e where "detect demo_detector demo_worker_env demo_square_frame (vs_vision (wk_sys w)) (wk_preprocess w) (wk_engine w)
      = (Inr [demo_found], p, e)" using demo_answer [OF assms] by (metis prod.collapse)
  ultimately have "?w1 = w\<lparr>wk_preprocess := p, wk_engine := e, wk_answer := Some (Inr [demo_found])\<rparr>" by blast
  with assms show ?thesis
    using answer_published [of ?w1 demo_square_frame 6 "[demo_found]" demo_worker_env demo_detector]
    by (simp add: demo_serving_def Let_def numeral_3_eq_3 demo_square_frame_def demo_worker_env_def age_ms_def demo_square_def demo_config_def)
qed

theorem published_detections_valid_witness:
  "vp_detections (vs_vision (wk_sys (wk_run demo_lib demo_detector (demo_choices @ replicate 3 (Worker demo_worker_env)) demo_worker)))
     = JArray (map json_of_detection [demo_found]) \<and> shown_ok demo_cv demo_square demo_found"
proof -
  let ?j = "vp_detections (vs_vision (wk_sys (wk_run demo_lib demo_detector
    (demo_choices @ replicate 3 (Worker demo_worker_env)) demo_worker)))"
  have j: "?j = JArray (map json_of_detection [demo_found])"
    using demo_published [OF demo_serving] by (simp add: worker_machine.machine_append)
  obtain ds where ds: "?j = JArray (map json_of_detection ds)" "\<forall>d \<in> set ds. shown_ok demo_cv demo_square d"
    using published_detections_valid [OF demo_load demo_worker, of demo_lib "demo_choices @ replicate 3 (Worker demo_worker_env)"]
    by (auto simp: demo_detector_def)
  from j ds(1) obtain d where "ds = [d]" "json_of_detection d = json_of_detection demo_found" by auto
  then have "d = demo_found"
    by (cases "dt_confidence d") (auto simp: json_of_detection_def demo_found_def)
  with j ds \<open>ds = [d]\<close> show ?thesis by simp
qed

end
