(* ===== verification/EventTriggers.thy ===== *)
theory EventTriggers
  imports VisionLoops
begin

text \<open>
  When the inference thread of \<open>app/VisionPipeline.cpp\<close> triggers a recording. The thread only keeps a counter,
  which many of its branches reset; here a history of what became of the frames is kept beside the pipeline
  (it does not influence it), and the triggers are compared with a definition over the whole history.
\<close>

section \<open>The history\<close>

text \<open>
  A result that was published, with whether it shows a person in the region of interest, or an interruption: a
  frame of another epoch, a frame or a result that was refused, or a failed inference.
\<close>

datatype inf_outcome = Shown frame bool | Interrupted

definition step_outcomes :: "inf_env \<Rightarrow> vision \<Rightarrow> infer_thread \<Rightarrow> inf_outcome list" where
  "step_outcomes env s t =
     (case it_pc t of
        InfPop \<Rightarrow>
          (case fst (popLatest (vp_inference s)) of
             Some f \<Rightarrow> if fr_generation f \<noteq> it_generation t then [Interrupted] else []
           | None \<Rightarrow> [])
      | InfCheck f \<Rightarrow> if \<not> vp_enabled s \<or> fr_generation f \<noteq> vp_epoch s then [Interrupted] else []
      | InfAge f \<Rightarrow>
          if of_int (c_infer_max_age_ms (vp_config s)) < age_ms (ie_now env) (fr_captured f) then [Interrupted] else []
      | InfPublish f ended found person \<Rightarrow>
          if stale_result f ended s then [Interrupted] else [Shown f person]
      | InfFail f message \<Rightarrow> [Interrupted]
      | _ \<Rightarrow> [])"

fun trigger_times :: "video_call list \<Rightarrow> nat list" where
  "trigger_times [] = []"
| "trigger_times (VideoTrigger t # vs) = t # trigger_times vs"
| "trigger_times (_ # vs) = trigger_times vs"

text \<open>The triggers are those of the inference thread only, not those that clients ask for.\<close>

record traced =
  tr_sys :: vsys
  tr_outcomes :: "inf_outcome list"
  tr_triggers :: "nat list"

definition note_step :: "inf_env \<Rightarrow> vsys \<Rightarrow> vsys \<Rightarrow> traced \<Rightarrow> traced" where
  "note_step env st st1 tr =
     tr\<lparr>tr_sys := st1, tr_outcomes := tr_outcomes tr @ step_outcomes env (vs_vision st) (vs_infer st),
        tr_triggers := tr_triggers tr @
          trigger_times (drop (length (vp_video_log (vs_vision st))) (vp_video_log (vs_vision st1)))\<rparr>"

fun tr_step :: "vision_lib \<Rightarrow> vchoice \<Rightarrow> traced \<Rightarrow> traced" where
  "tr_step lib (Inference env) tr = note_step env (tr_sys tr) (vs_step lib (Inference env) (tr_sys tr)) tr"
| "tr_step lib c tr = tr\<lparr>tr_sys := vs_step lib c (tr_sys tr)\<rparr>"

fun tr_run :: "vision_lib \<Rightarrow> vchoice list \<Rightarrow> traced \<Rightarrow> traced" where
  "tr_run lib [] tr = tr"
| "tr_run lib (c # cs) tr = tr_run lib cs (tr_step lib c tr)"

interpretation traced_machine: step_machine "tr_step lib" "tr_run lib" for lib
  by unfold_locales simp_all

definition tr_start :: "vsys \<Rightarrow> traced" where
  "tr_start st = \<lparr>tr_sys = st, tr_outcomes = [], tr_triggers = []\<rparr>"

lemma tr_step_sys: "tr_sys (tr_step lib c tr) = vs_step lib c (tr_sys tr)"
  by (cases c) (simp_all add: note_step_def)

lemma tr_run_sys: "tr_sys (tr_run lib cs tr) = vs_run lib cs (tr_sys tr)"
  by (induction cs arbitrary: tr) (simp_all add: tr_step_sys)

section \<open>The specification\<close>

fun with_person :: "inf_outcome \<Rightarrow> bool" where
  "with_person (Shown f person) = person"
| "with_person Interrupted = False"

fun outcome_time :: "inf_outcome \<Rightarrow> nat" where
  "outcome_time (Shown f person) = fr_captured f"
| "outcome_time Interrupted = 0"

text \<open>The inf_outcome \<open>i\<close> and those before it, \<open>n\<close> in all, are results with a person.\<close>

definition confirms :: "nat \<Rightarrow> inf_outcome list \<Rightarrow> nat \<Rightarrow> bool" where
  "confirms n os i \<longleftrightarrow> n \<le> i + 1 \<and> list_all (\<lambda>k. with_person (os ! k)) [i + 1 - n..<i + 1]"

definition confirmed_times :: "nat \<Rightarrow> inf_outcome list \<Rightarrow> nat list" where
  "confirmed_times n os = map (\<lambda>i. outcome_time (os ! i)) (filter (confirms n os) [0..<length os])"

text \<open>Results that follow each other without an interruption are of one epoch.\<close>

fun same_epoch :: "inf_outcome \<Rightarrow> inf_outcome \<Rightarrow> bool" where
  "same_epoch (Shown f p) (Shown g q) \<longleftrightarrow> fr_generation f = fr_generation g"
| "same_epoch _ _ \<longleftrightarrow> True"

section \<open>The counter and the history\<close>

definition person_streak :: "inf_outcome list \<Rightarrow> nat" where
  "person_streak os = length (takeWhile with_person (rev os))"

lemma person_streak_snoc [simp]: "person_streak (os @ [x]) = (if with_person x then person_streak os + 1 else 0)"
  by (simp add: person_streak_def)

lemma person_streak_Nil [simp]: "person_streak [] = 0"
  by (simp add: person_streak_def)

lemma person_streak_le: "person_streak os \<le> length os"
  unfolding person_streak_def using length_takeWhile_le [of with_person "rev os"] by simp

lemma person_streak_ge: "n \<le> person_streak os \<longleftrightarrow> n \<le> length os \<and> list_all (\<lambda>k. with_person (os ! k)) [length os - n..<length os]"
proof (induction os arbitrary: n rule: rev_induct)
  case (snoc x os)
  show ?case
  proof (cases n)
    case (Suc m)
    have "list_all (\<lambda>k. with_person ((os @ [x]) ! k)) [length os - m..<length os + 1] \<longleftrightarrow>
        list_all (\<lambda>k. with_person (os ! k)) [length os - m..<length os] \<and> with_person x"
      by (auto simp: list_all_iff nth_append)
    with Suc snoc.IH [of m] show ?thesis by auto
  qed simp
qed (simp add: person_streak_def)

lemma confirms_last: "1 \<le> n \<Longrightarrow> confirms n (os @ [x]) (length os) \<longleftrightarrow> n \<le> person_streak (os @ [x])"
  using person_streak_ge [of n "os @ [x]"] by (simp add: confirms_def)

lemma confirmed_snoc:
  assumes "1 \<le> n"
  shows "confirmed_times n (os @ [x]) = confirmed_times n os @ (if n \<le> person_streak (os @ [x]) then [outcome_time x] else [])"
proof -
  have "confirms n (os @ [x]) i = confirms n os i" if "i < length os" for i
    using that by (auto simp: confirms_def list_all_iff nth_append)
  then have "filter (confirms n (os @ [x])) [0..<length os] = filter (confirms n os) [0..<length os]"
    by (intro filter_cong) simp_all
  then show ?thesis using confirms_last [OF assms] by (auto simp: confirmed_times_def nth_append)
qed

section \<open>What the steps keep\<close>

definition configured :: "config \<Rightarrow> vision \<Rightarrow> bool" where
  "configured c s \<longleftrightarrow> vp_config s = c \<and> vp_has_video s = c_video c"

interpretation conf: vision_invariant "configured c" for c
  by unfold_locales (simp_all add: configured_def new_epoch_def clear_detections_def)

lemma infer_step_configured: "configured c s \<Longrightarrow> configured c (fst (infer_step env s t))"
proof (cases "it_pc t")
  case (InfPublish f ended found person)
  assume "configured c s"
  moreover from this have "configured c (show_result f found s)" by (simp add: configured_def show_result_def count_event_def)
  ultimately show ?thesis using InfPublish by (auto simp: infer_step_def publish_step_def Let_def conf.views)
next
  case (InfDisable f)
  then show "configured c s \<Longrightarrow> ?thesis" by (auto simp: infer_step_def configured_def)
qed (auto simp: infer_step_def serve_defs Let_def conf.views split: prod.splits option.splits sum.splits)

lemma log_bookkeeping [simp]:
  "vp_video_log (count_event k s) = vp_video_log s" "vp_video_log (note_time k v s) = vp_video_log s"
  by (simp_all add: count_event_def note_time_def)

lemma log_note_times [simp]: "vp_video_log (note_times xs s) = vp_video_log s"
  by (induction xs s rule: note_times.induct) simp_all

fun publishing :: "inf_pc \<Rightarrow> bool" where
  "publishing (InfPublish f ended found person) = True"
| "publishing _ = False"

lemma infer_step_log: "\<not> publishing (it_pc t) \<Longrightarrow> vp_video_log (fst (infer_step env s t)) = vp_video_log s"
  by (cases "it_pc t") (auto simp: infer_step_def serve_defs Let_def split: prod.splits option.splits sum.splits)

text \<open>The frame in the thread's hands.\<close>

fun in_hand :: "inf_pc \<Rightarrow> frame option" where
  "in_hand (InfCheck f) = Some f"
| "in_hand (InfAge f) = Some f"
| "in_hand (InfServe f began) = Some f"
| "in_hand (InfPublish f ended found person) = Some f"
| "in_hand _ = None"

definition thread_ok :: "nat \<Rightarrow> inf_outcome list \<Rightarrow> infer_thread \<Rightarrow> bool" where
  "thread_ok n os t \<longleftrightarrow>
     it_confirmed t = int (min n (person_streak os)) \<and> (\<forall>f. in_hand (it_pc t) = Some f \<longrightarrow> fr_generation f = it_generation t) \<and>
     successively same_epoch os \<and> (\<forall>f p. os \<noteq> [] \<longrightarrow> last os = Shown f p \<longrightarrow> fr_generation f = it_generation t)"

lemma same_epoch_Interrupted [simp]: "same_epoch x Interrupted"
  by (cases x) simp_all

lemma thread_ok_interrupted:
  "successively same_epoch os \<Longrightarrow> it_confirmed t = 0 \<Longrightarrow>
     (\<And>f. in_hand (it_pc t) = Some f \<Longrightarrow> fr_generation f = it_generation t) \<Longrightarrow> thread_ok n (os @ [Interrupted]) t"
  by (simp add: thread_ok_def successively_append_iff)

lemma thread_ok_shown:
  assumes "thread_ok n os t" and "fr_generation f = it_generation t"
    and "it_confirmed t1 = (if person then min (it_confirmed t + 1) (int n) else 0)"
    and "it_generation t1 = it_generation t" and "it_pc t1 = InfTop"
  shows "thread_ok n (os @ [Shown f person]) t1"
proof -
  have "os = [] \<or> same_epoch (last os) (Shown f person)"
    using assms(1,2) by (cases "last os") (auto simp: thread_ok_def)
  with assms show ?thesis by (auto simp: thread_ok_def successively_append_iff)
qed

lemma infer_step_thread:
  assumes "thread_ok n os t" and "int n = c_event_confirm (vp_config s)" and "1 \<le> n"
  shows "thread_ok n (os @ step_outcomes env s t) (snd (infer_step env s t))"
proof (cases "it_pc t")
  case (InfPublish f ended found person)
  then have f: "fr_generation f = it_generation t" and os: "successively same_epoch os"
    using assms(1) by (simp_all add: thread_ok_def)
  show ?thesis
  proof (cases "stale_result f ended s")
    case True
    with InfPublish show ?thesis
      by (auto simp: infer_step_def publish_step_def step_outcomes_def intro: thread_ok_interrupted [OF os])
  next
    case False
    with InfPublish have o: "step_outcomes env s t = [Shown f person]" by (simp add: step_outcomes_def)
    from False InfPublish assms(2) show ?thesis
      unfolding o by (intro thread_ok_shown [OF assms(1) f]) (simp_all add: infer_step_def publish_step_def Let_def)
  qed
next
  case InfPop
  then have os: "successively same_epoch os" using assms(1) by (simp add: thread_ok_def)
  show ?thesis
  proof (cases "popLatest (vp_inference s)")
    case (Pair popped q)
    with InfPop assms(1) show ?thesis
      by (cases popped) (auto simp: infer_step_def step_outcomes_def thread_ok_def Let_def successively_append_iff)
  qed
qed (use assms(1) in \<open>auto simp: infer_step_def step_outcomes_def thread_ok_def serve_defs Let_def successively_append_iff
  split: sum.splits\<close>)

lemma infer_step_triggers:
  assumes "thread_ok n os t" and "configured c s" and "int n = c_event_confirm c" and "1 \<le> n"
  shows "(if c_video c then confirmed_times n (os @ step_outcomes env s t) else []) =
    (if c_video c then confirmed_times n os else []) @
    trigger_times (drop (length (vp_video_log s)) (vp_video_log (fst (infer_step env s t))))"
proof (cases "publishing (it_pc t)")
  case True
  then obtain f ended found person where pc: "it_pc t = InfPublish f ended found person"
    by (cases "it_pc t") simp_all
  show ?thesis
  proof (cases "stale_result f ended s")
    case True
    with assms(4) pc show ?thesis
      by (auto simp: step_outcomes_def confirmed_snoc infer_step_def publish_step_def)
  next
    case False
    define confirmed where "confirmed = (if person then min (it_confirmed t + 1) (int n) else 0)"
    have "int n \<le> confirmed \<longleftrightarrow> n \<le> person_streak (os @ [Shown f person])"
      using assms(1,4) by (auto simp: thread_ok_def confirmed_def)
    moreover have "vp_video_log (fst (infer_step env s t)) =
        vp_video_log s @ (if int n \<le> confirmed \<and> c_video c then [VideoTrigger (fr_captured f)] else [])"
      using False pc assms(2,3)
      by (simp add: infer_step_def publish_step_def show_result_def Let_def video_call_def configured_def confirmed_def count_event_def)
    moreover have "step_outcomes env s t = [Shown f person]" using False pc by (simp add: step_outcomes_def)
    ultimately show ?thesis using assms(4) by (simp add: confirmed_snoc)
  qed
next
  case False
  have "step_outcomes env s t = [] \<or> step_outcomes env s t = [Interrupted]"
    using False by (cases "it_pc t") (auto simp: step_outcomes_def split: option.split)
  with False show ?thesis using assms(4) by (auto simp: infer_step_log confirmed_snoc)
qed

section \<open>Every interleaving\<close>

definition traced_ok :: "config \<Rightarrow> traced \<Rightarrow> bool" where
  "traced_ok c tr \<longleftrightarrow>
     (let n = nat (c_event_confirm c)
      in configured c (vs_vision (tr_sys tr)) \<and> thread_ok n (tr_outcomes tr) (vs_infer (tr_sys tr)) \<and>
         tr_triggers tr = (if c_video c then confirmed_times n (tr_outcomes tr) else []))"

lemma tr_step_ok:
  assumes "1 \<le> c_event_confirm c" and "traced_ok c tr"
  shows "traced_ok c (tr_step lib ch tr)"
proof (cases "\<exists>env. ch = Inference env")
  case True
  then obtain env where ch: "ch = Inference env" by blast
  let ?s = "vs_vision (tr_sys tr)" and ?t = "vs_infer (tr_sys tr)" and ?n = "nat (c_event_confirm c)"
  have ok: "configured c ?s" "thread_ok ?n (tr_outcomes tr) ?t" and n: "int ?n = c_event_confirm c" "1 \<le> ?n"
    using assms by (simp_all add: traced_ok_def Let_def)
  have "int ?n = c_event_confirm (vp_config ?s)" using ok(1) n(1) by (simp add: configured_def)
  from infer_step_thread [OF ok(2) this n(2), of env] infer_step_triggers [OF ok(2,1) n, of env]
    infer_step_configured [OF ok(1), of env ?t] assms(2)
  show ?thesis by (auto simp: ch traced_ok_def note_step_def Let_def case_prod_unfold split: if_splits)
next
  case False
  then have "tr_step lib ch tr = tr\<lparr>tr_sys := vs_step lib ch (tr_sys tr)\<rparr>" by (cases ch) auto
  with False assms(2) show ?thesis by (simp add: traced_ok_def Let_def conf.other_step_ok other_step_infer)
qed

lemma tr_run_ok: "1 \<le> c_event_confirm c \<Longrightarrow> traced_ok c tr \<Longrightarrow> traced_ok c (tr_run lib cs tr)"
  by (erule traced_machine.machine_invariant) (rule tr_step_ok)

lemma tr_start_ok:
  assumes "VisionPipeline c now0 = Inr s0"
  shows "traced_ok c (tr_start (vs_start now file s0))"
proof -
  have "configured c s0" using assms by (auto simp: VisionPipeline_def bind_result_Inr configured_def)
  then have "configured c (vs_vision (vs_start now file s0))" by (rule conf.start_ok)
  moreover have "vs_infer (vs_start now file s0) = infer_begin now" by (simp add: vs_start_def case_prod_unfold Let_def)
  ultimately show ?thesis
    by (simp add: traced_ok_def tr_start_def thread_ok_def infer_begin_def confirmed_times_def Let_def)
qed


definition demo_events :: config where
  "demo_events = demo_config\<lparr>c_video := True, c_event_confirm := 2\<rparr>"

definition demo_events_start :: vision where
  "demo_events_start = demo_start\<lparr>vp_config := demo_events, vp_has_video := True\<rparr>"

definition demo_person :: detection where
  "demo_person = \<lparr>dt_class = 0, dt_confidence = Fin 1, dt_box = \<lparr>rc_x = 0, rc_y = 0, rc_width = 1, rc_height = 1\<rparr>\<rparr>"

text \<open>Two frames with a person, one without anybody, and one with a person; two results confirm an event.\<close>

definition demo_watch :: "vchoice list" where
  "demo_watch = concat (map (\<lambda>(now, ds). demo_capture now @ demo_infer 6 (now + 1) (Inr ds))
     [(5, [demo_person]), (50, [demo_person]), (100, []), (150, [demo_person])])"

definition demo_traced :: traced where
  "demo_traced = tr_run demo_lib demo_watch (tr_start (vs_start 0 None demo_events_start))"

lemma demo_triggers: "tr_triggers demo_traced = [50]"
  by code_simp


end
