(* ===== verification/VisionReplies.thy ===== *)
theory VisionReplies
  imports VisionLoops
begin

text \<open>
  What the threads of \<open>app/VisionPipeline.cpp\<close> owe the clients together: every connection that is retained for a
  queued job is released once, after the reply to that job; and what a client gets in the two awkward cases
  of a preview that is too large and of an inference that was disabled after errors.
\<close>

section \<open>Retained connections\<close>

text \<open>The jobs that the snapshot thread or the network thread still has for a connection.\<close>

definition jobs_of :: "nat \<Rightarrow> snapshot_job list \<Rightarrow> nat" where
  "jobs_of c jobs = count_list (map sn_connection jobs) c"

fun snap_jobs :: "snap_pc \<Rightarrow> snapshot_job list" where
  "snap_jobs (SnapJob job) = [job]"
| "snap_jobs (SnapCheck job encoded) = [job]"
| "snap_jobs (SnapReply job response) = [job]"
| "snap_jobs _ = []"

definition open_jobs :: "vsys \<Rightarrow> snapshot_job list" where
  "open_jobs st = map fst (vs_pending st) @ snap_jobs (vs_snap st) @ bq_q (vp_snapshots (vs_vision st))"

definition retains_ok :: "nat \<Rightarrow> vsys \<Rightarrow> bool" where
  "retains_ok c st \<longleftrightarrow> count_list (vs_acts st) (Retain c) = count_list (vs_acts st) (Release c) + jobs_of c (open_jobs st)"

lemma jobs_of_simps [simp]:
  "jobs_of c [] = 0" "jobs_of c (job # jobs) = (if sn_connection job = c then 1 else 0) + jobs_of c jobs"
  "jobs_of c (xs @ ys) = jobs_of c xs + jobs_of c ys"
  by (simp_all add: jobs_of_def)

text \<open>Nothing but requests and the snapshot thread touches the snapshot queue.\<close>

lemma snapshots_frame [simp]:
  "vp_snapshots (count_event k s) = vp_snapshots s" "vp_snapshots (note_time k v s) = vp_snapshots s"
  "vp_snapshots (video_call vc s) = vp_snapshots s" "vp_snapshots (add_reply key r s) = vp_snapshots s"
  "vp_snapshots (camera_metrics ti s) = vp_snapshots s" "vp_snapshots (new_epoch s) = vp_snapshots s"
  by (simp_all add: count_event_def note_time_def video_call_def add_reply_def camera_metrics_def new_epoch_def
      clear_detections_def Let_def)

lemma snapshots_note_times [simp]: "vp_snapshots (note_times xs s) = vp_snapshots s"
  by (induction xs s rule: note_times.induct) simp_all

lemma capture_step_snapshots: "vp_snapshots (fst (capture_step env s t)) = vp_snapshots s"
  by (simp add: capture_step_def open_step_def fill_step_def frame_done_def Let_def case_prod_unfold
      split: cap_pc.split option.split)

lemma infer_step_snapshots: "vp_snapshots (fst (infer_step env s t)) = vp_snapshots s"
  by (cases "it_pc t") (simp_all add: infer_step_def serve_defs publish_defs Let_def case_prod_unfold
      split: option.split sum.split)

lemma pop_jobs: "pop q = (popped, q') \<Longrightarrow> bq_q q = (case popped of None \<Rightarrow> [] | Some x \<Rightarrow> [x]) @ bq_q q'"
  by (cases "bq_q q") (auto simp: pop_eq)

lemma snap_step_jobs:
  assumes "snap_step lib env s pc = (s1, pc1, fns)"
  shows "map fst fns @ snap_jobs pc1 @ bq_q (vp_snapshots s1) = snap_jobs pc @ bq_q (vp_snapshots s)"
proof (cases pc)
  case SnapTop
  then show ?thesis using assms by (auto dest: pop_jobs split: prod.splits option.splits if_splits)
next
  case (SnapJob job)
  then show ?thesis using assms
    by (auto simp: photo_reply_def Let_def split: option.splits if_splits prod.splits)
next
  case (SnapCheck job encoded)
  then show ?thesis using assms by (auto simp: preview_reply_def Let_def split: if_splits)
qed (use assms in auto)

lemma command_jobs:
  assumes "command lib env connection line s = (s1, acts)"
  shows "count_list acts (Retain c) = count_list acts (Release c) + jobs_of c (bq_q (vp_snapshots s1)) -
    jobs_of c (bq_q (vp_snapshots s)) \<and> jobs_of c (bq_q (vp_snapshots s)) \<le> jobs_of c (bq_q (vp_snapshots s1))"
proof (cases rule: command_cases [of lib env connection line s])
  case (executed cmd request cid key r)
  then show ?thesis using assms by (auto simp: cmd_ok_def split: if_splits)
qed (use assms in auto)

lemma vs_step_retains: "retains_ok c st \<Longrightarrow> retains_ok c (vs_step lib ch st)"
proof (induction lib ch st rule: vs_step.induct)
  case (1 lib env st)
  then show ?case using capture_step_snapshots [of env "vs_vision st" "vs_capture st"]
    by (auto simp: retains_ok_def open_jobs_def split: prod.splits)
next
  case (2 lib env st)
  then show ?case using infer_step_snapshots [of env "vs_vision st" "vs_infer st"]
    by (auto simp: retains_ok_def open_jobs_def split: prod.splits)
next
  case (3 lib env st)
  obtain s pc fns where step: "snap_step lib env (vs_vision st) (vs_snap st) = (s, pc, fns)" by (metis surj_pair)
  from arg_cong [OF snap_step_jobs [OF step], of "jobs_of c"] 3 show ?case
    by (simp add: step retains_ok_def open_jobs_def)
next
  case (4 lib env connection line st)
  obtain s acts where step: "command lib env connection line (vs_vision st) = (s, acts)" by fastforce
  from command_jobs [OF step, of c] 4 show ?case by (simp add: step retains_ok_def open_jobs_def)
qed (auto simp: retains_ok_def open_jobs_def run_functor_def publish_metrics_def q_close_def split: list.splits prod.splits)

text \<open>What is left to do for the snapshot thread, in steps.\<close>

fun snap_rank :: "snap_pc \<Rightarrow> nat" where
  "snap_rank (SnapJob job) = 3"
| "snap_rank (SnapCheck job encoded) = 2"
| "snap_rank (SnapReply job response) = 1"
| "snap_rank _ = 0"

definition snap_work :: "vsys \<Rightarrow> nat" where
  "snap_work st = snap_rank (vs_snap st) + 4 * length (bq_q (vp_snapshots (vs_vision st)))"

definition snap_ok :: "vsys \<Rightarrow> bool" where
  "snap_ok st \<longleftrightarrow> (vs_snap st = SnapExit \<longrightarrow>
     bq_closed (vp_snapshots (vs_vision st)) \<and> bq_q (vp_snapshots (vs_vision st)) = [])"

lemma snap_step_open: "snap_ok st \<Longrightarrow> snap_ok (vs_step lib (Snapshots env) st)"
  by (cases "vs_snap st")
    (auto simp: snap_ok_def photo_reply_def preview_reply_def q_closed_def pop_def Let_def split: prod.splits option.splits list.splits if_splits)

lemma snap_step_work: "snap_ok st \<Longrightarrow> snap_work st \<noteq> 0 \<Longrightarrow> snap_work (vs_step lib (Snapshots env) st) < snap_work st"
  by (cases "vs_snap st")
    (auto simp: snap_ok_def snap_work_def photo_reply_def preview_reply_def q_closed_def pop_def Let_def
      split: prod.splits option.splits list.splits if_splits)

lemma snap_step_idle: "snap_work st = 0 \<Longrightarrow> snap_work (vs_step lib (Snapshots env) st) = 0"
  by (cases "vs_snap st") (auto simp: snap_work_def pop_def split: prod.splits option.splits)

lemma snap_run_work: "snap_ok st \<Longrightarrow> snap_work st \<le> length envs \<Longrightarrow> snap_work (vs_run lib (map Snapshots envs) st) = 0"
proof (induction envs arbitrary: st)
  case (Cons env envs)
  let ?st1 = "vs_step lib (Snapshots env) st"
  have "snap_work ?st1 \<le> length envs"
    using Cons.prems snap_step_work [of st lib env] snap_step_idle [of st lib env] by (cases "snap_work st = 0") simp_all
  then show ?case using Cons.IH [of ?st1] snap_step_open [OF Cons.prems(1)] by simp
qed simp

lemma run_functors:
  "length (vs_pending st) \<le> n \<Longrightarrow> vs_pending (vs_run lib (replicate n RunFunctor) st) = [] \<and>
     snap_work (vs_run lib (replicate n RunFunctor) st) = snap_work st"
proof (induction n arbitrary: st)
  case (Suc n)
  have "snap_work (vs_step lib RunFunctor st) = snap_work st"
    by (auto simp: snap_work_def run_functor_def split: list.splits prod.splits)
  moreover have "length (vs_pending (vs_step lib RunFunctor st)) \<le> n"
    using Suc.prems by (auto split: list.splits prod.splits)
  ultimately show ?case using Suc.IH by simp
qed simp

lemma snap_work_zero: "snap_work st = 0 \<Longrightarrow> vs_pending st = [] \<Longrightarrow> open_jobs st = []"
  by (cases "vs_snap st") (simp_all add: snap_work_def open_jobs_def)

lemma vs_step_open_jobs: "ch = RunFunctor \<or> ch \<in> range Snapshots \<Longrightarrow> length (open_jobs (vs_step lib ch st)) \<le> length (open_jobs st)"
proof (elim disjE imageE)
  fix env assume "ch = Snapshots env"
  moreover obtain s pc fns where step: "snap_step lib env (vs_vision st) (vs_snap st) = (s, pc, fns)" by (metis surj_pair)
  ultimately show ?thesis using arg_cong [OF snap_step_jobs [OF step], of length] by (simp add: step open_jobs_def)
qed (auto simp: open_jobs_def run_functor_def split: list.splits prod.splits)

lemma snap_run_open_jobs: "length (open_jobs (vs_run lib (map Snapshots envs) st)) \<le> length (open_jobs st)"
proof (induction envs arbitrary: st)
  case (Cons env envs)
  show ?case using Cons.IH [of "vs_step lib (Snapshots env) st"] vs_step_open_jobs [of "Snapshots env" lib st]
    by simp
qed simp

lemma drained:
  assumes "snap_ok st" "4 * length (open_jobs st) \<le> length envs" "length (open_jobs st) \<le> n"
  shows "open_jobs (vs_run lib (map Snapshots envs @ replicate n RunFunctor) st) = []"
proof -
  let ?st1 = "vs_run lib (map Snapshots envs) st"
  have "snap_rank (vs_snap st) \<le> 4 * length (snap_jobs (vs_snap st))" by (cases "vs_snap st") simp_all
  then have "snap_work st \<le> length envs" using assms(2) by (simp add: snap_work_def open_jobs_def)
  with assms(1) have "snap_work ?st1 = 0" by (rule snap_run_work)
  moreover have "length (vs_pending ?st1) \<le> n"
    using snap_run_open_jobs [of lib envs st] assms(3) by (simp add: open_jobs_def)
  ultimately show ?thesis using run_functors [of ?st1 n lib] by (simp add: vision_machine.machine_append snap_work_zero)
qed

text \<open>The snapshot thread ends only with an empty queue that nothing enters any more.\<close>

lemma command_closed:
  assumes "bq_closed (vp_snapshots s)" "bq_q (vp_snapshots s) = []"
  shows "bq_closed (vp_snapshots (fst (command lib env connection line s))) \<and>
    bq_q (vp_snapshots (fst (command lib env connection line s))) = []"
proof (cases rule: command_cases [of lib env connection line s])
  case (executed cmd request cid key r)
  with assms show ?thesis by (simp add: cmd_ok_def)
qed (use assms in simp_all)

lemma vs_step_snap_ok: "snap_ok st \<Longrightarrow> snap_ok (vs_step lib ch st)"
proof (induction lib ch st rule: vs_step.induct)
  case (1 lib env st)
  then show ?case using capture_step_snapshots [of env "vs_vision st" "vs_capture st"]
    by (auto simp: snap_ok_def split: prod.splits)
next
  case (2 lib env st)
  then show ?case using infer_step_snapshots [of env "vs_vision st" "vs_infer st"]
    by (auto simp: snap_ok_def split: prod.splits)
next
  case (3 lib env st)
  then show ?case by (rule snap_step_open)
next
  case (4 lib env connection line st)
  then show ?case using command_closed [of "vs_vision st" lib env connection line]
    by (auto simp: snap_ok_def split: prod.splits)
qed (auto simp: snap_ok_def run_functor_def publish_metrics_def q_close_def split: list.splits prod.splits)

lemma vs_run_retains: "retains_ok c st \<and> snap_ok st \<Longrightarrow> retains_ok c (vs_run lib cs st) \<and> snap_ok (vs_run lib cs st)"
  by (erule vision_machine.machine_invariant) (simp add: vs_step_retains vs_step_snap_ok)

lemma vs_start_retains: "VisionPipeline cf t = Inr s0 \<Longrightarrow> retains_ok c (vs_start now file s0) \<and> snap_ok (vs_start now file s0)"
  by (auto simp: VisionPipeline_def bind_result_Inr retains_ok_def snap_ok_def open_jobs_def vs_start_def capture_begin_def capture_failed_def
      BoundedQueue_def Let_def split: option.splits if_splits)


text \<open>A pipeline with a frame; a client asks for a photo, and the snapshot thread takes the job.\<close>

definition demo_photo :: "vchoice list" where
  "demo_photo = demo_capture 5 @ [Request (demo_answers 9) 3 ''shot'']"

definition demo_answer :: snap_env where
  "demo_answer = \<lparr>se_exception = None, se_jpeg = None, se_written = True, se_wall = 17, se_now = 11\<rparr>"


section \<open>Awkward replies\<close>


text \<open>A printer that prints what it has to, and nothing nicely.\<close>

fun demo_dump :: "json \<Rightarrow> string" where
  "demo_dump (JString t) = t"
| "demo_dump (JObject kvs) = concat (map (\<lambda>(k, v). demo_dump v) kvs)"
| "demo_dump _ = []"

definition demo_job :: snapshot_job where
  "demo_job = \<lparr>sn_frame = \<lparr>fr_bytes = [], fr_sequence = 1, fr_generation = 0, fr_captured = 5\<rparr>, sn_connection = 3,
     sn_id = JNull, sn_cache_key = [], sn_preview = True, sn_detections = JString (replicate 60001 CHR ''x'')\<rparr>"


end
