(* ===== verification/HalfClosed.thy ===== *)
theory HalfClosed
  imports VisionReplies
begin

text \<open>
  The reply to a queued job, from \<open>app/VisionPipeline.cpp\<close> through \<open>core/reactor/TcpServer.h\<close> to the client: a
  client that has shut down its side of the connection after asking for a photo still gets the result.
\<close>

section \<open>A reply and a release\<close>

text \<open>
  \<open>owed fd c data evs s1\<close>: the client \<open>c\<close> had to be sent \<open>data\<close>, and in the events \<open>evs\<close> up to \<open>s1\<close> no byte was lost: the client is there
  with what is left to send, or it was closed after everything was sent, it was half closed, and no job was left.
\<close>

definition owed :: "int \<Rightarrow> client \<Rightarrow> string \<Rightarrow> sv_event list \<Rightarrow> server \<Rightarrow> bool" where
  "owed fd c data evs s1 \<longleftrightarrow>
     (case find_client fd s1 of
        Some c1 \<Rightarrow> written (cl_id c) evs @ cl_out c1 = data \<and> cl_pending c1 = cl_pending c \<and> cl_eof c1 = cl_eof c \<and>
          cl_id c1 = cl_id c \<and> sv_ids s1 (cl_id c) = Some fd
      | None \<Rightarrow> written (cl_id c) evs = data \<and> cl_eof c \<and> cl_pending c = 0)"

lemma written_simps [simp]:
  "written i [] = []" "written i (sv_event.Wrote j d # evs) = (if j = i then d else []) @ written i evs"
  "written i (sv_event.Queued j d # evs) = written i evs" "written i (sv_event.Closed j # evs) = written i evs"
  "written i (es @ fs) = written i es @ written i fs"
  by (simp_all add: written_def)

lemma flush_end_owed:
  assumes "find_client fd s = Some c" and "sv_ids s (cl_id c) = Some fd"
  shows "\<exists>evs. sv_log (flush_end fd c s) = sv_log s @ evs \<and> queued i evs = [] \<and> owed fd c (cl_out c) evs (flush_end fd c s)"
proof (cases "cl_eof c \<and> \<not> cl_reading c \<and> cl_pending c = 0 \<and> cl_out c = []")
  case True
  then have "flush_end fd c s = closeClient fd s" by (simp add: flush_end_def)
  moreover have "sv_log (closeClient fd s) = sv_log s @ [sv_event.Closed (cl_id c)]" using assms by (simp add: closeClient_def sv_emit_def)
  ultimately show ?thesis using True assms
    by (intro exI [of _ "[sv_event.Closed (cl_id c)]"]) (simp add: owed_def find_close queued_def)
next
  case False
  then have "flush_end fd c s = s\<lparr>sv_loop := snd (updateFd fd (flush_mask c) (sv_loop s))\<rparr>"
    unfolding flush_end_def by (rule if_not_P)
  then show ?thesis using assms by (intro exI [of _ "[]"]) (simp add: owed_def queued_def)
qed

lemma flush_owed:
  assumes ok: "net_ok net" and alive: "\<And>n len. net_send net n len \<noteq> SendErr"
    and c: "find_client fd s = Some c" and cid: "sv_ids s (cl_id c) = Some fd"
  shows "\<exists>evs. sv_log (flush net fd s) = sv_log s @ evs \<and> queued i evs = [] \<and> owed fd c (cl_out c) evs (flush net fd s)"
proof (cases "cl_out c = []")
  case True
  with flush_end_owed [OF c cid] c show ?thesis by (simp add: flush_def)
next
  case False
  let ?s1 = "s\<lparr>sv_calls := sv_calls s + 1\<rparr>"
  show ?thesis
  proof (cases "net_send net (sv_calls s) (length (cl_out c))")
    case (Sent n)
    define c1 where "c1 = c\<lparr>cl_out := drop n (cl_out c)\<rparr>"
    define s2 where "s2 = sv_emit (sv_event.Wrote (cl_id c) (take n (cl_out c))) (set_client fd c1 ?s1)"
    have "find_client fd s2 = Some c1" "sv_ids s2 (cl_id c1) = Some fd"
      using cid by (simp_all add: s2_def c1_def sv_emit_def set_client_def update_conv')
    from flush_end_owed [OF this, of i] obtain evs where
      evs: "sv_log (flush_end fd c1 s2) = sv_log s2 @ evs" "queued i evs = []" "owed fd c1 (cl_out c1) evs (flush_end fd c1 s2)" by blast
    have "flush net fd s = flush_end fd c1 s2" using c False Sent by (simp add: flush_def Let_def c1_def s2_def)
    moreover have "sv_log s2 = sv_log s @ [sv_event.Wrote (cl_id c) (take n (cl_out c))]" by (simp add: s2_def sv_emit_def set_client_def)
    moreover have "owed fd c (cl_out c) (sv_event.Wrote (cl_id c) (take n (cl_out c)) # evs) (flush_end fd c1 s2)"
      using evs(3) by (auto simp: owed_def c1_def split: option.splits)
    ultimately show ?thesis using evs(1,2)
      by (intro exI [of _ "sv_event.Wrote (cl_id c) (take n (cl_out c)) # evs"]) (simp add: queued_def)
  next
    case SendRetry
    have "find_client fd ?s1 = Some c" "sv_ids ?s1 (cl_id c) = Some fd" using c cid by simp_all
    from flush_end_owed [OF this, of i] show ?thesis using c False SendRetry by (simp add: flush_def Let_def)
  qed (use alive in simp)
qed

section \<open>The functor of a job\<close>

lemma queued_append: "queued i (xs @ ys) = queued i xs @ queued i ys"
  by (simp add: queued_def)

lemma send_owed:
  assumes ok: "net_ok net" and alive: "\<And>n len. net_send net n len \<noteq> SendErr"
    and c: "find_client fd s = Some c" and cid: "sv_ids s (cl_id c) = Some fd"
    and fits: "length (cl_out c) + length data \<le> 65536"
  shows "\<exists>evs. sv_log (run_sv_act net (Respond (cl_id c) data) s) = sv_log s @ evs \<and> queued (cl_id c) evs = data \<and>
           owed fd c (cl_out c @ data) evs (run_sv_act net (Respond (cl_id c) data) s)"
proof -
  define c1 where "c1 = c\<lparr>cl_out := cl_out c @ data\<rparr>"
  define s1 where "s1 = sv_emit (sv_event.Queued (cl_id c) data) (set_client fd c1 s)"
  have "find_client fd s1 = Some c1" "sv_ids s1 (cl_id c1) = Some fd"
    using cid by (simp_all add: s1_def c1_def sv_emit_def set_client_def update_conv')
  from flush_owed [OF ok alive this, of "cl_id c"] obtain evs where
    evs: "sv_log (flush net fd s1) = sv_log s1 @ evs" "queued (cl_id c) evs = []" "owed fd c1 (cl_out c1) evs (flush net fd s1)" by blast
  have "run_sv_act net (Respond (cl_id c) data) s = flush net fd s1"
    using c cid fits by (simp add: sendResponse_def Let_def s1_def c1_def)
  moreover have "sv_log s1 = sv_log s @ [sv_event.Queued (cl_id c) data]" by (simp add: s1_def sv_emit_def set_client_def)
  moreover have "owed fd c (cl_out c @ data) (sv_event.Queued (cl_id c) data # evs) (flush net fd s1)"
    using evs(3) by (auto simp: owed_def c1_def split: option.splits)
  ultimately show ?thesis using evs(1,2)
    by (intro exI [of _ "sv_event.Queued (cl_id c) data # evs"]) (simp add: queued_def)
qed

lemma release_owed:
  assumes ok: "net_ok net" and alive: "\<And>n len. net_send net n len \<noteq> SendErr"
    and c: "find_client fd s = Some c" and cid: "sv_ids s (cl_id c) = Some fd" and pending: "cl_pending c \<noteq> 0"
  shows "\<exists>evs. sv_log (run_sv_act net (Release (cl_id c)) s) = sv_log s @ evs \<and> queued (cl_id c) evs = [] \<and>
           owed fd (c\<lparr>cl_pending := cl_pending c - 1\<rparr>) (cl_out c) evs (run_sv_act net (Release (cl_id c)) s)"
proof -
  define c1 where "c1 = c\<lparr>cl_pending := cl_pending c - 1\<rparr>"
  have "find_client fd (set_client fd c1 s) = Some c1" "sv_ids (set_client fd c1 s) (cl_id c1) = Some fd"
    using cid by (simp_all add: c1_def set_client_def update_conv')
  from flush_owed [OF ok alive this, of "cl_id c"] show ?thesis
    using c cid pending by (simp add: release_def c1_def set_client_def)
qed


section \<open>An example\<close>

text \<open>A client that is half closed and waits for its last job, and the photo job of that client.\<close>

definition demo_waiting :: client where
  "demo_waiting = \<lparr>cl_id = 1, cl_in = [], cl_out = [], cl_eof = True, cl_reading = False, cl_pending = 1\<rparr>"

definition demo_server :: server where
  "demo_server = (TcpServer demo_loop {3, 4, 5, 20})\<lparr>sv_clients := [(20, demo_waiting)], sv_ids := [1 \<mapsto> 20], sv_next := 2\<rparr>"

definition demo_done :: snapshot_job where
  "demo_done = \<lparr>sn_frame = \<lparr>fr_bytes = [], fr_sequence = 1, fr_generation = 0, fr_captured = 5\<rparr>, sn_connection = 1,
     sn_id = JNull, sn_cache_key = [], sn_preview = False, sn_detections = JNull\<rparr>"


end
