(* ===== verification/VideoService.thy ===== *)
theory VideoService
  imports Config Metrics EventRecorder
begin

text \<open>
  The video service of \<open>media/VideoService.cpp\<close>: frames go through a queue to the encoder, the encoder's
  packets go to the event recorder and to the clients of the RTSP server. The GStreamer calls that take or
  give back a reference, push a buffer or change a state are logged; what GStreamer answers is an argument.
  The threads (encoder input, GStreamer's streaming and RTSP threads, the callers of \<open>submit\<close> and \<open>stop\<close>)
  interleave; a step runs from one shared access to the next. The metrics, which the program shares, are a
  copy of the service's own here, since nothing of the service depends on what others count.
\<close>

section \<open>State\<close>

text \<open>The objects the service holds references to. Media and their inputs are numbered.\<close>

datatype gobj = Pipeline | Input | Sink | Server | MainLoop | Context | Mounts | Caps | Bus | RtspInput nat | Media nat

datatype gst_call =
    Acquired gobj
  | Unref gobj
  | EncoderPush u64 nat
  | RtspPush nat u64
  | EndOfStream
  | SetPlaying
  | SetNull
  | DestroySource nat

text \<open>The encoder's output: a buffer with its flags, and what became of it at the RTSP input.\<close>

record sample =
  sm_bytes :: "byte list"
  sm_pts :: u64
  sm_delta :: bool

datatype outcome = Skipped | Pushed u64 bool

text \<open>Where the thread of \<open>run\<close> and the caller of \<open>stop\<close> are.\<close>

datatype run_pc = RunNone | RunBegin | RunBus | RunPop | RunHealthy frame | RunLevel frame | RunPush frame | RunExit

datatype stop_pc = StopNot | StopBegun | StopDown | StopMediaGone | StopDone

text \<open>\<open>vd_session\<close> (what became of every packet since the current media was configured) is ghost state.\<close>

record video =
  vd_config :: config
  vd_origin :: nat
  vd_metrics :: metrics
  vd_frames :: "frame bqueue"
  vd_recorder :: rec_shared
  vd_pipeline :: bool
  vd_input :: bool
  vd_sink :: bool
  vd_server :: bool
  vd_loop :: bool
  vd_context :: bool
  vd_source :: nat
  vd_rtsp_input :: "nat option"
  vd_media :: "nat option"
  vd_waiting_key :: bool
  vd_rtsp_base :: u64
  vd_running :: bool
  vd_healthy :: bool
  vd_error :: string
  vd_rtsp_thread :: bool
  vd_quit :: bool
  vd_run :: run_pc
  vd_stop :: stop_pc
  vd_calls :: "gst_call list"
  vd_session :: "(sample \<times> outcome) list"

definition clock_time_none :: u64 where
  "clock_time_none = - 1"

definition recorder_shared :: rec_shared where
  "recorder_shared =
     \<lparr>rs_queue = \<lparr>bq_capacity = 120, bq_dropped = 0, bq_high = 0, bq_closed = False, bq_q = []\<rparr>, rs_gap = False,
      rs_trigger_until = 0, rs_reset_pts = 0, rs_drops = 0\<rparr>"

definition VideoService :: "config \<Rightarrow> metrics \<Rightarrow> nat \<Rightarrow> video" where
  "VideoService c m origin =
     \<lparr>vd_config = c, vd_origin = origin, vd_metrics = m,
      vd_frames = \<lparr>bq_capacity = 2, bq_dropped = 0, bq_high = 0, bq_closed = False, bq_q = []\<rparr>,
      vd_recorder = recorder_shared, vd_pipeline = False, vd_input = False, vd_sink = False, vd_server = False,
      vd_loop = False, vd_context = False, vd_source = 0, vd_rtsp_input = None, vd_media = None,
      vd_waiting_key = True, vd_rtsp_base = 0, vd_running = False, vd_healthy = False, vd_error = [],
      vd_rtsp_thread = False, vd_quit = False, vd_run = RunNone, vd_stop = StopNot, vd_calls = [], vd_session = []\<rparr>"

text \<open>The recorder and the storage that the constructor configures.\<close>

definition video_recorder_config :: "config \<Rightarrow> rec_config" where
  "video_recorder_config c =
     rec_config_of (c_output c @ ''/events'') (nat (c_event_pre c)) (nat (c_event_tail c)) 2000 (nat (c_record_max_seconds c))"

definition log_calls :: "gst_call list \<Rightarrow> video \<Rightarrow> video" where
  "log_calls calls s = s\<lparr>vd_calls := vd_calls s @ calls\<rparr>"

definition vd_count :: "string \<Rightarrow> video \<Rightarrow> video" where
  "vd_count key s = s\<lparr>vd_metrics := increment key 1 (vd_metrics s)\<rparr>"

section \<open>Operations\<close>

definition setError :: "string \<Rightarrow> video \<Rightarrow> video" where
  "setError message s = vd_count ''video_errors'' (s\<lparr>vd_error := message, vd_healthy := False\<rparr>)"

text \<open>The answers while the service starts: the parser's error and whether it returned a pipeline, the source id of
  the RTSP server, whether the directory could be made, and whether the pipeline would play.\<close>

record start_env =
  sv_parse_error :: "string option"
  sv_parsed :: bool
  sv_source :: nat
  sv_directories :: "string option"
  sv_playing :: bool

definition encoder_launch :: "config \<Rightarrow> string" where
  "encoder_launch c =
     ''appsrc name=input is-live=true format=time block=false max-bytes='' @ dec (nat (c_width c * c_height c * 4)) @
     '' ! queue max-size-buffers=2 max-size-bytes=0 max-size-time=0 leaky=downstream'' @
     '' ! videoconvert ! video/x-raw,format=NV12'' @
     '' ! mpph264enc bps='' @ dec (nat (c_bitrate c)) @ '' gop='' @ dec (nat (c_fps c)) @
     '' header-mode=each-idr profile=baseline ! h264parse config-interval=-1'' @
     '' ! video/x-h264,stream-format=byte-stream,alignment=au'' @
     '' ! appsink name=encoded emit-signals=true sync=false max-buffers=4 drop=false''"

text \<open>\<open>start\<close>: the parser gets the launch line, an exception leaves what was built so far.\<close>

definition video_start :: "(string \<Rightarrow> start_env) \<Rightarrow> video \<Rightarrow> cxx_error option \<times> video" where
  "video_start answers s =
     (let env = answers (encoder_launch (vd_config s));
          s1 = (if sv_parsed env then log_calls [Acquired Pipeline] (s\<lparr>vd_pipeline := True\<rparr>) else s)
      in case sv_parse_error env of
           Some message \<Rightarrow> (Some (RuntimeError message), s1)
         | None \<Rightarrow>
             if \<not> vd_pipeline s1 then (Some (RuntimeError ''cannot create MPP encoder pipeline''), s1)
             else
               let s2 = log_calls [Acquired Input, Acquired Sink, Acquired Caps, Unref Caps, Acquired Context, Acquired MainLoop,
                                   Acquired Server, Acquired Mounts, Unref Mounts]
                          (s1\<lparr>vd_input := True, vd_sink := True, vd_context := True, vd_loop := True, vd_server := True,
                              vd_source := sv_source env\<rparr>)
               in if vd_source s2 = 0 then (Some (RuntimeError ''cannot bind RTSP port''), s2)
                  else
                    case rec_start (sv_directories env) of
                      Some e \<Rightarrow> (Some e, s2)
                    | None \<Rightarrow>
                        let s3 = log_calls [SetPlaying] s2
                        in if \<not> sv_playing env then (Some (RuntimeError ''MPP encoder refused PLAYING state''), s3)
                           else (None, s3\<lparr>vd_running := True, vd_healthy := True, vd_rtsp_thread := True, vd_run := RunBegin\<rparr>))"

definition drop_input :: "video \<Rightarrow> video" where
  "drop_input s = (case vd_rtsp_input s of None \<Rightarrow> s | Some i \<Rightarrow> log_calls [Unref (RtspInput i)] (s\<lparr>vd_rtsp_input := None\<rparr>))"

definition drop_media :: "video \<Rightarrow> video" where
  "drop_media s = (case vd_media s of None \<Rightarrow> s | Some m \<Rightarrow> log_calls [Unref (Media m)] (s\<lparr>vd_media := None\<rparr>))"

definition configureMedia :: "nat \<Rightarrow> nat option \<Rightarrow> video \<Rightarrow> video" where
  "configureMedia media input s =
     (let s1 = drop_media (drop_input (log_calls (case input of None \<Rightarrow> [] | Some i \<Rightarrow> [Acquired (RtspInput i)]) s))
      in log_calls [Acquired (Media media)]
           (s1\<lparr>vd_rtsp_input := input, vd_media := Some media, vd_waiting_key := True, vd_rtsp_base := clock_time_none,
               vd_session := []\<rparr>))"

definition unprepareMedia :: "video \<Rightarrow> video" where
  "unprepareMedia s = (drop_input s)\<lparr>vd_waiting_key := True\<rparr>"

text \<open>The answers for one packet: whether it could be mapped, the clock, the bytes queued, and the result of the push.\<close>

record packet_env =
  pe_mapped :: bool
  pe_now :: nat
  pe_queued :: nat
  pe_pushed :: bool

definition packet_of :: "sample \<Rightarrow> packet" where
  "packet_of b = \<lparr>pk_bytes = sm_bytes b, pk_pts = unat (sm_pts b), pk_key = \<not> sm_delta b, pk_gap = False\<rparr>"

definition note_session :: "sample \<Rightarrow> outcome \<Rightarrow> video \<Rightarrow> video" where
  "note_session b out s = s\<lparr>vd_session := vd_session s @ [(b, out)]\<rparr>"

text \<open>The part of \<open>onPacket\<close> under the mutex, with an input.\<close>

definition rtsp_packet :: "packet_env \<Rightarrow> sample \<Rightarrow> nat \<Rightarrow> video \<Rightarrow> video" where
  "rtsp_packet env b i s =
     (if 1048576 < pe_queued env
      then note_session b Skipped (vd_count ''rtsp_packets_dropped'' (s\<lparr>vd_waiting_key := True\<rparr>))
      else if vd_waiting_key s \<and> sm_delta b then note_session b Skipped s
      else
        let s1 = (if vd_waiting_key s
                  then s\<lparr>vd_waiting_key := False,
                         vd_rtsp_base := (if vd_rtsp_base s = clock_time_none then sm_pts b else vd_rtsp_base s)\<rparr>
                  else s);
            out = sm_pts b - vd_rtsp_base s1;
            s2 = note_session b (Pushed out (pe_pushed env)) (log_calls [RtspPush i out] s1)
        in if \<not> pe_pushed env then s2\<lparr>vd_waiting_key := True\<rparr> else s2)"

definition packet_metrics :: "packet_env \<Rightarrow> sample \<Rightarrow> video \<Rightarrow> video" where
  "packet_metrics env b s =
     (let elapsed = (of_nat (pe_now env) - of_nat (vd_origin s)) / of_nat ns_per_ms;
          s1 = vd_count ''encoded'' s
      in s1\<lparr>vd_metrics := Metrics.observe ''capture_to_encoded'' (max 0 (elapsed - of_nat (unat (sm_pts b)) / 1000000)) (vd_metrics s1)\<rparr>)"

definition onPacket :: "packet_env \<Rightarrow> sample \<Rightarrow> video \<Rightarrow> video" where
  "onPacket env b s =
     (if \<not> pe_mapped env \<or> sm_pts b = clock_time_none then s
      else
        let s1 = packet_metrics env b s;
            s2 = s1\<lparr>vd_recorder := rec_submit (packet_of b) (vd_recorder s1)\<rparr>
        in case vd_rtsp_input s2 of None \<Rightarrow> s2 | Some i \<Rightarrow> rtsp_packet env b i s2)"

text \<open>\<open>None\<close> is the end of the stream.\<close>

definition sampleCallback :: "packet_env \<Rightarrow> sample option \<Rightarrow> video \<Rightarrow> bool \<times> video" where
  "sampleCallback env b s = (case b of None \<Rightarrow> (False, s) | Some b1 \<Rightarrow> (True, onPacket env b1 s))"

definition vd_trigger :: "nat \<Rightarrow> video \<Rightarrow> video" where
  "vd_trigger t s =
     (if vd_origin s \<le> t
      then s\<lparr>vd_recorder := rec_trigger (cf_tail_ns (video_recorder_config (vd_config s))) (t - vd_origin s) (vd_recorder s)\<rparr>
      else s)"

text \<open>A restart is never earlier than the origin of the service.\<close>

definition vd_reset :: "nat \<Rightarrow> video \<Rightarrow> video" where
  "vd_reset t s = s\<lparr>vd_recorder := rec_reset (t - vd_origin s) (vd_recorder s)\<rparr>"

definition vd_submit :: "frame \<Rightarrow> video \<Rightarrow> video" where
  "vd_submit f s = (if vd_healthy s then s\<lparr>vd_frames := snd (pushLatest (vd_frames s) f)\<rparr> else s)"

section \<open>The thread that feeds the encoder\<close>

text \<open>The answers: a message of the bus (an error with its text, or the end of the stream), the bytes queued, the push.\<close>

datatype bus_message = BusError "string option" | BusEos

record run_env =
  ne_message :: "bus_message option"
  ne_queued :: nat
  ne_pushed :: bool

fun bus_error :: "bus_message \<Rightarrow> string" where
  "bus_error (BusError None) = ''GStreamer error''"
| "bus_error (BusError (Some message)) = message"
| "bus_error BusEos = ''unexpected encoder EOS''"

definition run_step :: "run_env \<Rightarrow> video \<Rightarrow> video" where
  "run_step env s =
     (case vd_run s of
        RunBegin \<Rightarrow> log_calls [Acquired Bus] (s\<lparr>vd_run := RunBus\<rparr>)
      | RunBus \<Rightarrow>
          if \<not> vd_running s then log_calls [Unref Bus] (s\<lparr>vd_run := RunExit\<rparr>)
          else (case ne_message env of None \<Rightarrow> s | Some m \<Rightarrow> setError (bus_error m) s)\<lparr>vd_run := RunPop\<rparr>
      | RunPop \<Rightarrow>
          let (popped, q) = pop (vd_frames s)
          in (case popped of
                None \<Rightarrow> if q_closed (vd_frames s) then s\<lparr>vd_run := RunBus\<rparr> else s
              | Some f \<Rightarrow> s\<lparr>vd_frames := q, vd_run := RunHealthy f\<rparr>)
      | RunHealthy f \<Rightarrow> if \<not> vd_healthy s then s\<lparr>vd_run := RunBus\<rparr> else s\<lparr>vd_run := RunLevel f\<rparr>
      | RunLevel f \<Rightarrow>
          if length (fr_bytes f) * 2 \<le> ne_queued env then vd_count ''encoder_input_dropped'' (s\<lparr>vd_run := RunBus\<rparr>)
          else s\<lparr>vd_run := RunPush f\<rparr>
      | RunPush f \<Rightarrow>
          let s1 = log_calls [EncoderPush (word_of_int (int (fr_captured f) - int (vd_origin s))) (1000000000 div nat (c_fps (vd_config s)))]
                     (s\<lparr>vd_run := RunBus\<rparr>)
          in if \<not> ne_pushed env then setError ''encoder appsrc push failed'' s1 else s1
      | _ \<Rightarrow> s)"

section \<open>Stopping\<close>

definition release_when :: "bool \<Rightarrow> gobj \<Rightarrow> gst_call list" where
  "release_when present obj = (if present then [Unref obj] else [])"

text \<open>The steps of \<open>stop\<close>: up to the join of the encoder's thread, the pipeline, the media once the RTSP thread has
  ended, and the rest. A join waits.\<close>

definition stop_step :: "video \<Rightarrow> video" where
  "stop_step s =
     (case vd_stop s of
        StopBegun \<Rightarrow>
          if vd_run s \<noteq> RunNone \<and> vd_run s \<noteq> RunExit then s
          else
            let s1 = (if vd_pipeline s
                      then log_calls ((if vd_input s then [EndOfStream, Acquired Bus, Unref Bus] else []) @ [SetNull]) s else s)
            in s1\<lparr>vd_recorder := rec_stop (vd_recorder s1),
                   vd_quit := (vd_quit s1 \<or> vd_context s1 \<and> vd_loop s1), vd_stop := StopDown\<rparr>
      | StopDown \<Rightarrow> if vd_rtsp_thread s then s else (drop_input (drop_media s))\<lparr>vd_stop := StopMediaGone\<rparr>
      | StopMediaGone \<Rightarrow>
          log_calls ((if vd_source s \<noteq> 0 \<and> vd_context s then [DestroySource (vd_source s)] else []) @
              release_when (vd_server s) Server @ release_when (vd_loop s) MainLoop @ release_when (vd_context s) Context @
              release_when (vd_input s) Input @ release_when (vd_sink s) Sink @ release_when (vd_pipeline s) Pipeline)
            (s\<lparr>vd_source := (if vd_context s then 0 else vd_source s), vd_server := False, vd_loop := False,
               vd_context := False, vd_input := False, vd_sink := False, vd_pipeline := False, vd_stop := StopDone\<rparr>)
      | _ \<Rightarrow> s\<lparr>vd_healthy := False, vd_running := False, vd_frames := q_close True (vd_frames s), vd_stop := StopBegun\<rparr>)"

section \<open>All threads\<close>

text \<open>
  The callbacks of media run in the RTSP thread, so none of them configures media once that thread has
  ended; a media that is disconnected no longer reports. The RTSP thread ends when its loop was told to quit.
\<close>

datatype video_op =
    Packet packet_env "sample option"
  | Configure nat "nat option"
  | Unprepare
  | RtspEnd
  | RunNext run_env
  | StopNext
  | Submit frame
  | Trigger nat
  | ResetRecording nat

fun video_step :: "video_op \<Rightarrow> video \<Rightarrow> video" where
  "video_step (Packet env b) s = snd (sampleCallback env b s)"
| "video_step (Configure media input) s = (if vd_rtsp_thread s then configureMedia media input s else s)"
| "video_step Unprepare s = (if vd_media s \<noteq> None then unprepareMedia s else s)"
| "video_step RtspEnd s = (if vd_quit s then s\<lparr>vd_rtsp_thread := False\<rparr> else s)"
| "video_step (RunNext env) s = run_step env s"
| "video_step StopNext s = stop_step s"
| "video_step (Submit f) s = vd_submit f s"
| "video_step (Trigger t) s = vd_trigger t s"
| "video_step (ResetRecording t) s = vd_reset t s"

fun video_run :: "video_op list \<Rightarrow> video \<Rightarrow> video" where
  "video_run [] s = s"
| "video_run (x # xs) s = video_run xs (video_step x s)"

interpretation video_machine: step_machine video_step video_run
  by unfold_locales simp_all

section \<open>References\<close>

text \<open>How many references to an object the service holds.\<close>

fun held :: "video \<Rightarrow> gobj \<Rightarrow> nat" where
  "held s Pipeline = of_bool (vd_pipeline s)"
| "held s Input = of_bool (vd_input s)"
| "held s Sink = of_bool (vd_sink s)"
| "held s Server = of_bool (vd_server s)"
| "held s MainLoop = of_bool (vd_loop s)"
| "held s Context = of_bool (vd_context s)"
| "held s Mounts = 0"
| "held s Caps = 0"
| "held s Bus = of_bool (vd_run s \<noteq> RunNone \<and> vd_run s \<noteq> RunBegin \<and> vd_run s \<noteq> RunExit)"
| "held s (RtspInput i) = of_bool (vd_rtsp_input s = Some i)"
| "held s (Media m) = of_bool (vd_media s = Some m)"

definition refs_ok :: "gobj \<Rightarrow> video \<Rightarrow> bool" where
  "refs_ok obj s \<longleftrightarrow> count_list (vd_calls s) (Acquired obj) = count_list (vd_calls s) (Unref obj) + held s obj"

text \<open>What the phases of \<open>stop\<close> have achieved.\<close>

definition stop_ok :: "video \<Rightarrow> bool" where
  "stop_ok s \<longleftrightarrow>
     (vd_stop s \<in> {StopDown, StopMediaGone, StopDone} \<longrightarrow> vd_run s = RunNone \<or> vd_run s = RunExit) \<and>
     (vd_stop s \<in> {StopMediaGone, StopDone} \<longrightarrow> \<not> vd_rtsp_thread s \<and> vd_rtsp_input s = None \<and> vd_media s = None) \<and>
     (vd_stop s = StopDone \<longrightarrow> \<not> vd_pipeline s \<and> \<not> vd_input s \<and> \<not> vd_sink s \<and> \<not> vd_server s \<and> \<not> vd_loop s \<and> \<not> vd_context s)"

lemmas video_defs = log_calls_def vd_count_def setError_def note_session_def release_when_def Let_def

text \<open>What the operations leave alone.\<close>

lemma log_calls_frame [simp]:
  "vd_run (log_calls cs s) = vd_run s" "vd_stop (log_calls cs s) = vd_stop s" "vd_media (log_calls cs s) = vd_media s"
  "vd_rtsp_input (log_calls cs s) = vd_rtsp_input s" "vd_rtsp_thread (log_calls cs s) = vd_rtsp_thread s"
  "vd_session (log_calls cs s) = vd_session s" "vd_rtsp_base (log_calls cs s) = vd_rtsp_base s"
  "vd_waiting_key (log_calls cs s) = vd_waiting_key s" "vd_healthy (log_calls cs s) = vd_healthy s"
  "vd_pipeline (log_calls cs s) = vd_pipeline s" "vd_input (log_calls cs s) = vd_input s" "vd_sink (log_calls cs s) = vd_sink s"
  "vd_server (log_calls cs s) = vd_server s" "vd_loop (log_calls cs s) = vd_loop s" "vd_context (log_calls cs s) = vd_context s"
  by (simp_all add: log_calls_def)

lemma video_frame [simp]:
  "vd_calls (vd_count k s) = vd_calls s" "held (vd_count k s) obj = held s obj" "stop_ok (vd_count k s) = stop_ok s"
  "vd_calls (note_session b r s) = vd_calls s" "held (note_session b r s) obj = held s obj"
  "stop_ok (note_session b r s) = stop_ok s"
  "vd_calls (log_calls cs s) = vd_calls s @ cs" "held (log_calls cs s) obj = held s obj" "stop_ok (log_calls cs s) = stop_ok s"
  "vd_calls (packet_metrics pe b s) = vd_calls s" "held (packet_metrics pe b s) obj = held s obj"
  "stop_ok (packet_metrics pe b s) = stop_ok s"
  by (cases obj; simp add: video_defs packet_metrics_def stop_ok_def)+

lemma setError_frame [simp]:
  "vd_calls (setError m s) = vd_calls s" "held (setError m s) obj = held s obj" "stop_ok (setError m s) = stop_ok s"
  by (cases obj; simp add: video_defs stop_ok_def)+

lemma held_update [simp]:
  "held (s\<lparr>vd_metrics := a\<rparr>) obj = held s obj" "held (s\<lparr>vd_frames := b\<rparr>) obj = held s obj"
  "held (s\<lparr>vd_recorder := c\<rparr>) obj = held s obj" "held (s\<lparr>vd_waiting_key := d\<rparr>) obj = held s obj"
  "held (s\<lparr>vd_rtsp_base := e\<rparr>) obj = held s obj" "held (s\<lparr>vd_running := d\<rparr>) obj = held s obj"
  "held (s\<lparr>vd_healthy := d\<rparr>) obj = held s obj" "held (s\<lparr>vd_quit := d\<rparr>) obj = held s obj"
  "held (s\<lparr>vd_stop := p\<rparr>) obj = held s obj" "held (s\<lparr>vd_rtsp_thread := d\<rparr>) obj = held s obj"
  "held (s\<lparr>vd_session := u\<rparr>) obj = held s obj" "held (s\<lparr>vd_source := n\<rparr>) obj = held s obj"
  "held (s\<lparr>vd_calls := k\<rparr>) obj = held s obj"
  by (cases obj; simp)+

lemma held_media [simp]:
  "held (s\<lparr>vd_rtsp_input := i\<rparr>) obj = (case obj of RtspInput j \<Rightarrow> of_bool (i = Some j) | _ \<Rightarrow> held s obj)"
  "held (s\<lparr>vd_media := m\<rparr>) obj = (case obj of Media j \<Rightarrow> of_bool (m = Some j) | _ \<Rightarrow> held s obj)"
  "held (s\<lparr>vd_run := r\<rparr>) obj = (if obj = Bus then of_bool (r \<noteq> RunNone \<and> r \<noteq> RunBegin \<and> r \<noteq> RunExit) else held s obj)"
  by (cases obj; simp)+

lemma drop_refs:
  "refs_ok obj s \<Longrightarrow> refs_ok obj (drop_input s)" "refs_ok obj s \<Longrightarrow> refs_ok obj (drop_media s)"
  by (auto simp: refs_ok_def drop_input_def drop_media_def split: option.splits gobj.splits)

lemma drop_frame [simp]:
  "vd_rtsp_input (drop_input s) = None" "vd_media (drop_media s) = None"
  "vd_media (drop_input s) = vd_media s" "vd_rtsp_input (drop_media s) = vd_rtsp_input s"
  "vd_stop (drop_input s) = vd_stop s" "vd_stop (drop_media s) = vd_stop s"
  "vd_run (drop_input s) = vd_run s" "vd_run (drop_media s) = vd_run s"
  "vd_rtsp_thread (drop_input s) = vd_rtsp_thread s" "vd_rtsp_thread (drop_media s) = vd_rtsp_thread s"
  "vd_session (drop_input s) = vd_session s" "vd_session (drop_media s) = vd_session s"
  "vd_rtsp_base (drop_input s) = vd_rtsp_base s" "vd_waiting_key (drop_input s) = vd_waiting_key s"
  "vd_rtsp_base (drop_media s) = vd_rtsp_base s" "vd_waiting_key (drop_media s) = vd_waiting_key s"
  "vd_pipeline (drop_input s) = vd_pipeline s" "vd_pipeline (drop_media s) = vd_pipeline s"
  "vd_healthy (drop_input s) = vd_healthy s" "vd_healthy (drop_media s) = vd_healthy s"
  by (auto simp: drop_input_def drop_media_def video_defs split: option.splits)

lemma configure_refs:
  assumes "refs_ok obj s" shows "refs_ok obj (configureMedia media input s)"
proof -
  define taken where "taken = (case input of None \<Rightarrow> [] | Some i \<Rightarrow> [Acquired (RtspInput i)])"
  define s1 where "s1 = drop_media (drop_input s)"
  define s2 where "s2 = drop_media (drop_input (log_calls taken s))"
  have ok: "refs_ok obj s1" unfolding s1_def by (intro drop_refs assms)
  have none: "vd_rtsp_input s1 = None" "vd_media s1 = None" by (simp_all add: s1_def)
  have calls: "count_list (vd_calls s2) x = count_list (vd_calls s1) x + count_list taken x" for x
    by (auto simp: s1_def s2_def drop_media_def drop_input_def log_calls_def split: option.splits)
  have same: "held s2 obj = held s1 obj"
    by (auto simp: s1_def s2_def drop_media_def drop_input_def log_calls_def split: option.splits gobj.splits)
  have "vd_calls (configureMedia media input s) = vd_calls s2 @ [Acquired (Media media)]"
    by (simp add: configureMedia_def Let_def s2_def taken_def)
  moreover have "held (configureMedia media input s) obj =
      (case obj of RtspInput j \<Rightarrow> of_bool (input = Some j) | Media j \<Rightarrow> of_bool (media = j) | _ \<Rightarrow> held s2 obj)"
    by (simp add: configureMedia_def Let_def s2_def taken_def split: gobj.split)
  moreover have "count_list taken (Unref obj) = 0" "count_list taken (Acquired obj) = (case obj of RtspInput j \<Rightarrow> of_bool (input = Some j) | _ \<Rightarrow> 0)"
    by (auto simp: taken_def split: option.split gobj.split)
  ultimately show ?thesis
    using ok none calls same by (cases obj) (simp_all add: refs_ok_def)
qed

lemma refs_ok_cong: "vd_calls s1 = vd_calls s \<Longrightarrow> held s1 obj = held s obj \<Longrightarrow> refs_ok obj s1 = refs_ok obj s"
  by (simp add: refs_ok_def)

lemma rtsp_packet_refs: "refs_ok obj (rtsp_packet env b i s) = refs_ok obj s"
  by (simp add: rtsp_packet_def Let_def refs_ok_def)

lemma packet_refs: "refs_ok obj s \<Longrightarrow> refs_ok obj (onPacket env b s)"
  by (auto simp: onPacket_def Let_def rtsp_packet_refs intro: refs_ok_cong [THEN iffD2] split: option.splits)

lemma run_step_refs:
  assumes "refs_ok obj s" shows "refs_ok obj (run_step env s)"
proof (cases "vd_run s")
  case RunBus
  with assms show ?thesis
    by (cases "obj = Bus") (simp_all add: run_step_def refs_ok_def Let_def split: option.split)
next
  case RunPop
  with assms show ?thesis
    by (cases "obj = Bus") (simp_all add: run_step_def refs_ok_def Let_def case_prod_unfold split: option.split)
qed (use assms in \<open>simp add: run_step_def refs_ok_def Let_def\<close>)+

lemma count_release [simp]: "count_list (release_when present obj) x = of_bool (present \<and> x = Unref obj)"
  by (simp add: release_when_def)

lemma stop_step_refs:
  assumes "refs_ok obj s" "stop_ok s" shows "refs_ok obj (stop_step s)"
proof (cases "vd_stop s")
  case StopDown
  have "refs_ok obj (drop_input (drop_media s))" by (intro drop_refs assms)
  then have "refs_ok obj ((drop_input (drop_media s))\<lparr>vd_stop := StopMediaGone\<rparr>)" by (simp add: refs_ok_def)
  with StopDown assms(1) show ?thesis by (simp add: stop_step_def)
next
  case StopMediaGone
  then have "count_list (vd_calls (stop_step s)) (Acquired obj) = count_list (vd_calls s) (Acquired obj)"
    by (simp add: stop_step_def)
  moreover from StopMediaGone have "count_list (vd_calls (stop_step s)) (Unref obj) = count_list (vd_calls s) (Unref obj) +
      (case obj of Bus \<Rightarrow> 0 | Mounts \<Rightarrow> 0 | Caps \<Rightarrow> 0 | RtspInput i \<Rightarrow> 0 | Media m \<Rightarrow> 0 | _ \<Rightarrow> held s obj)"
    by (cases obj) (simp_all add: stop_step_def)
  moreover from StopMediaGone have "held (stop_step s) obj =
      (case obj of Bus \<Rightarrow> held s obj | RtspInput i \<Rightarrow> held s obj | Media m \<Rightarrow> held s obj | _ \<Rightarrow> 0)"
    by (cases obj) (simp_all add: stop_step_def)
  ultimately show ?thesis using assms(1) by (cases obj) (simp_all add: refs_ok_def)
qed (use assms in \<open>auto simp: refs_ok_def stop_step_def Let_def\<close>)

lemma stop_step_ok: "stop_ok s \<Longrightarrow> stop_ok (stop_step s)"
  by (cases "vd_stop s") (auto simp: stop_ok_def stop_step_def log_calls_def Let_def)

lemma stop_ok_update [simp]:
  "stop_ok (s\<lparr>vd_metrics := a\<rparr>) = stop_ok s" "stop_ok (s\<lparr>vd_frames := b\<rparr>) = stop_ok s"
  "stop_ok (s\<lparr>vd_recorder := c\<rparr>) = stop_ok s" "stop_ok (s\<lparr>vd_waiting_key := d\<rparr>) = stop_ok s"
  "stop_ok (s\<lparr>vd_rtsp_base := e\<rparr>) = stop_ok s"
  by (simp_all add: stop_ok_def)

lemma drop_input_ok: "stop_ok s \<Longrightarrow> stop_ok (drop_input s)"
  by (auto simp: stop_ok_def drop_input_def split: option.split)

lemma rtsp_packet_ok: "stop_ok (rtsp_packet env b i s) = stop_ok s"
  by (simp add: rtsp_packet_def Let_def)

lemma run_step_stop: "vd_stop (run_step env s) = vd_stop s"
  by (cases "vd_run s") (simp_all add: run_step_def Let_def case_prod_unfold setError_def vd_count_def split: option.split)

lemma run_step_ok:
  assumes "stop_ok s" shows "stop_ok (run_step env s)"
proof (cases "vd_run s = RunNone \<or> vd_run s = RunExit")
  case True
  with assms show ?thesis by (auto simp: run_step_def)
next
  case False
  with assms have "vd_stop s \<notin> {StopDown, StopMediaGone, StopDone}" by (auto simp: stop_ok_def)
  then show ?thesis by (auto simp: stop_ok_def run_step_stop)
qed

lemma video_step_ok: "stop_ok s \<Longrightarrow> stop_ok (video_step x s)"
proof (cases x)
  case (Packet env b)
  assume "stop_ok s"
  then show ?thesis
    by (auto simp: Packet sampleCallback_def onPacket_def Let_def rtsp_packet_ok split: option.split)
next
  case (Configure media input)
  assume "stop_ok s"
  then show ?thesis
    by (auto simp: Configure configureMedia_def Let_def stop_ok_def drop_input_def drop_media_def split: option.split)
next
  case Unprepare
  assume "stop_ok s"
  then show ?thesis by (simp add: Unprepare unprepareMedia_def drop_input_ok)
next
  case RtspEnd
  assume "stop_ok s"
  then show ?thesis by (auto simp: RtspEnd stop_ok_def)
next
  case (RunNext env)
  assume "stop_ok s"
  then show ?thesis by (simp add: RunNext run_step_ok)
next
  case StopNext
  assume "stop_ok s"
  then show ?thesis by (simp add: StopNext stop_step_ok)
qed (auto simp: vd_submit_def vd_trigger_def vd_reset_def)

lemma video_step_refs: "refs_ok obj s \<Longrightarrow> stop_ok s \<Longrightarrow> refs_ok obj (video_step x s)"
proof (cases x)
  case (Packet env b)
  assume "refs_ok obj s"
  then show ?thesis by (auto simp: Packet sampleCallback_def packet_refs split: option.split)
next
  case (Configure media input)
  assume "refs_ok obj s"
  then show ?thesis by (simp add: Configure configure_refs)
next
  case Unprepare
  assume "refs_ok obj s"
  then show ?thesis by (auto simp: Unprepare unprepareMedia_def drop_refs intro: refs_ok_cong [THEN iffD2])
next
  case (RunNext env)
  assume "refs_ok obj s"
  then show ?thesis by (simp add: RunNext run_step_refs)
next
  case StopNext
  assume "refs_ok obj s" "stop_ok s"
  then show ?thesis by (simp add: StopNext stop_step_refs)
qed (auto simp: vd_submit_def vd_trigger_def vd_reset_def intro: refs_ok_cong [THEN iffD2])

text \<open>The state after \<open>start\<close>, whether or not it threw.\<close>

definition video_service :: "(string \<Rightarrow> start_env) \<Rightarrow> config \<Rightarrow> metrics \<Rightarrow> nat \<Rightarrow> video" where
  "video_service answers c m origin = snd (video_start answers (VideoService c m origin))"

lemma video_service_ok: "refs_ok obj (video_service answers c m origin) \<and> stop_ok (video_service answers c m origin)"
  by (cases obj; simp add: video_service_def video_start_def VideoService_def refs_ok_def stop_ok_def Let_def log_calls_def
      split: option.split)

lemma video_run_refs: "refs_ok obj (video_run xs (video_service answers c m origin)) \<and> stop_ok (video_run xs (video_service answers c m origin))"
  by (rule video_machine.machine_invariant [where P = "\<lambda>s. refs_ok obj s \<and> stop_ok s"])
    (simp_all add: video_step_refs video_step_ok video_service_ok)


section \<open>What the RTSP clients get\<close>

text \<open>
  A media is decodable when each pushed packet is a key packet or directly follows one that was delivered;
  \<open>prev\<close> says whether the packet before the list was delivered.
\<close>

fun decodable :: "bool \<Rightarrow> (sample \<times> outcome) list \<Rightarrow> bool" where
  "decodable prev [] = True"
| "decodable prev ((b, Skipped) # rest) = decodable False rest"
| "decodable prev ((b, Pushed out delivered) # rest) = ((\<not> sm_delta b \<or> prev) \<and> decodable delivered rest)"

fun flowing :: "bool \<Rightarrow> (sample \<times> outcome) list \<Rightarrow> bool" where
  "flowing prev [] = prev"
| "flowing prev ((b, Skipped) # rest) = flowing False rest"
| "flowing prev ((b, Pushed out delivered) # rest) = flowing delivered rest"

lemma decodable_snoc:
  "decodable prev (xs @ [(b, Skipped)]) = decodable prev xs"
  "decodable prev (xs @ [(b, Pushed out ok)]) = (decodable prev xs \<and> (\<not> sm_delta b \<or> flowing prev xs))"
  by (induction prev xs rule: decodable.induct) auto

lemma flowing_snoc [simp]:
  "flowing prev (xs @ [(b, Skipped)]) = False" "flowing prev (xs @ [(b, Pushed out ok)]) = ok"
  by (induction prev xs rule: flowing.induct) auto

text \<open>The original and the rebased presentation times of the pushed packets.\<close>

fun pushed_times :: "(sample \<times> outcome) list \<Rightarrow> (u64 \<times> u64) list" where
  "pushed_times [] = []"
| "pushed_times ((b, Skipped) # rest) = pushed_times rest"
| "pushed_times ((b, Pushed out delivered) # rest) = (sm_pts b, out) # pushed_times rest"

lemma pushed_times_append: "pushed_times (xs @ ys) = pushed_times xs @ pushed_times ys"
  by (induction xs rule: pushed_times.induct) simp_all

definition rebased :: "u64 \<Rightarrow> (u64 \<times> u64) list \<Rightarrow> bool" where
  "rebased base ts \<longleftrightarrow> list_all (\<lambda>(pts, out). out = pts - base) ts"

definition session_ok :: "video \<Rightarrow> bool" where
  "session_ok s \<longleftrightarrow>
     decodable False (vd_session s) \<and>
     (\<not> vd_waiting_key s \<longrightarrow> flowing False (vd_session s)) \<and>
     (if pushed_times (vd_session s) = [] then vd_rtsp_input s \<noteq> None \<longrightarrow> vd_rtsp_base s = clock_time_none
      else vd_rtsp_base s = fst (hd (pushed_times (vd_session s))) \<and> vd_rtsp_base s \<noteq> clock_time_none \<and>
        rebased (vd_rtsp_base s) (pushed_times (vd_session s)))"

lemma flowing_times: "flowing False xs \<Longrightarrow> pushed_times xs \<noteq> []"
proof (induction xs rule: rev_induct)
  case (snoc x xs)
  then show ?case by (cases x; cases "snd x") (auto simp: pushed_times_append)
qed simp

lemma times_snoc [simp]:
  "pushed_times (xs @ [(b, Skipped)]) = pushed_times xs"
  "pushed_times (xs @ [(b, Pushed out ok)]) = pushed_times xs @ [(sm_pts b, out)]"
  by (simp_all add: pushed_times_append)

lemma session_ok_skip:
  "session_ok s \<Longrightarrow> vd_waiting_key s \<Longrightarrow> session_ok (note_session b Skipped s)"
  by (auto simp: session_ok_def note_session_def decodable_snoc split: if_splits)

lemma session_ok_push:
  assumes ok: "session_ok s" and b: "\<not> sm_delta b \<or> flowing False (vd_session s)"
    and base: "base = (if pushed_times (vd_session s) = [] then sm_pts b else vd_rtsp_base s)"
    and pts: "sm_pts b \<noteq> clock_time_none"
    and s1: "vd_session s1 = vd_session s @ [(b, Pushed (sm_pts b - base) delivered)]" "vd_rtsp_base s1 = base"
      "\<not> vd_waiting_key s1 \<longrightarrow> delivered"
  shows "session_ok s1"
  using assms by (auto simp: session_ok_def decodable_snoc rebased_def split: if_splits)

lemma rtsp_packet_session:
  assumes ok: "session_ok s" and pts: "sm_pts b \<noteq> clock_time_none" and i: "vd_rtsp_input s = Some i"
  shows "session_ok (rtsp_packet env b i s)"
proof -
  have wait: "session_ok (s\<lparr>vd_waiting_key := True\<rparr>)" using ok by (auto simp: session_ok_def split: if_splits)
  have skip: "session_ok (note_session b Skipped (vd_count k (s\<lparr>vd_waiting_key := True\<rparr>)))" for k
    by (rule session_ok_skip) (use wait in \<open>auto simp: session_ok_def vd_count_def split: if_splits\<close>)
  have base: "pushed_times (vd_session s) = [] \<longleftrightarrow> vd_rtsp_base s = clock_time_none"
    using ok i by (auto simp: session_ok_def split: if_splits)
  have flow: "flowing False (vd_session s)" "vd_rtsp_base s \<noteq> clock_time_none" if "\<not> vd_waiting_key s"
    using ok that base flowing_times [of "vd_session s"] by (auto simp: session_ok_def)
  show ?thesis
  proof (cases "1048576 < pe_queued env \<or> vd_waiting_key s \<and> sm_delta b")
    case True
    then show ?thesis using skip session_ok_skip [OF ok, of b] by (auto simp: rtsp_packet_def)
  next
    case False
    then have b: "\<not> sm_delta b \<or> flowing False (vd_session s)" using flow by blast
    show ?thesis
      by (rule session_ok_push [OF ok b refl pts, where delivered = "pe_pushed env"])
        (use False flow base in \<open>auto simp: rtsp_packet_def note_session_def log_calls_def Let_def\<close>)
  qed
qed

lemma session_ok_cong:
  "vd_session s1 = vd_session s \<Longrightarrow> vd_waiting_key s1 = vd_waiting_key s \<Longrightarrow> vd_rtsp_base s1 = vd_rtsp_base s \<Longrightarrow>
     vd_rtsp_input s1 = vd_rtsp_input s \<Longrightarrow> session_ok s1 = session_ok s"
  by (simp add: session_ok_def)

lemma session_ok_update [simp]:
  "session_ok (s\<lparr>vd_recorder := r\<rparr>) = session_ok s" "session_ok (s\<lparr>vd_stop := p\<rparr>) = session_ok s"
  by (simp_all add: session_ok_def)

lemma packet_metrics_session:
  "vd_session (packet_metrics env b s) = vd_session s" "vd_waiting_key (packet_metrics env b s) = vd_waiting_key s"
  "vd_rtsp_base (packet_metrics env b s) = vd_rtsp_base s" "vd_rtsp_input (packet_metrics env b s) = vd_rtsp_input s"
  by (simp_all add: packet_metrics_def vd_count_def Let_def)

lemma onPacket_session:
  assumes "session_ok s" shows "session_ok (onPacket env b s)"
proof -
  have "session_ok (packet_metrics env b s)"
    using assms by (rule session_ok_cong [THEN iffD2, rotated -1]) (simp_all add: packet_metrics_session)
  then show ?thesis
    by (auto simp: onPacket_def Let_def assms intro!: rtsp_packet_session split: option.split)
qed

lemma run_step_session: "session_ok (run_step env s) = session_ok s"
  by (rule session_ok_cong; cases "vd_run s")
    (simp_all add: run_step_def Let_def case_prod_unfold setError_def vd_count_def split: option.split)

lemma drop_session: "session_ok s \<Longrightarrow> session_ok (drop_input s)" "session_ok (drop_media s) = session_ok s"
  by (auto simp: session_ok_def drop_input_def drop_media_def log_calls_def split: option.splits if_splits)

lemma stop_step_session: "session_ok s \<Longrightarrow> session_ok (stop_step s)"
proof (cases "vd_stop s")
  case StopDown
  assume "session_ok s"
  then have "session_ok (drop_input (drop_media s))" by (simp add: drop_session)
  with StopDown \<open>session_ok s\<close> show ?thesis by (auto simp: stop_step_def intro: session_ok_cong [THEN iffD2])
qed (auto simp: stop_step_def Let_def log_calls_def intro: session_ok_cong [THEN iffD2])

lemma video_step_session: "session_ok s \<Longrightarrow> session_ok (video_step x s)"
proof (cases x)
  case (Packet env b)
  assume "session_ok s"
  then show ?thesis by (auto simp: Packet sampleCallback_def onPacket_session split: option.split)
next
  case (Configure media input)
  assume "session_ok s"
  then show ?thesis by (simp add: Configure configureMedia_def Let_def) (simp add: session_ok_def)
next
  case Unprepare
  assume "session_ok s"
  then show ?thesis using drop_session(1) [of s]
    by (auto simp: Unprepare unprepareMedia_def session_ok_def split: if_splits)
next
  case (RunNext env)
  assume "session_ok s"
  then show ?thesis by (simp add: RunNext run_step_session)
next
  case StopNext
  assume "session_ok s"
  then show ?thesis by (simp add: StopNext stop_step_session)
qed (auto simp: vd_submit_def vd_trigger_def vd_reset_def intro: session_ok_cong [THEN iffD2])

lemma video_service_session: "session_ok (video_service answers c m origin)"
  by (simp add: video_service_def video_start_def VideoService_def session_ok_def Let_def log_calls_def split: option.split)


section \<open>An example\<close>

text \<open>A service that starts, a media, a key packet and one that depends on it, and the whole of \<open>stop\<close>.\<close>

definition demo_parsed :: "string \<Rightarrow> start_env" where
  "demo_parsed launch = \<lparr>sv_parse_error = None, sv_parsed = True, sv_source = 1, sv_directories = None, sv_playing = True\<rparr>"

definition demo_packet :: "u64 \<Rightarrow> bool \<Rightarrow> video_op" where
  "demo_packet pts delta = Packet \<lparr>pe_mapped = True, pe_now = 0, pe_queued = 0, pe_pushed = True\<rparr>
     (Some \<lparr>sm_bytes = [], sm_pts = pts, sm_delta = delta\<rparr>)"

definition demo_ops :: "video_op list" where
  "demo_ops =
     (let wait = RunNext \<lparr>ne_message = None, ne_queued = 0, ne_pushed = True\<rparr>
      in [Configure 1 (Some 1), wait, wait, demo_packet 5 False, demo_packet 7 True, StopNext, wait, wait,
          StopNext, RtspEnd, StopNext, StopNext])"

lemma demo_stopped: "vd_stop (video_run demo_ops (video_service demo_parsed Config (Metrics 0) 0)) = StopDone"
  by code_simp

lemma demo_held: "count_list (vd_calls (video_run demo_ops (video_service demo_parsed Config (Metrics 0) 0))) (Acquired (Media 1)) = 1"
  by code_simp


end
