(* ===== verification/TimerHeap.thy ===== *)
theory TimerHeap
  imports Prelude
begin

text \<open>
  The binary heap in a \<open>std::vector\<close> that \<open>core/reactor/TimerManager.h\<close> keeps with
  \<open>std::push_heap\<close> and \<open>std::pop_heap\<close>. C++ fixes what these two algorithms promise, not which
  permutation they produce; the locale \<open>std_heap\<close> states the promise (with a key in place of the
  comparator, smallest key first, as \<open>TimerComparer\<close> orders the entries), and the usual array
  algorithms below are one implementation of it.
\<close>

section \<open>What the standard promises\<close>

definition parent :: "nat \<Rightarrow> nat" where
  "parent i = (i - 1) div 2"

definition is_heap :: "('a \<Rightarrow> 'k::linorder) \<Rightarrow> 'a list \<Rightarrow> bool" where
  "is_heap key xs \<longleftrightarrow> (\<forall>i. 0 < i \<longrightarrow> i < length xs \<longrightarrow> key (xs ! parent i) \<le> key (xs ! i))"

lemma is_heap_Nil [simp]: "is_heap key []"
  by (simp add: is_heap_def)

lemma heap_front_min: "is_heap key xs \<Longrightarrow> i < length xs \<Longrightarrow> key (xs ! 0) \<le> key (xs ! i)"
proof (induction i rule: less_induct)
  case (less i)
  show ?case
  proof (cases "i = 0")
    case False
    then have "parent i < i" by (simp add: parent_def)
    with less False have "key (xs ! 0) \<le> key (xs ! parent i)" by simp
    also have "\<dots> \<le> key (xs ! i)" using less.prems False by (simp add: is_heap_def)
    finally show ?thesis .
  qed simp
qed

lemma heap_hd_min: "is_heap key xs \<Longrightarrow> x \<in> set xs \<Longrightarrow> key (hd xs) \<le> key x"
proof -
  assume "is_heap key xs" and "x \<in> set xs"
  then obtain i where "i < length xs" "xs ! i = x" by (auto simp: in_set_conv_nth)
  with heap_front_min [OF \<open>is_heap key xs\<close>, of i] show ?thesis by (cases xs) auto
qed

text \<open>
  \<open>push_heap\<close> is called after the new element was appended, and turns \<open>h @ [x]\<close> with \<open>h\<close> a heap
  into a heap; \<open>pop_heap\<close> moves the front of a heap to the back and leaves a heap before it.
\<close>

locale std_heap =
  fixes push :: "'a list \<Rightarrow> 'a list"
    and pop :: "'a list \<Rightarrow> 'a list"
    and key :: "'a \<Rightarrow> 'k::linorder"
  assumes push_heap: "is_heap key h \<Longrightarrow> is_heap key (push (h @ [x]))"
    and push_mset: "mset (push ys) = mset ys"
    and pop_heap: "is_heap key h \<Longrightarrow> h \<noteq> [] \<Longrightarrow> is_heap key (butlast (pop h))"
    and pop_mset: "mset (pop h) = mset h"
    and pop_last: "is_heap key h \<Longrightarrow> h \<noteq> [] \<Longrightarrow> last (pop h) = hd h"
begin

lemma push_set: "set (push ys) = set ys"
  using push_mset by (rule mset_eq_setD)

lemma pop_length: "length (pop h) = length h"
  using pop_mset by (rule mset_eq_length)

text \<open>Popping takes an element of least key away and keeps the others.\<close>

lemma pop_takes_min:
  assumes "is_heap key h" and "h \<noteq> []"
  shows "mset (butlast (pop h)) = mset h - {#hd h#} \<and> is_heap key (butlast (pop h)) \<and>
         (\<forall>x \<in> set h. key (hd h) \<le> key x)"
proof -
  have "pop h \<noteq> []" using pop_length [of h] assms(2) by auto
  then have "mset (butlast (pop h)) + {#last (pop h)#} = mset (pop h)"
    by (cases "pop h" rule: rev_cases) simp_all
  then have "mset (butlast (pop h)) = mset h - {#hd h#}"
    using pop_mset [of h] pop_last [OF assms] by (metis add_diff_cancel_right')
  moreover have "\<forall>x \<in> set h. key (hd h) \<le> key x" using heap_hd_min [OF assms(1)] by blast
  ultimately show ?thesis using pop_heap [OF assms] by simp
qed

end

section \<open>The array algorithms\<close>

definition swap :: "nat \<Rightarrow> nat \<Rightarrow> 'a list \<Rightarrow> 'a list" where
  "swap i j xs = xs[i := xs ! j, j := xs ! i]"

lemma length_swap [simp]: "length (swap i j xs) = length xs"
  by (simp add: swap_def)

lemma mset_swap_heap: "i < length xs \<Longrightarrow> j < length xs \<Longrightarrow> mset (swap i j xs) = mset xs"
  by (simp add: swap_def mset_swap)

lemma nth_swap:
  "i < length xs \<Longrightarrow> j < length xs \<Longrightarrow> k < length xs \<Longrightarrow>
     swap i j xs ! k = (if k = i then xs ! j else if k = j then xs ! i else xs ! k)"
  by (simp add: swap_def nth_list_update)

function sift_up :: "('a \<Rightarrow> 'k::linorder) \<Rightarrow> nat \<Rightarrow> 'a list \<Rightarrow> 'a list" where
  "sift_up key i xs =
     (if 0 < i \<and> key (xs ! i) < key (xs ! parent i)
      then sift_up key (parent i) (swap i (parent i) xs) else xs)"
  by pat_completeness auto
termination
  by (relation "measure (\<lambda>(key, i, xs). i)") (auto simp: parent_def)

declare sift_up.simps [simp del]

definition push_heap :: "('a \<Rightarrow> 'k::linorder) \<Rightarrow> 'a list \<Rightarrow> 'a list" where
  "push_heap key xs = sift_up key (length xs - 1) xs"

text \<open>The child of \<open>i\<close> with the smaller key among the first \<open>n\<close> elements, or \<open>i\<close> itself.\<close>

definition least_child :: "('a \<Rightarrow> 'k::linorder) \<Rightarrow> nat \<Rightarrow> nat \<Rightarrow> 'a list \<Rightarrow> nat" where
  "least_child key i n xs =
     (let l = 2 * i + 1; r = 2 * i + 2;
          m = (if l < n \<and> key (xs ! l) < key (xs ! i) then l else i)
      in if r < n \<and> key (xs ! r) < key (xs ! m) then r else m)"

function sift_down :: "('a \<Rightarrow> 'k::linorder) \<Rightarrow> nat \<Rightarrow> nat \<Rightarrow> 'a list \<Rightarrow> 'a list" where
  "sift_down key i n xs =
     (let m = least_child key i n xs
      in if m = i then xs else sift_down key m n (swap i m xs))"
  by pat_completeness auto
termination
  by (relation "measure (\<lambda>(key, i, n, xs). n - i)")
    (auto simp: least_child_def Let_def split: if_splits)

declare sift_down.simps [simp del]

definition pop_heap :: "('a \<Rightarrow> 'k::linorder) \<Rightarrow> 'a list \<Rightarrow> 'a list" where
  "pop_heap key xs =
     (let n = length xs
      in if n \<le> 1 then xs else sift_down key 0 (n - 1) (swap 0 (n - 1) xs))"

text \<open>Heaps of one and two elements, for evaluating examples.\<close>

lemma small_heaps [simp]:
  "push_heap key [x] = [x]"
  "pop_heap key [x] = [x]"
  "push_heap key [x, y] = (if key y < key x then [y, x] else [x, y])"
  "pop_heap key [x, y] = [y, x]"
  by (simp_all add: push_heap_def pop_heap_def sift_up.simps [of key 0] sift_up.simps [of key "Suc 0"]
      sift_down.simps [of key 0] least_child_def parent_def swap_def)

section \<open>They keep the promise\<close>

text \<open>Sifting up repairs a heap whose only violation is between \<open>i\<close> and its parent.\<close>

lemma sift_up_mset: "i < length xs \<Longrightarrow> mset (sift_up key i xs) = mset xs"
proof (induction key i xs rule: sift_up.induct)
  case (1 key i xs)
  have "parent i < length xs" using "1.prems" by (simp add: parent_def)
  with 1 show ?case by (auto simp: sift_up.simps [of key i xs] mset_swap_heap)
qed

lemma sift_up_heap:
  assumes "i < length xs"
    and "\<And>j. 0 < j \<Longrightarrow> j < length xs \<Longrightarrow> j \<noteq> i \<Longrightarrow> key (xs ! parent j) \<le> key (xs ! j)"
    and "\<And>j. 0 < j \<Longrightarrow> j < length xs \<Longrightarrow> parent j = i \<Longrightarrow> 0 < i \<Longrightarrow>
           key (xs ! parent i) \<le> key (xs ! j)"
  shows "is_heap key (sift_up key i xs)"
  using assms
proof (induction key i xs rule: sift_up.induct)
  case (1 key i xs)
  show ?case
  proof (cases "0 < i \<and> key (xs ! i) < key (xs ! parent i)")
    case False
    then have "key (xs ! parent j) \<le> key (xs ! j)" if "0 < j" "j < length xs" for j
      using "1.prems"(2) [OF that] that by (cases "j = i") (auto simp: not_less)
    with False show ?thesis by (auto simp: sift_up.simps [of key i xs] is_heap_def)
  next
    case True
    let ?p = "parent i" and ?ys = "swap i (parent i) xs"
    have p: "?p < i" "?p < length xs" using True "1.prems"(1) by (auto simp: parent_def)
    have ys: "\<And>k. k < length xs \<Longrightarrow> ?ys ! k = (if k = i then xs ! ?p else if k = ?p then xs ! i else xs ! k)"
      using nth_swap "1.prems"(1) p(2) by blast
    have le: "\<And>j. 0 < j \<Longrightarrow> parent j < j" by (auto simp: parent_def)
    have "is_heap key (sift_up key ?p ?ys)"
    proof (rule "1.IH" [OF True])
      show "?p < length ?ys" using p by simp
    next
      fix j
      assume j: "0 < j" "j < length ?ys" "j \<noteq> ?p"
      then have pj: "parent j < length xs" using le [OF j(1)] by simp
      show "key (?ys ! parent j) \<le> key (?ys ! j)"
      proof (cases "j = i")
        case True
        with p ys \<open>0 < i \<and> _\<close> "1.prems"(1) show ?thesis by simp
      next
        case False
        then have "key (xs ! parent j) \<le> key (xs ! j)" using "1.prems"(2) j by simp
        moreover have "parent j = i \<Longrightarrow> key (xs ! ?p) \<le> key (xs ! j)"
          using "1.prems"(3) j True by simp
        moreover have "parent j = ?p \<Longrightarrow> key (xs ! i) \<le> key (xs ! j)"
          using calculation(1) True by (metis order.strict_trans2 less_imp_le)
        ultimately show ?thesis using ys [OF pj] ys [of j] j False by simp
      qed
    next
      fix j
      assume j: "0 < j" "j < length ?ys" "parent j = ?p" "0 < ?p"
      have pp: "parent ?p < ?p" "parent ?p < length xs" using le [OF j(4)] p by auto
      have up: "key (xs ! parent ?p) \<le> key (xs ! ?p)" using "1.prems"(2) [of ?p] p j(4) by simp
      have "?ys ! parent ?p = xs ! parent ?p" using ys [OF pp(2)] pp p by simp
      moreover have "key (xs ! ?p) \<le> key (?ys ! j)"
      proof (cases "j = i")
        case True
        then show ?thesis using ys [of i] "1.prems"(1) by simp
      next
        case False
        then have "key (xs ! parent j) \<le> key (xs ! j)" "j \<noteq> ?p"
          using "1.prems"(2) [of j] j le [OF j(1)] by auto
        then show ?thesis using ys [of j] j False by simp
      qed
      ultimately show "key (?ys ! parent ?p) \<le> key (?ys ! j)" using up by simp
    qed
    with True show ?thesis by (simp add: sift_up.simps [of key i xs])
  qed
qed

text \<open>Sifting down repairs a heap of \<open>n\<close> elements whose only violations are below \<open>i\<close>.\<close>

lemma least_child_same:
  assumes "least_child key i n xs = i" and "j < n" and "0 < j" and "parent j = i"
  shows "key (xs ! i) \<le> key (xs ! j)"
proof -
  have "j = 2 * i + 1 \<or> j = 2 * i + 2" using assms(3,4) by (auto simp: parent_def)
  with assms(1,2) show ?thesis by (auto simp: least_child_def Let_def not_less split: if_splits)
qed

lemma least_child_other:
  assumes "least_child key i n xs = m" and "m \<noteq> i"
  shows "m < n" and "0 < m" and "parent m = i" and "key (xs ! m) < key (xs ! i)"
    and "\<And>j. j < n \<Longrightarrow> 0 < j \<Longrightarrow> parent j = i \<Longrightarrow> key (xs ! m) \<le> key (xs ! j)"
proof -
  have m: "m < n \<and> 0 < m \<and> parent m = i \<and> key (xs ! m) < key (xs ! i)"
    using assms by (auto simp: least_child_def Let_def parent_def split: if_splits)
  then show "m < n" "0 < m" "parent m = i" "key (xs ! m) < key (xs ! i)" by auto
  fix j
  assume j: "j < n" "0 < j" "parent j = i"
  then have "j = 2 * i + 1 \<or> j = 2 * i + 2" by (auto simp: parent_def)
  with assms j show "key (xs ! m) \<le> key (xs ! j)"
    by (auto simp: least_child_def Let_def not_less split: if_splits)
qed

lemma sift_down_mset:
  "i < n \<Longrightarrow> n \<le> length xs \<Longrightarrow>
     mset (sift_down key i n xs) = mset xs \<and>
     (\<forall>k. n \<le> k \<longrightarrow> k < length xs \<longrightarrow> sift_down key i n xs ! k = xs ! k)"
proof (induction key i n xs rule: sift_down.induct)
  case (1 key i n xs)
  show ?case
  proof (cases "least_child key i n xs = i")
    case True
    then show ?thesis by (simp add: sift_down.simps [of key i n xs])
  next
    case False
    let ?m = "least_child key i n xs"
    have m: "?m < n" using least_child_other(1) [OF refl False] .
    then have "mset (sift_down key ?m n (swap i ?m xs)) = mset (swap i ?m xs) \<and>
        (\<forall>k. n \<le> k \<longrightarrow> k < length xs \<longrightarrow> sift_down key ?m n (swap i ?m xs) ! k = swap i ?m xs ! k)"
      using "1.IH" [OF refl False] "1.prems" by simp
    moreover have "mset (swap i ?m xs) = mset xs" using m "1.prems" by (simp add: mset_swap_heap)
    ultimately show ?thesis
      using False m "1.prems" by (simp add: sift_down.simps [of key i n xs] Let_def nth_swap)
  qed
qed

lemma sift_down_heap:
  assumes "i < n" and "n \<le> length xs"
    and "\<And>j. 0 < j \<Longrightarrow> j < n \<Longrightarrow> parent j \<noteq> i \<Longrightarrow> key (xs ! parent j) \<le> key (xs ! j)"
    and "\<And>j. 0 < j \<Longrightarrow> j < n \<Longrightarrow> parent j = i \<Longrightarrow> 0 < i \<Longrightarrow>
           key (xs ! parent i) \<le> key (xs ! j)"
  shows "is_heap key (take n (sift_down key i n xs))"
  using assms
proof (induction key i n xs rule: sift_down.induct)
  case (1 key i n xs)
  let ?m = "least_child key i n xs"
  have le: "\<And>j. 0 < j \<Longrightarrow> parent j < j" by (auto simp: parent_def)
  show ?case
  proof (cases "?m = i")
    case True
    have "key (xs ! parent j) \<le> key (xs ! j)" if "0 < j" "j < n" for j
      using "1.prems"(3) [OF that] least_child_same [OF True that(2,1)] by (cases "parent j = i") auto
    then show ?thesis using True le "1.prems"(2)
      by (auto simp: sift_down.simps [of key i n xs] is_heap_def) (metis less_trans nth_take)
  next
    case False
    let ?ys = "swap i ?m xs"
    note m = least_child_other [OF refl False]
    have ys: "\<And>k. k < n \<Longrightarrow> ?ys ! k = (if k = i then xs ! ?m else if k = ?m then xs ! i else xs ! k)"
      using nth_swap [of i xs ?m] "1.prems"(1,2) m(1) by simp
    have "is_heap key (take n (sift_down key ?m n ?ys))"
    proof (rule "1.IH" [OF refl False])
      show "?m < n" by (rule m(1))
      show "n \<le> length ?ys" using "1.prems"(2) by simp
    next
      fix j
      assume j: "0 < j" "j < n" "parent j \<noteq> ?m"
      have pj: "parent j < n" using le [OF j(1)] j(2) by simp
      consider "j = ?m" | "j \<noteq> ?m" "parent j = i" | "j = i" | "j \<noteq> ?m" "j \<noteq> i" "parent j \<noteq> i" by blast
      then show "key (?ys ! parent j) \<le> key (?ys ! j)"
      proof cases
        case 1
        then show ?thesis using ys [OF pj] ys [OF j(2)] m(3,4) False by simp
      next
        case 2
        then have "j \<noteq> i" using le [OF j(1)] by auto
        with 2 show ?thesis using ys [OF pj] ys [OF j(2)] m(5) [OF j(2,1)] by simp
      next
        case 3
        then have "parent j \<noteq> i" using le [OF j(1)] by auto
        with 3 j show ?thesis using ys [OF pj] ys [OF j(2)] "1.prems"(4) [OF m(2,1,3)] by simp
      next
        case 4
        then show ?thesis using ys [OF pj] ys [OF j(2)] j "1.prems"(3) [OF j(1,2)] by simp
      qed
    next
      fix j
      assume j: "0 < j" "j < n" "parent j = ?m" "0 < ?m"
      then have "j \<noteq> ?m" "j \<noteq> i" using le [OF j(1)] le [OF m(2)] m(3) by auto
      then show "key (?ys ! parent ?m) \<le> key (?ys ! j)"
        using ys [OF j(2)] ys [OF "1.prems"(1)] m(3) "1.prems"(3) [OF j(1,2)] j(3) False by simp
    qed
    with False show ?thesis by (simp add: sift_down.simps [of key i n xs] Let_def)
  qed
qed

lemma push_heap_mset: "mset (push_heap key xs) = mset xs"
  by (cases "xs = []") (auto simp: push_heap_def sift_up_mset sift_up.simps [of key 0 "[]"])

lemma push_heap_heap: "is_heap key h \<Longrightarrow> is_heap key (push_heap key (h @ [x]))"
  unfolding push_heap_def
proof (rule sift_up_heap)
  fix j
  assume h: "is_heap key h" and j: "0 < j" "j < length (h @ [x])"
  have pj: "parent j < j" using j(1) by (auto simp: parent_def)
  show "key ((h @ [x]) ! parent j) \<le> key ((h @ [x]) ! j)" if "j \<noteq> length (h @ [x]) - 1"
    using h j pj that by (simp add: is_heap_def nth_append)
  show "key ((h @ [x]) ! parent (length (h @ [x]) - 1)) \<le> key ((h @ [x]) ! j)"
    if "parent j = length (h @ [x]) - 1"
    using pj j that by simp
qed simp

lemma pop_heap_mset: "mset (pop_heap key h) = mset h"
proof (cases "length h \<le> 1")
  case False
  then have "mset (sift_down key 0 (length h - 1) (swap 0 (length h - 1) h)) = mset (swap 0 (length h - 1) h)"
    using sift_down_mset [of 0 "length h - 1" "swap 0 (length h - 1) h" key] by simp
  also have "\<dots> = mset h" using False by (intro mset_swap_heap) auto
  finally show ?thesis using False by (simp add: pop_heap_def Let_def)
qed (simp add: pop_heap_def Let_def)

lemma pop_heap_parts:
  assumes "is_heap key h" and "h \<noteq> []"
  shows "is_heap key (butlast (pop_heap key h)) \<and> last (pop_heap key h) = hd h"
proof (cases "length h \<le> 1")
  case True
  with assms(2) obtain x where "h = [x]" by (cases h) auto
  then show ?thesis by (simp add: pop_heap_def Let_def)
next
  case False
  let ?n = "length h - 1" and ?ys = "swap 0 (length h - 1) h"
  let ?zs = "sift_down key 0 ?n ?ys"
  have n: "0 < ?n" "?n < length h" using False by auto
  have ys: "\<And>k. k < length h \<Longrightarrow> ?ys ! k = (if k = 0 then h ! ?n else if k = ?n then h ! 0 else h ! k)"
    by (rule nth_swap) (use n in auto)
  have heap: "is_heap key (take ?n ?zs)"
  proof (rule sift_down_heap)
    fix j
    assume j: "0 < j" "j < ?n" "parent j \<noteq> 0"
    have "parent j < j" using j(1) by (auto simp: parent_def)
    with j assms(1) show "key (?ys ! parent j) \<le> key (?ys ! j)"
      using ys [of j] ys [of "parent j"] by (auto simp: is_heap_def)
  qed (use n in auto)
  have rest: "mset ?zs = mset ?ys" "?zs ! ?n = ?ys ! ?n"
    using sift_down_mset [OF n(1), of ?ys key] n by auto
  have len: "length ?zs = length h" using mset_eq_length [OF rest(1)] by simp
  then have "?zs \<noteq> []" using assms(2) by auto
  then have "butlast ?zs = take ?n ?zs" "last ?zs = ?zs ! ?n"
    using len by (simp_all add: butlast_conv_take last_conv_nth)
  moreover have "?ys ! ?n = hd h" using ys [OF n(2)] n(1) assms(2) by (simp add: hd_conv_nth)
  ultimately show ?thesis using heap rest(2) False by (simp add: pop_heap_def Let_def)
qed

interpretation array_heap: std_heap "push_heap key" "pop_heap key" key for key
  by unfold_locales
    (auto simp: push_heap_heap push_heap_mset pop_heap_mset dest: pop_heap_parts)

end
