(* ===== verification/TimerManager.thy ===== *)
theory TimerManager
  imports TimerHeap
begin

text \<open>
  The timers of \<open>core/reactor/TimerManager.h\<close>: a heap of entries, the set of active ids, and one
  kernel \<open>timerfd\<close> programmed for the earliest entry. The clock is an oracle: \<open>clk i\<close> is what the
  \<open>i\<close>-th call of \<open>steady_clock::now()\<close> returns, and the state counts the calls, so consecutive
  readings in one function are different readings, as in the code. Time points are nanoseconds
  without a bound; the 64-bit ids are numbered without wrap-around.
\<close>

section \<open>State\<close>

text \<open>
  A callback is what it does: it may add and cancel timers of the same manager, and have any other
  effect, which is recorded. An entry may hold an empty \<open>std::function\<close>.
\<close>

datatype 'e callback = Callback "'e act list"
  and 'e act = ActAdd nat nat "'e callback option" | ActCancel nat | ActEffect 'e

fun cb_acts :: "'e callback option \<Rightarrow> 'e act list" where
  "cb_acts None = []"
| "cb_acts (Some (Callback as)) = as"

record 'e timer_entry =
  te_id :: nat
  te_expiry :: nat
  te_period_ms :: nat
  te_callback :: "'e callback option"
  te_active :: bool

text \<open>What an observer of the manager sees: callbacks invoked, with the expiry of the entry and the
  loop's notion of now, and the effects of the callbacks.\<close>

datatype 'e tm_event = Fired nat nat nat | Effect 'e

text \<open>
  \<open>tm_its\<close> is the value (seconds, nanoseconds) last given to \<open>timerfd_settime\<close>, zero for a disarmed
  timer, and \<open>tm_set_at\<close> the clock reading it was computed from.
\<close>

record 'e timers =
  tm_fd_ok :: bool
  tm_heap :: "'e timer_entry list"
  tm_next_id :: nat
  tm_active_ids :: "nat set"
  tm_its :: "nat \<times> nat"
  tm_set_at :: nat
  tm_reads :: nat
  tm_out :: "'e tm_event list"

definition TimerManager :: "bool \<Rightarrow> 'e timers" where
  "TimerManager fd_ok =
     \<lparr>tm_fd_ok = fd_ok, tm_heap = [], tm_next_id = 1, tm_active_ids = {}, tm_its = (0, 0),
      tm_set_at = 0, tm_reads = 0, tm_out = []\<rparr>"

definition clock_now :: "(nat \<Rightarrow> nat) \<Rightarrow> 'e timers \<Rightarrow> nat \<times> 'e timers" where
  "clock_now clk s = (clk (tm_reads s), s\<lparr>tm_reads := tm_reads s + 1\<rparr>)"

section \<open>Operations\<close>

text \<open>A duration in milliseconds as \<open>it_value\<close>, never zero, since that would disarm the timer.\<close>

definition its_of_ms :: "nat \<Rightarrow> nat \<times> nat" where
  "its_of_ms duration =
     (let sec = duration div 1000; nsec = duration mod 1000 * 1000000
      in if sec = 0 \<and> nsec = 0 then (sec, 1) else (sec, nsec))"

definition resetTimerFd :: "(nat \<Rightarrow> nat) \<Rightarrow> 'e timers \<Rightarrow> 'e timers" where
  "resetTimerFd clk s =
     (if \<not> tm_fd_ok s then s
      else case tm_heap s of
        [] \<Rightarrow> s\<lparr>tm_its := (0, 0)\<rparr>
      | first # _ \<Rightarrow>
          let (now, s1) = clock_now clk s;
              its = (if now < te_expiry first then
                       its_of_ms ((te_expiry first - now) div ns_per_ms)
                     else (0, 1))
          in s1\<lparr>tm_its := its, tm_set_at := now\<rparr>)"

definition addTimer ::
  "(nat \<Rightarrow> nat) \<Rightarrow> nat \<Rightarrow> nat \<Rightarrow> 'e callback option \<Rightarrow> 'e timers \<Rightarrow> nat \<times> 'e timers" where
  "addTimer clk delay_ms period_ms cb s =
     (if \<not> tm_fd_ok s then (0, s)
      else
        let (now, s1) = clock_now clk s;
            tid = tm_next_id s1;
            entry = \<lparr>te_id = tid, te_expiry = now + delay_ms * ns_per_ms, te_period_ms = period_ms,
                     te_callback = cb, te_active = True\<rparr>;
            s2 = s1\<lparr>tm_next_id := tid + 1, tm_active_ids := insert tid (tm_active_ids s1),
                    tm_heap := push_heap te_expiry (tm_heap s1 @ [entry])\<rparr>
        in (tid, if te_id (hd (tm_heap s2)) = tid then resetTimerFd clk s2 else s2))"

definition cancelTimer :: "nat \<Rightarrow> 'e timers \<Rightarrow> bool \<times> 'e timers" where
  "cancelTimer tid s =
     (if tid \<notin> tm_active_ids s then (False, s)
      else (True, s\<lparr>tm_active_ids := tm_active_ids s - {tid},
                    tm_heap := map (\<lambda>e. if te_id e = tid then e\<lparr>te_active := False\<rparr> else e)
                                 (tm_heap s)\<rparr>))"

fun run_act :: "(nat \<Rightarrow> nat) \<Rightarrow> 'e act \<Rightarrow> 'e timers \<Rightarrow> 'e timers" where
  "run_act clk (ActAdd d p cb) s = snd (addTimer clk d p cb s)"
| "run_act clk (ActCancel tid) s = snd (cancelTimer tid s)"
| "run_act clk (ActEffect e) s = s\<lparr>tm_out := tm_out s @ [Effect e]\<rparr>"

definition run_callback :: "(nat \<Rightarrow> nat) \<Rightarrow> 'e callback option \<Rightarrow> 'e timers \<Rightarrow> 'e timers" where
  "run_callback clk cb s = fold (run_act clk) (cb_acts cb) s"

text \<open>
  One turn of the loop in \<open>handleTimerEvent\<close>, for an entry that has been popped: run it if it is
  active, and put a periodic one back with a fresh clock reading.
\<close>

definition run_entry :: "(nat \<Rightarrow> nat) \<Rightarrow> nat \<Rightarrow> 'e timer_entry \<Rightarrow> 'e timers \<Rightarrow> 'e timers" where
  "run_entry clk now entry s =
     (if te_active entry \<and> te_id entry \<in> tm_active_ids s then
        let s1 = run_callback clk (te_callback entry)
                   (s\<lparr>tm_out := tm_out s @ [Fired (te_id entry) (te_expiry entry) now]\<rparr>)
        in if 0 < te_period_ms entry \<and> te_id entry \<in> tm_active_ids s1 then
             let (t, s2) = clock_now clk s1;
                 entry1 = entry\<lparr>te_expiry := t + te_period_ms entry * ns_per_ms\<rparr>
             in s2\<lparr>tm_active_ids := insert (te_id entry1) (tm_active_ids s2),
                   tm_heap := push_heap te_expiry (tm_heap s2 @ [entry1])\<rparr>
           else s1\<lparr>tm_active_ids := tm_active_ids s1 - {te_id entry}\<rparr>
      else s)"

text \<open>
  The loop may not end when a callback keeps adding timers that are already due, so it has fuel;
  \<open>None\<close> means that the fuel ran out.
\<close>

fun fire_due :: "(nat \<Rightarrow> nat) \<Rightarrow> nat \<Rightarrow> nat \<Rightarrow> 'e timers \<Rightarrow> 'e timers option" where
  "fire_due clk 0 now s = None"
| "fire_due clk (Suc fuel) now s =
     (if tm_heap s = [] \<or> now < te_expiry (hd (tm_heap s)) then Some s
      else
        let h = pop_heap te_expiry (tm_heap s);
            entry = last h
        in fire_due clk fuel now (run_entry clk now entry (s\<lparr>tm_heap := butlast h\<rparr>)))"

text \<open>
  \<open>readable\<close> says whether the read of the \<open>timerfd\<close> returned its eight bytes.
\<close>

definition handleTimerEvent :: "(nat \<Rightarrow> nat) \<Rightarrow> nat \<Rightarrow> bool \<Rightarrow> 'e timers \<Rightarrow> 'e timers option" where
  "handleTimerEvent clk fuel readable s =
     (if \<not> tm_fd_ok s \<or> \<not> readable then Some s
      else
        let (now, s1) = clock_now clk s
        in map_option (resetTimerFd clk) (fire_due clk fuel now s1))"

section \<open>The invariant\<close>

text \<open>
  The vector is a heap, ids are unique and below \<open>next_id_\<close>, and outside of a callback the active
  ids are exactly those of the entries still marked active. While the callback of a popped entry
  runs, its id (in \<open>X\<close>) is not in the heap and may be active.
\<close>

definition live_ids :: "'e timer_entry set \<Rightarrow> nat set" where
  "live_ids E = te_id ` {e \<in> E. te_active e}"

lemma live_ids_simps [simp]:
  "live_ids {} = {}"
  "live_ids (insert e E) = (if te_active e then insert (te_id e) (live_ids E) else live_ids E)"
  by (auto simp: live_ids_def)

lemma live_ids_subset: "live_ids E \<subseteq> te_id ` E"
  by (auto simp: live_ids_def)

definition tm_inv :: "nat set \<Rightarrow> 'e timers \<Rightarrow> bool" where
  "tm_inv X s \<longleftrightarrow>
     is_heap te_expiry (tm_heap s) \<and> distinct (map te_id (tm_heap s)) \<and>
     te_id ` set (tm_heap s) \<union> X \<subseteq> {..<tm_next_id s} \<and> X \<inter> te_id ` set (tm_heap s) = {} \<and>
     tm_active_ids s - X = live_ids (set (tm_heap s))"

lemma resetTimerFd_frame [simp]:
  "tm_heap (resetTimerFd clk s) = tm_heap s"
  "tm_next_id (resetTimerFd clk s) = tm_next_id s"
  "tm_active_ids (resetTimerFd clk s) = tm_active_ids s"
  "tm_fd_ok (resetTimerFd clk s) = tm_fd_ok s"
  "tm_out (resetTimerFd clk s) = tm_out s"
  "tm_reads s \<le> tm_reads (resetTimerFd clk s)"
  "tm_inv X (resetTimerFd clk s) = tm_inv X s"
  by (auto simp: resetTimerFd_def clock_now_def tm_inv_def Let_def split: list.splits)

lemma push_entry:
  assumes "is_heap te_expiry h" and "distinct (map te_id h)" and "te_id e \<notin> te_id ` set h"
  shows "is_heap te_expiry (push_heap te_expiry (h @ [e]))"
    and "distinct (map te_id (push_heap te_expiry (h @ [e])))"
    and "set (push_heap te_expiry (h @ [e])) = insert e (set h)"
proof -
  have m: "mset (push_heap te_expiry (h @ [e])) = mset (h @ [e])" by (rule array_heap.push_mset)
  then have "mset (map te_id (push_heap te_expiry (h @ [e]))) = mset (map te_id (h @ [e]))"
    by (simp only: mset_map)
  moreover have "distinct (map te_id (h @ [e]))" using assms(2,3) by simp
  ultimately show "distinct (map te_id (push_heap te_expiry (h @ [e])))"
    using mset_eq_imp_distinct_iff by blast
  show "set (push_heap te_expiry (h @ [e])) = insert e (set h)"
    using array_heap.push_set [of te_expiry "h @ [e]"] by simp
  show "is_heap te_expiry (push_heap te_expiry (h @ [e]))" using assms(1) by (rule array_heap.push_heap)
qed

lemma pop_entry:
  assumes "is_heap te_expiry h" and "h \<noteq> []" and "distinct (map te_id h)"
  defines "r \<equiv> butlast (pop_heap te_expiry h)"
  shows "last (pop_heap te_expiry h) = hd h" and "is_heap te_expiry r" and "distinct (map te_id r)"
    and "set h = insert (hd h) (set r)" and "te_id (hd h) \<notin> te_id ` set r"
    and "mset h = add_mset (hd h) (mset r)"
proof -
  show last: "last (pop_heap te_expiry h) = hd h" using assms(1,2) by (rule array_heap.pop_last)
  have r: "mset r = mset h - {#hd h#}" "is_heap te_expiry r"
    using array_heap.pop_takes_min [OF assms(1,2)] by (auto simp: r_def)
  then show m: "mset h = add_mset (hd h) (mset r)" using assms(2) by simp
  show "is_heap te_expiry r" by (rule r(2))
  from m have "mset h = mset (hd h # r)" by simp
  from mset_eq_setD [OF this] show "set h = insert (hd h) (set r)" by simp
  from \<open>mset h = mset (hd h # r)\<close> have "mset (map te_id h) = mset (map te_id (hd h # r))"
    by (metis mset_map)
  then have "distinct (map te_id (hd h # r))" using assms(3) mset_eq_imp_distinct_iff by blast
  then show "distinct (map te_id r)" "te_id (hd h) \<notin> te_id ` set r" by auto
qed

lemma tm_inv_init: "tm_inv {} (TimerManager ok)"
  by (simp add: tm_inv_def TimerManager_def)

lemma tm_inv_add: "tm_inv X s \<Longrightarrow> tm_inv X (snd (addTimer clk d p cb s))"
proof -
  assume inv: "tm_inv X s"
  let ?e = "\<lparr>te_id = tm_next_id s, te_expiry = clk (tm_reads s) + d * ns_per_ms, te_period_ms = p,
             te_callback = cb, te_active = True\<rparr>"
  have "te_id ?e \<notin> te_id ` set (tm_heap s)" "tm_next_id s \<notin> X" using inv by (auto simp: tm_inv_def)
  with inv push_entry [of "tm_heap s" ?e]
  have "tm_inv X (s\<lparr>tm_reads := tm_reads s + 1, tm_next_id := tm_next_id s + 1,
      tm_active_ids := insert (tm_next_id s) (tm_active_ids s),
      tm_heap := push_heap te_expiry (tm_heap s @ [?e])\<rparr>)"
    by (auto simp: tm_inv_def insert_Diff_if less_Suc_eq)
  with inv show ?thesis by (simp add: addTimer_def clock_now_def Let_def)
qed

lemma is_heap_map: "(\<And>e. key (g e) = key e) \<Longrightarrow> is_heap key (map g h) = is_heap key h"
  by (auto simp: is_heap_def parent_def)

lemma live_ids_cancel:
  "live_ids ((\<lambda>e. if te_id e = i then e\<lparr>te_active := False\<rparr> else e) ` E) = live_ids E - {i}"
proof -
  let ?g = "\<lambda>e :: 'a timer_entry. if te_id e = i then e\<lparr>te_active := False\<rparr> else e"
  have "{e \<in> ?g ` E. te_active e} = {e \<in> E. te_active e \<and> te_id e \<noteq> i}"
  proof (intro equalityI subsetI)
    fix e
    assume "e \<in> {e \<in> E. te_active e \<and> te_id e \<noteq> i}"
    then show "e \<in> {e \<in> ?g ` E. te_active e}" by (auto intro: rev_image_eqI [of e])
  qed (auto split: if_splits)
  then show ?thesis by (auto simp: live_ids_def)
qed

lemma tm_inv_cancel: "tm_inv X s \<Longrightarrow> tm_inv X (snd (cancelTimer i s))"
proof -
  assume inv: "tm_inv X s"
  let ?g = "\<lambda>e :: 'a timer_entry. if te_id e = i then e\<lparr>te_active := False\<rparr> else e"
  have ids: "map te_id (map ?g (tm_heap s)) = map te_id (tm_heap s)" by simp
  have img: "te_id ` set (map ?g (tm_heap s)) = te_id ` set (tm_heap s)"
    using arg_cong [OF ids, of set] by (simp only: set_map)
  have heap: "is_heap te_expiry (map ?g (tm_heap s)) = is_heap te_expiry (tm_heap s)"
    by (rule is_heap_map) simp
  have live: "live_ids (set (map ?g (tm_heap s))) = live_ids (set (tm_heap s)) - {i}"
    unfolding set_map by (rule live_ids_cancel)
  have "tm_inv X (s\<lparr>tm_active_ids := tm_active_ids s - {i}, tm_heap := map ?g (tm_heap s)\<rparr>)"
    using inv by (auto simp: tm_inv_def ids img heap live simp del: map_map set_map)
  with inv show ?thesis by (simp add: cancelTimer_def)
qed

lemma tm_inv_act: "tm_inv X s \<Longrightarrow> tm_inv X (run_act clk a s)"
  by (cases a) (simp_all add: tm_inv_add tm_inv_cancel, simp add: tm_inv_def)

lemma tm_inv_callback: "tm_inv X s \<Longrightarrow> tm_inv X (run_callback clk cb s)"
proof -
  have "tm_inv X s \<Longrightarrow> tm_inv X (fold (run_act clk) as s)" for as
    by (induction as arbitrary: s) (simp_all add: tm_inv_act)
  then show "tm_inv X s \<Longrightarrow> tm_inv X (run_callback clk cb s)" by (simp add: run_callback_def)
qed

text \<open>One turn of the loop: pop an entry, run it, possibly put it back.\<close>

lemma tm_inv_run_entry:
  assumes "tm_inv {te_id e} s" and "te_id e \<in> tm_active_ids s \<longleftrightarrow> te_active e"
  shows "tm_inv {} (run_entry clk now e s)"
proof (cases "te_active e \<and> te_id e \<in> tm_active_ids s")
  case False
  with assms show ?thesis by (auto simp: run_entry_def tm_inv_def)
next
  case True
  let ?s1 = "run_callback clk (te_callback e)
    (s\<lparr>tm_out := tm_out s @ [Fired (te_id e) (te_expiry e) now]\<rparr>)"
  have inv1: "tm_inv {te_id e} ?s1"
    by (rule tm_inv_callback) (use assms(1) in \<open>simp add: tm_inv_def\<close>)
  show ?thesis
  proof (cases "0 < te_period_ms e \<and> te_id e \<in> tm_active_ids ?s1")
    case True
    let ?e1 = "e\<lparr>te_expiry := clk (tm_reads ?s1) + te_period_ms e * ns_per_ms\<rparr>"
    have "tm_inv {} (?s1\<lparr>tm_reads := tm_reads ?s1 + 1,
        tm_active_ids := insert (te_id ?e1) (tm_active_ids ?s1),
        tm_heap := push_heap te_expiry (tm_heap ?s1 @ [?e1])\<rparr>)"
      using inv1 push_entry [of "tm_heap ?s1" ?e1] \<open>te_active e \<and> _\<close>
      by (auto simp: tm_inv_def insert_Diff_if)
    with True \<open>te_active e \<and> _\<close> show ?thesis by (simp add: run_entry_def clock_now_def Let_def)
  next
    case False
    then have "run_entry clk now e s = ?s1\<lparr>tm_active_ids := tm_active_ids ?s1 - {te_id e}\<rparr>"
      using \<open>te_active e \<and> _\<close> by (auto simp: run_entry_def Let_def)
    with inv1 show ?thesis by (simp add: tm_inv_def)
  qed
qed

lemma tm_inv_popped:
  assumes "tm_inv {} s" and "tm_heap s \<noteq> []"
  shows "tm_inv {te_id (hd (tm_heap s))} (s\<lparr>tm_heap := butlast (pop_heap te_expiry (tm_heap s))\<rparr>)"
    and "te_id (hd (tm_heap s)) \<in> tm_active_ids s \<longleftrightarrow> te_active (hd (tm_heap s))"
proof -
  have inv: "is_heap te_expiry (tm_heap s)" "distinct (map te_id (tm_heap s))"
      "te_id ` set (tm_heap s) \<subseteq> {..<tm_next_id s}"
      "tm_active_ids s = live_ids (set (tm_heap s))"
    using assms(1) by (auto simp: tm_inv_def)
  let ?r = "butlast (pop_heap te_expiry (tm_heap s))" and ?e = "hd (tm_heap s)"
  note p = pop_entry [OF inv(1) assms(2) inv(2)]
  have live: "tm_active_ids s = live_ids (insert ?e (set ?r))" "te_id ?e \<notin> live_ids (set ?r)"
    using inv(4) p(4,5) live_ids_subset [of "set ?r"] by auto
  moreover have "te_id ` insert ?e (set ?r) \<subseteq> {..<tm_next_id s}" using inv(3) p(4) by simp
  ultimately show "tm_inv {te_id ?e} (s\<lparr>tm_heap := ?r\<rparr>)"
    using p(2,3,5) by (auto simp: tm_inv_def)
  show "te_id ?e \<in> tm_active_ids s \<longleftrightarrow> te_active ?e" using live by simp
qed

lemma fire_due_unfold:
  assumes "tm_inv {} s" and "tm_heap s \<noteq> []" and "te_expiry (hd (tm_heap s)) \<le> now"
  shows "fire_due clk (Suc fuel) now s = fire_due clk fuel now
           (run_entry clk now (hd (tm_heap s)) (s\<lparr>tm_heap := butlast (pop_heap te_expiry (tm_heap s))\<rparr>))"
  using assms pop_entry(1) [of "tm_heap s"] by (simp add: tm_inv_def Let_def)

lemma tm_inv_fire_due: "tm_inv {} s \<Longrightarrow> fire_due clk fuel now s = Some s' \<Longrightarrow> tm_inv {} s'"
proof (induction fuel arbitrary: s)
  case (Suc fuel)
  show ?case
  proof (cases "tm_heap s = [] \<or> now < te_expiry (hd (tm_heap s))")
    case True
    with Suc.prems show ?thesis by auto
  next
    case False
    note popped = tm_inv_popped [OF Suc.prems(1)]
    from False show ?thesis
      using Suc.IH [OF tm_inv_run_entry] popped fire_due_unfold [OF Suc.prems(1)] Suc.prems(2)
      by (auto simp: not_less)
  qed
qed simp

lemma tm_inv_handle:
  "tm_inv {} s \<Longrightarrow> handleTimerEvent clk fuel r s = Some s' \<Longrightarrow> tm_inv {} s'"
  by (auto simp: handleTimerEvent_def clock_now_def split: if_splits dest!: tm_inv_fire_due [rotated])
    (auto simp: tm_inv_def)

section \<open>Runs of the manager\<close>

text \<open>
  The calls the event loop's thread makes, in any order: adding and cancelling timers, and handling
  a readiness event of the \<open>timerfd\<close>.
\<close>

datatype 'e tm_op = OpAdd nat nat "'e callback option" | OpCancel nat | OpHandle bool

fun tm_exec :: "(nat \<Rightarrow> nat) \<Rightarrow> nat \<Rightarrow> 'e tm_op \<Rightarrow> 'e timers \<Rightarrow> 'e timers option" where
  "tm_exec clk fuel (OpAdd d p cb) s = Some (snd (addTimer clk d p cb s))"
| "tm_exec clk fuel (OpCancel i) s = Some (snd (cancelTimer i s))"
| "tm_exec clk fuel (OpHandle r) s = handleTimerEvent clk fuel r s"

fun tm_run :: "(nat \<Rightarrow> nat) \<Rightarrow> nat \<Rightarrow> 'e tm_op list \<Rightarrow> 'e timers \<Rightarrow> 'e timers option" where
  "tm_run clk fuel [] s = Some s"
| "tm_run clk fuel (x # xs) s = Option.bind (tm_exec clk fuel x s) (tm_run clk fuel xs)"

lemma tm_inv_exec: "tm_inv {} s \<Longrightarrow> tm_exec clk fuel x s = Some s' \<Longrightarrow> tm_inv {} s'"
  by (cases x) (auto intro: tm_inv_add tm_inv_cancel tm_inv_handle)

text \<open>
  A run preserves what every call preserves; \<open>P\<close> may rely on the invariant.
\<close>

lemma tm_run_induct:
  assumes "tm_run clk fuel ops s = Some s'" and "tm_inv {} s" and "P s"
    and step: "\<And>x s s'. tm_inv {} s \<Longrightarrow> P s \<Longrightarrow> tm_exec clk fuel x s = Some s' \<Longrightarrow> P s'"
  shows "tm_inv {} s' \<and> P s'"
  using assms(1-3)
proof (induction ops arbitrary: s)
  case (Cons x xs)
  then obtain s1 where "tm_exec clk fuel x s = Some s1" "tm_run clk fuel xs s1 = Some s'"
    by (auto split: Option.bind_splits)
  with Cons step tm_inv_exec show ?case by blast
qed simp

subsection \<open>The output only grows, and never early\<close>

definition fired_due :: "'e tm_event list \<Rightarrow> bool" where
  "fired_due evs \<longleftrightarrow> (\<forall>i x n. Fired i x n \<in> set evs \<longrightarrow> x \<le> n)"

text \<open>\<open>tm_grows Q s s'\<close>: the output of \<open>s'\<close> extends that of \<open>s\<close> by events that satisfy \<open>Q\<close>.\<close>

definition tm_grows :: "('e tm_event \<Rightarrow> bool) \<Rightarrow> 'e timers \<Rightarrow> 'e timers \<Rightarrow> bool" where
  "tm_grows Q s s' \<longleftrightarrow> (\<exists>evs. tm_out s' = tm_out s @ evs \<and> (\<forall>ev \<in> set evs. Q ev)) \<and>
     tm_reads s \<le> tm_reads s' \<and> tm_next_id s \<le> tm_next_id s' \<and> tm_fd_ok s' = tm_fd_ok s"

lemma tm_grows_refl [simp]: "tm_grows Q s s"
  by (simp add: tm_grows_def)

lemma tm_grows_trans: "tm_grows Q s s1 \<Longrightarrow> tm_grows Q s1 s2 \<Longrightarrow> tm_grows Q s s2"
  by (auto simp: tm_grows_def)

text \<open>Effects are always allowed below: only \<open>Fired\<close> events are restricted.\<close>

abbreviation fires :: "(nat \<Rightarrow> nat \<Rightarrow> nat \<Rightarrow> bool) \<Rightarrow> 'e tm_event \<Rightarrow> bool" where
  "fires R ev \<equiv> (case ev of Fired i x n \<Rightarrow> R i x n | Effect _ \<Rightarrow> True)"

lemma grows_reset: "tm_grows Q s s1 \<Longrightarrow> tm_grows Q s (resetTimerFd clk s1)"
  using resetTimerFd_frame(6) [of s1 clk] by (auto simp: tm_grows_def intro: order_trans)

lemma grows_add: "tm_grows Q s (snd (addTimer clk d p cb s))"
  by (auto simp: addTimer_def tm_grows_def clock_now_def Let_def
      intro: order_trans [OF _ resetTimerFd_frame(6)])

lemma grows_cancel: "tm_grows Q s (snd (cancelTimer i s))"
  by (auto simp: cancelTimer_def tm_grows_def)

lemma grows_act: "tm_grows (fires R) s (run_act clk a s)"
  by (cases a) (simp_all add: grows_add grows_cancel, simp add: tm_grows_def)

lemma grows_callback: "tm_grows (fires R) s (run_callback clk cb s)"
proof -
  have "tm_grows (fires R) s (fold (run_act clk) as s)" for as
    by (induction as arbitrary: s) (auto intro: tm_grows_trans grows_act)
  then show ?thesis by (simp add: run_callback_def)
qed

lemma grows_run_entry:
  assumes "te_id e \<in> tm_active_ids s \<Longrightarrow> R (te_id e) (te_expiry e) now"
  shows "tm_grows (fires R) s (run_entry clk now e s)"
proof (cases "te_active e \<and> te_id e \<in> tm_active_ids s")
  case True
  let ?s = "s\<lparr>tm_out := tm_out s @ [Fired (te_id e) (te_expiry e) now]\<rparr>"
  have "tm_grows (fires R) s ?s" using assms True by (simp add: tm_grows_def)
  then have "tm_grows (fires R) s (run_callback clk (te_callback e) ?s)"
    by (rule tm_grows_trans) (rule grows_callback)
  then show ?thesis using True by (auto simp: run_entry_def clock_now_def Let_def tm_grows_def)
next
  case False
  then show ?thesis by (auto simp: run_entry_def)
qed

lemma grows_fire_due:
  "tm_inv {} s \<Longrightarrow> fire_due clk fuel now s = Some s' \<Longrightarrow> tm_grows (fires (\<lambda>i x n. x \<le> n)) s s'"
proof (induction fuel arbitrary: s)
  case (Suc fuel)
  show ?case
  proof (cases "tm_heap s = [] \<or> now < te_expiry (hd (tm_heap s))")
    case True
    with Suc.prems show ?thesis by auto
  next
    case False
    let ?e = "hd (tm_heap s)" and ?s = "s\<lparr>tm_heap := butlast (pop_heap te_expiry (tm_heap s))\<rparr>"
    have "tm_inv {} (run_entry clk now ?e ?s)"
      using False tm_inv_popped [OF Suc.prems(1)] by (intro tm_inv_run_entry) auto
    then have "tm_grows (fires (\<lambda>i x n. x \<le> n)) (run_entry clk now ?e ?s) s'"
      using Suc.IH Suc.prems(2) fire_due_unfold [OF Suc.prems(1)] False by (auto simp: not_less)
    moreover have "tm_grows (fires (\<lambda>i x n. x \<le> n)) ?s (run_entry clk now ?e ?s)"
      by (rule grows_run_entry) (use False in simp)
    ultimately show ?thesis by (auto simp: tm_grows_def)
  qed
qed simp

lemma tm_handle_cases:
  assumes "handleTimerEvent clk fuel r s = Some s'"
  obtains "s' = s" "\<not> (tm_fd_ok s \<and> r)"
  | s1 where "tm_fd_ok s" "r" "s' = resetTimerFd clk s1"
      "fire_due clk fuel (clk (tm_reads s)) (s\<lparr>tm_reads := tm_reads s + 1\<rparr>) = Some s1"
  using assms by (auto simp: handleTimerEvent_def clock_now_def split: if_splits)

lemma tm_inv_reads [simp]: "tm_inv X (s\<lparr>tm_reads := n\<rparr>) = tm_inv X s"
  by (simp add: tm_inv_def)

lemma grows_exec:
  "tm_inv {} s \<Longrightarrow> tm_exec clk fuel x s = Some s' \<Longrightarrow> tm_grows (fires (\<lambda>i x n. x \<le> n)) s s'"
proof (cases x)
  case (OpHandle r)
  assume inv: "tm_inv {} s" and ex: "tm_exec clk fuel x s = Some s'"
  from ex OpHandle have "handleTimerEvent clk fuel r s = Some s'" by simp
  then show ?thesis
  proof (cases rule: tm_handle_cases)
    case (2 s1)
    with grows_fire_due [of "s\<lparr>tm_reads := tm_reads s + 1\<rparr>"] inv
    have "tm_grows (fires (\<lambda>i x n. x \<le> n)) (s\<lparr>tm_reads := tm_reads s + 1\<rparr>) s1" by simp
    then show ?thesis using 2(3) by (auto simp: tm_grows_def intro: order_trans [OF _ resetTimerFd_frame(6)])
  qed simp
qed (auto simp: grows_add grows_cancel)

text \<open>After any sequence of calls on a new manager, with callbacks that themselves add and cancel
  timers: the vector is a heap (so its front expires first), no two entries share an id, the active
  ids are those of the entries still marked active, and no callback was ever invoked before its
  entry's expiry time.\<close>

theorem timers_wellformed:
  assumes "tm_run clk fuel ops (TimerManager ok) = Some s"
  shows "is_heap te_expiry (tm_heap s) \<and> distinct (map te_id (tm_heap s)) \<and>
         tm_active_ids s = live_ids (set (tm_heap s)) \<and>
         (\<forall>e \<in> set (tm_heap s). te_expiry (hd (tm_heap s)) \<le> te_expiry e) \<and>
         fired_due (tm_out s)"
proof -
  have step: "fired_due (tm_out s')"
    if "tm_inv {} s" "fired_due (tm_out s)" "tm_exec clk fuel x s = Some s'" for x s and s' :: "'a timers"
    using grows_exec [OF that(1,3)] that(2) by (fastforce simp: tm_grows_def fired_due_def)
  have "tm_inv {} s \<and> fired_due (tm_out s)"
    by (rule tm_run_induct [OF assms tm_inv_init])
      (simp add: fired_due_def TimerManager_def, rule step)
  then show ?thesis using heap_hd_min by (auto simp: tm_inv_def)
qed

lemmas timer_eval = TimerManager_def addTimer_def cancelTimer_def handleTimerEvent_def
  clock_now_def resetTimerFd_def run_entry_def run_callback_def 
  Let_def numeral_3_eq_3

subsection \<open>The timerfd is programmed for the earliest entry\<close>

definition its_ns :: "nat \<times> nat \<Rightarrow> nat" where
  "its_ns its = fst its * ns_per_s + snd its"

text \<open>
  \<open>armed x s\<close>: the \<open>timerfd\<close> runs, and its value reaches the time \<open>x\<close> from the reading it was
  computed with, rounded down to a millisecond, or to one nanosecond when nothing is left.
\<close>

definition armed :: "nat \<Rightarrow> 'e timers \<Rightarrow> bool" where
  "armed x s \<longleftrightarrow> 0 < its_ns (tm_its s) \<and> its_ns (tm_its s) \<le> max 1 (x - tm_set_at s) \<and>
     x - tm_set_at s < its_ns (tm_its s) + ns_per_ms"

definition programmed :: "'e timers \<Rightarrow> bool" where
  "programmed s \<longleftrightarrow> tm_fd_ok s \<and>
     (if tm_heap s = [] then tm_its s = (0, 0) else armed (te_expiry (hd (tm_heap s))) s)"

lemma its_ns_of_ms: "its_ns (its_of_ms d) = (if d = 0 then 1 else d * 1000000)"
proof (cases "d = 0")
  case True
  then show ?thesis by (simp add: its_of_ms_def its_ns_def)
next
  case False
  have split: "its_ns (q, r * 1000000) = (q * 1000 + r) * 1000000" for q r by (simp add: its_ns_def)
  have "\<not> (d div 1000 = 0 \<and> d mod 1000 * 1000000 = 0)"
  proof
    assume zero: "d div 1000 = 0 \<and> d mod 1000 * 1000000 = 0"
    then have "d mod 1000 = 0" by simp
    with zero div_mult_mod_eq [of d 1000] have "d = 0" by (metis add_0 mult_0)
    with False show False ..
  qed
  then have "its_of_ms d = (d div 1000, d mod 1000 * 1000000)"
    by (simp only: its_of_ms_def Let_def if_False)
  with False show ?thesis by (simp only: split div_mult_mod_eq if_False)
qed

lemma ms_rounding:
  fixes t :: nat
  shows "t div 1000000 * 1000000 \<le> t" and "t < t div 1000000 * 1000000 + 1000000"
  using div_times_less_eq_dividend [of t 1000000] dividend_less_div_times [of 1000000 t] by simp_all

lemma armed_its:
  assumes "tm_set_at s = now"
    and "tm_its s = (if now < x then its_of_ms ((x - now) div 1000000) else (0, 1))"
  shows "armed x s"
proof (cases "now < x")
  case True
  define d where "d = (x - now) div 1000000"
  have "d * 1000000 \<le> x - now" "x - now < d * 1000000 + 1000000"
    unfolding d_def by (rule ms_rounding)+
  moreover have "its_ns (tm_its s) = (if d = 0 then 1 else d * 1000000)"
    using True its_ns_of_ms assms(2) by (simp only: d_def if_True)
  ultimately show ?thesis using True assms(1) by (cases "d = 0") (simp_all add: armed_def)
next
  case False
  with assms show ?thesis by (simp add: armed_def its_ns_def)
qed

lemma programmed_reset: "tm_fd_ok s \<Longrightarrow> programmed (resetTimerFd clk s)"
proof (cases "tm_heap s")
  case Nil
  moreover assume "tm_fd_ok s"
  ultimately show ?thesis by (simp add: resetTimerFd_def programmed_def)
next
  case (Cons e h)
  assume ok: "tm_fd_ok s"
  have "armed (te_expiry e) (resetTimerFd clk s)"
    by (rule armed_its [of _ "clk (tm_reads s)"]) (use ok Cons in \<open>simp_all add: resetTimerFd_def clock_now_def Let_def\<close>)
  with ok Cons show ?thesis by (simp add: programmed_def)
qed

lemma programmed_same:
  "programmed s \<Longrightarrow> tm_heap s \<noteq> [] \<Longrightarrow> tm_heap s' \<noteq> [] \<Longrightarrow> tm_fd_ok s' = tm_fd_ok s \<Longrightarrow>
     tm_its s' = tm_its s \<Longrightarrow> tm_set_at s' = tm_set_at s \<Longrightarrow>
     te_expiry (hd (tm_heap s')) = te_expiry (hd (tm_heap s)) \<Longrightarrow> programmed s'"
  by (simp add: programmed_def armed_def)

text \<open>When the new entry is not at the front, the front keeps its expiry.\<close>

lemma push_keeps_front:
  assumes "is_heap te_expiry h" and "te_id (hd (push_heap te_expiry (h @ [e]))) \<noteq> te_id e"
  shows "h \<noteq> [] \<and> push_heap te_expiry (h @ [e]) \<noteq> [] \<and>
         te_expiry (hd (push_heap te_expiry (h @ [e]))) = te_expiry (hd h)"
proof -
  let ?h = "push_heap te_expiry (h @ [e])"
  have set: "set ?h = insert e (set h)" using array_heap.push_set [of te_expiry "h @ [e]"] by simp
  then have ne: "?h \<noteq> []" by auto
  then have "hd ?h \<in> set ?h" by simp
  with set assms(2) have front: "hd ?h \<in> set h" by auto
  have "te_expiry (hd h) \<le> te_expiry (hd ?h)" by (rule heap_hd_min [OF assms(1) front])
  moreover have "hd h \<in> set ?h" using front set by (cases h) auto
  then have "te_expiry (hd ?h) \<le> te_expiry (hd h)"
    by (rule heap_hd_min [OF array_heap.push_heap [OF assms(1)]])
  ultimately show ?thesis using ne front by auto
qed

lemma programmed_add:
  assumes "tm_inv {} s" and "programmed s"
  shows "programmed (snd (addTimer clk d p cb s))"
proof -
  let ?e = "\<lparr>te_id = tm_next_id s, te_expiry = clk (tm_reads s) + d * ns_per_ms, te_period_ms = p,
             te_callback = cb, te_active = True\<rparr>"
  let ?h = "push_heap te_expiry (tm_heap s @ [?e])"
  have ok: "tm_fd_ok s" using assms(2) by (simp add: programmed_def)
  have heap: "is_heap te_expiry (tm_heap s)" using assms(1) by (simp add: tm_inv_def)
  show ?thesis
  proof (cases "te_id (hd ?h) = tm_next_id s")
    case True
    with ok show ?thesis by (simp add: addTimer_def clock_now_def Let_def programmed_reset)
  next
    case False
    with push_keeps_front [OF heap, of ?e] ok show ?thesis
      by (auto simp: addTimer_def clock_now_def Let_def intro: programmed_same [OF assms(2)])
  qed
qed

lemma programmed_cancel: "programmed s \<Longrightarrow> programmed (snd (cancelTimer i s))"
  by (cases "tm_heap s") (auto simp: cancelTimer_def programmed_def armed_def)

lemma programmed_exec:
  assumes "tm_inv {} s" and "programmed s" and "tm_exec clk fuel x s = Some s'"
  shows "programmed s'"
proof (cases x)
  case (OpHandle r)
  with assms(3) have "handleTimerEvent clk fuel r s = Some s'" by simp
  then show ?thesis
  proof (cases rule: tm_handle_cases)
    case (2 s1)
    have "tm_grows (fires (\<lambda>i x n. x \<le> n)) (s\<lparr>tm_reads := tm_reads s + 1\<rparr>) s1"
      by (rule grows_fire_due [OF _ 2(4)]) (simp add: assms(1))
    then have "tm_fd_ok s1" using 2(1) by (simp add: tm_grows_def)
    with 2(3) show ?thesis by (simp add: programmed_reset)
  qed (use assms(2) in simp)
qed (use assms in \<open>auto simp: programmed_add programmed_cancel\<close>)

text \<open>C24: The kernel timer always matches the heap: after any sequence of calls it is disarmed exactly when
  no entry is left, and otherwise programmed to expire no later than the earliest entry (or after the
  minimal nanosecond, when that entry is due) and less than a millisecond before it, seen from the clock
  reading it was computed with.\<close>

theorem timerfd_armed:
  assumes "tm_run clk fuel ops (TimerManager True) = Some s"
  shows "(its_ns (tm_its s) = 0 \<longleftrightarrow> tm_heap s = []) \<and>
         (tm_heap s \<noteq> [] \<longrightarrow>
           (let left_ns = te_expiry (hd (tm_heap s)) - tm_set_at s
            in its_ns (tm_its s) \<le> max 1 left_ns \<and> left_ns < its_ns (tm_its s) + ns_per_ms))"
proof -
  have "programmed (TimerManager True)" by (simp add: programmed_def TimerManager_def)
  then have "programmed s"
    using tm_run_induct [where P = programmed, OF assms tm_inv_init] programmed_exec by blast
  then show ?thesis by (auto simp: programmed_def armed_def its_ns_def Let_def split: if_splits)
qed

text \<open>Two timers, the second one earlier: the fd is set for 2 s, then for 1.5 s.\<close>

theorem timerfd_armed_witness:
  "\<exists>s. tm_run (\<lambda>n. n * 400) 3 [OpAdd 2000 0 None, OpAdd 1500 0 None] (TimerManager True :: string timers) = Some s \<and>
    tm_its s = (1, 499000000) \<and> tm_set_at s = 1200 \<and> (its_ns (tm_its s) = 0 \<longleftrightarrow> tm_heap s = []) \<and>
    (let left_ns = te_expiry (hd (tm_heap s)) - tm_set_at s
     in its_ns (tm_its s) \<le> max 1 left_ns \<and> left_ns < its_ns (tm_its s) + ns_per_ms)"
proof -
  let ?e = "\<lparr>te_id = 1, te_expiry = 2000000000, te_period_ms = 0, te_callback = None, te_active = True\<rparr>"
  let ?f = "\<lparr>te_id = 2, te_expiry = 1500000800, te_period_ms = 0, te_callback = None, te_active = True\<rparr>"
  have one: "snd (addTimer (\<lambda>n. n * 400) 2000 0 None (TimerManager True :: string timers)) =
    \<lparr>tm_fd_ok = True, tm_heap = [?e], tm_next_id = 2, tm_active_ids = {1}, tm_its = (1, 999000000),
     tm_set_at = 400, tm_reads = 2, tm_out = []\<rparr>" (is "_ = ?s1")
    by (simp add: TimerManager_def addTimer_def clock_now_def Let_def resetTimerFd_def its_of_ms_def)
  have two: "snd (addTimer (\<lambda>n. n * 400) 1500 0 None ?s1) =
    \<lparr>tm_fd_ok = True, tm_heap = [?f, ?e], tm_next_id = 3, tm_active_ids = {2, 1},
     tm_its = (1, 499000000), tm_set_at = 1200, tm_reads = 4, tm_out = []\<rparr>" (is "_ = ?s2")
    by (simp add: addTimer_def clock_now_def Let_def resetTimerFd_def its_of_ms_def)
  have run: "tm_run (\<lambda>n. n * 400) 3 [OpAdd 2000 0 None, OpAdd 1500 0 None] (TimerManager True :: string timers) = Some ?s2"
    by (simp only: tm_run.simps tm_exec.simps one two bind.bind_lunit)
  show ?thesis
    by (rule exI [of _ ?s2]) (use timerfd_armed [OF run] run in simp)
qed

subsection \<open>Handling an event ends and runs everything that is due\<close>

text \<open>\<open>cb_all P cb\<close>: every action of the callback, and of the callbacks it installs, satisfies \<open>P\<close>.\<close>

fun act_all :: "('e act \<Rightarrow> bool) \<Rightarrow> 'e act \<Rightarrow> bool" where
  "act_all P (ActAdd d p (Some (Callback as))) = (P (ActAdd d p (Some (Callback as))) \<and> (\<forall>a \<in> set as. act_all P a))"
| "act_all P a = P a"

definition cb_all :: "('e act \<Rightarrow> bool) \<Rightarrow> 'e callback option \<Rightarrow> bool" where
  "cb_all P cb \<longleftrightarrow> (\<forall>a \<in> set (cb_acts cb). act_all P a)"

definition heap_all :: "('e act \<Rightarrow> bool) \<Rightarrow> 'e timer_entry list \<Rightarrow> bool" where
  "heap_all P h \<longleftrightarrow> (\<forall>e \<in> set h. cb_all P (te_callback e))"

fun delayed :: "'e act \<Rightarrow> bool" where
  "delayed (ActAdd d p cb) = (0 < d)"
| "delayed _ = True"

lemma act_all_add: "act_all P (ActAdd d p cb) \<Longrightarrow> P (ActAdd d p cb) \<and> cb_all P cb"
  by (cases cb; cases "the cb") (auto simp: cb_all_def)

lemma act_all_top: "act_all P a \<Longrightarrow> P a"
  by (cases "(P, a)" rule: act_all.cases) auto

definition due :: "nat \<Rightarrow> 'e timers \<Rightarrow> nat" where
  "due now s = size (filter_mset (\<lambda>e. te_expiry e \<le> now) (mset (tm_heap s)))"

text \<open>
  What holds of the state while the loop runs with the reading \<open>now\<close>: the clock does not go back,
  so no callback makes more entries due. \<open>W\<close> is a set of entries the callbacks leave alone.
\<close>

definition loop_inv :: "(nat \<Rightarrow> nat) \<Rightarrow> nat \<Rightarrow> 'e timer_entry set \<Rightarrow> 'e timers \<Rightarrow> bool" where
  "loop_inv clk now W s \<longleftrightarrow>
     now \<le> clk (tm_reads s) \<and> heap_all delayed (tm_heap s) \<and>
     (\<forall>w \<in> W. heap_all (\<lambda>a. a \<noteq> ActCancel (te_id w)) (tm_heap s)) \<and>
     W \<subseteq> set (tm_heap s) \<and> te_id ` W \<subseteq> tm_active_ids s"

lemma loop_push:
  assumes "loop_inv clk now W s" and "mono clk" and "now < te_expiry e" and "cb_all delayed (te_callback e)"
    and "\<forall>w \<in> W. cb_all (\<lambda>a. a \<noteq> ActCancel (te_id w)) (te_callback e)"
    and "tm_heap s' = push_heap te_expiry (tm_heap s @ [e])" and "tm_reads s \<le> tm_reads s'"
    and "tm_active_ids s \<subseteq> tm_active_ids s'"
  shows "loop_inv clk now W s' \<and> due now s' = due now s"
proof -
  have "set (tm_heap s') = insert e (set (tm_heap s))"
    using assms(6) array_heap.push_set [of te_expiry "tm_heap s @ [e]"] by simp
  moreover have "clk (tm_reads s) \<le> clk (tm_reads s')" using assms(2,7) by (rule monoD)
  ultimately have "loop_inv clk now W s'"
    using assms(1,4,5,8) by (auto simp: loop_inv_def heap_all_def)
  moreover have "due now s' = due now s"
    using assms(3,6) array_heap.push_mset [of te_expiry "tm_heap s @ [e]"] by (simp add: due_def)
  ultimately show ?thesis ..
qed

lemma loop_add:
  assumes inv: "loop_inv clk now W s" and clk: "mono clk" and act: "act_all delayed (ActAdd d p cb)"
    and W: "\<forall>w \<in> W. act_all (\<lambda>a. a \<noteq> ActCancel (te_id w)) (ActAdd d p cb)"
  shows "loop_inv clk now W (snd (addTimer clk d p cb s)) \<and> due now (snd (addTimer clk d p cb s)) = due now s"
proof (cases "tm_fd_ok s")
  case False
  with inv show ?thesis by (simp add: addTimer_def)
next
  case True
  let ?e = "\<lparr>te_id = tm_next_id s, te_expiry = clk (tm_reads s) + d * ns_per_ms, te_period_ms = p,
             te_callback = cb, te_active = True\<rparr>"
  have "now < te_expiry ?e" using inv act_all_top [OF act] by (simp add: loop_inv_def)
  moreover have "tm_reads s \<le> tm_reads (snd (addTimer clk d p cb s))"
    using grows_add [of "\<lambda>_. True" s clk d p cb] by (simp add: tm_grows_def)
  ultimately show ?thesis
    using act_all_add [OF act] act_all_add W True
    by (intro loop_push [OF inv clk, of ?e]) (fastforce simp: addTimer_def clock_now_def Let_def)+
qed

lemma loop_cancel:
  assumes inv: "loop_inv clk now W s" and W: "\<forall>w \<in> W. te_id w \<noteq> i"
  shows "loop_inv clk now W (snd (cancelTimer i s)) \<and> due now (snd (cancelTimer i s)) = due now s"
proof -
  let ?g = "\<lambda>e :: 'a timer_entry. if te_id e = i then e\<lparr>te_active := False\<rparr> else e"
  have "filter_mset (\<lambda>e. te_expiry e \<le> now) (image_mset ?g H) =
      image_mset ?g (filter_mset (\<lambda>e. te_expiry e \<le> now) H)" for H
    by (induction H) auto
  then have "size (filter_mset (\<lambda>e. te_expiry e \<le> now) (image_mset ?g H)) =
      size (filter_mset (\<lambda>e. te_expiry e \<le> now) H)" for H
    by simp
  then have "due now (snd (cancelTimer i s)) = due now s"
    by (simp add: cancelTimer_def due_def)
  moreover have "W \<subseteq> ?g ` set (tm_heap s)"
  proof
    fix w
    assume "w \<in> W"
    with inv W have "w \<in> set (tm_heap s)" "w = ?g w" by (auto simp: loop_inv_def)
    then show "w \<in> ?g ` set (tm_heap s)" by (rule rev_image_eqI)
  qed
  then have "loop_inv clk now W (snd (cancelTimer i s))"
    using inv W by (auto simp: cancelTimer_def loop_inv_def heap_all_def)
  ultimately show ?thesis by simp
qed

lemma loop_act:
  assumes "loop_inv clk now W s" and "mono clk" and "act_all delayed a"
    and "\<forall>w \<in> W. act_all (\<lambda>a. a \<noteq> ActCancel (te_id w)) a"
  shows "loop_inv clk now W (run_act clk a s) \<and> due now (run_act clk a s) = due now s"
proof (cases a)
  case (ActAdd d p cb)
  with loop_add [OF assms(1,2)] assms(3,4) show ?thesis by simp
next
  case (ActCancel i)
  with loop_cancel [OF assms(1), of i] assms(4) show ?thesis by auto
next
  case (ActEffect e)
  with assms(1) show ?thesis by (simp add: loop_inv_def due_def)
qed

lemma loop_callback:
  assumes "loop_inv clk now W s" and "mono clk" and "cb_all delayed cb"
    and "\<forall>w \<in> W. cb_all (\<lambda>a. a \<noteq> ActCancel (te_id w)) cb"
  shows "loop_inv clk now W (run_callback clk cb s) \<and> due now (run_callback clk cb s) = due now s"
proof -
  have "loop_inv clk now W s \<Longrightarrow> \<forall>a \<in> set as. act_all delayed a \<and>
      (\<forall>w \<in> W. act_all (\<lambda>a. a \<noteq> ActCancel (te_id w)) a) \<Longrightarrow>
    loop_inv clk now W (fold (run_act clk) as s) \<and> due now (fold (run_act clk) as s) = due now s" for as
  proof (induction as arbitrary: s)
    case (Cons a as)
    with loop_act [OF Cons.prems(1) assms(2), of a]
    have "loop_inv clk now W (run_act clk a s)" "due now (run_act clk a s) = due now s" by simp_all
    with Cons show ?case by simp
  qed simp
  from this [OF assms(1)] assms(3,4) show ?thesis by (simp add: run_callback_def cb_all_def)
qed

lemma loop_run_entry:
  assumes inv: "loop_inv clk now W s" and clk: "mono clk" and delay: "cb_all delayed (te_callback e)"
    and W: "\<forall>w \<in> W. cb_all (\<lambda>a. a \<noteq> ActCancel (te_id w)) (te_callback e)" "te_id e \<notin> te_id ` W"
  shows "loop_inv clk now W (run_entry clk now e s) \<and> due now (run_entry clk now e s) = due now s"
proof (cases "te_active e \<and> te_id e \<in> tm_active_ids s")
  case False
  with inv show ?thesis by (auto simp: run_entry_def)
next
  case True
  let ?s = "s\<lparr>tm_out := tm_out s @ [Fired (te_id e) (te_expiry e) now]\<rparr>"
  let ?s1 = "run_callback clk (te_callback e) ?s"
  have "loop_inv clk now W ?s" "due now ?s = due now s" using inv by (simp_all add: loop_inv_def due_def)
  with loop_callback [OF this(1) clk delay W(1)]
  have s1: "loop_inv clk now W ?s1" "due now ?s1 = due now s" by simp_all
  show ?thesis
  proof (cases "0 < te_period_ms e \<and> te_id e \<in> tm_active_ids ?s1")
    case False
    then have "run_entry clk now e s = ?s1\<lparr>tm_active_ids := tm_active_ids ?s1 - {te_id e}\<rparr>"
      using True by (auto simp: run_entry_def Let_def)
    with s1 W(2) show ?thesis by (simp add: loop_inv_def due_def subset_Diff_insert)
  next
    case again: True
    let ?e1 = "e\<lparr>te_expiry := clk (tm_reads ?s1) + te_period_ms e * ns_per_ms\<rparr>"
    have "now < te_expiry ?e1" using s1(1) again by (simp add: loop_inv_def)
    from loop_push [OF s1(1) clk this, of "run_entry clk now e s"] delay W(1) s1(2) again True
    show ?thesis by (simp add: run_entry_def clock_now_def Let_def subset_insertI)
  qed
qed

lemma loop_pop:
  assumes inv: "tm_inv {} s" and h: "tm_heap s \<noteq> []" "te_expiry (hd (tm_heap s)) \<le> now"
    and loop: "loop_inv clk now W s"
  defines "s1 \<equiv> s\<lparr>tm_heap := butlast (pop_heap te_expiry (tm_heap s))\<rparr>"
  shows "loop_inv clk now (W - {hd (tm_heap s)}) s1" and "due now s = Suc (due now s1)"
    and "cb_all delayed (te_callback (hd (tm_heap s)))"
    and "\<forall>w \<in> W. cb_all (\<lambda>a. a \<noteq> ActCancel (te_id w)) (te_callback (hd (tm_heap s)))"
    and "te_id (hd (tm_heap s)) \<notin> te_id ` (W - {hd (tm_heap s)})"
proof -
  have "is_heap te_expiry (tm_heap s)" "distinct (map te_id (tm_heap s))"
    using inv by (auto simp: tm_inv_def)
  note p = pop_entry [OF this(1) h(1) this(2)]
  have set: "set (tm_heap s) = insert (hd (tm_heap s)) (set (tm_heap s1))"
    using p(4) by (simp add: s1_def)
  show "loop_inv clk now (W - {hd (tm_heap s)}) s1"
    using loop set unfolding loop_inv_def heap_all_def by (auto simp: s1_def)
  show "due now s = Suc (due now s1)"
    using p(6) h(2) by (simp add: due_def s1_def)
  have "hd (tm_heap s) \<in> set (tm_heap s)" using h(1) by simp
  with loop show "cb_all delayed (te_callback (hd (tm_heap s)))"
      "\<forall>w \<in> W. cb_all (\<lambda>a. a \<noteq> ActCancel (te_id w)) (te_callback (hd (tm_heap s)))"
    by (auto simp: loop_inv_def heap_all_def)
  have "W - {hd (tm_heap s)} \<subseteq> set (tm_heap s1)" using loop set by (auto simp: loop_inv_def)
  then show "te_id (hd (tm_heap s)) \<notin> te_id ` (W - {hd (tm_heap s)})"
    using p(5) unfolding s1_def by auto
qed

lemma run_entry_out:
  "\<exists>evs. tm_out (run_entry clk now e s) = tm_out s @ evs \<and>
     (te_active e \<and> te_id e \<in> tm_active_ids s \<longrightarrow> Fired (te_id e) (te_expiry e) now \<in> set evs)"
proof (cases "te_active e \<and> te_id e \<in> tm_active_ids s")
  case True
  let ?s = "s\<lparr>tm_out := tm_out s @ [Fired (te_id e) (te_expiry e) now]\<rparr>"
  obtain evs where "tm_out (run_callback clk (te_callback e) ?s) = tm_out ?s @ evs"
    using grows_callback [of "\<lambda>_ _ _. True" ?s clk "te_callback e"] by (auto simp: tm_grows_def)
  then show ?thesis using True by (auto simp: run_entry_def clock_now_def Let_def)
next
  case False
  then show ?thesis by (auto simp: run_entry_def)
qed

text \<open>The loop ends with nothing due left, and every due entry that is left alone is run.\<close>

lemma fire_due_complete:
  assumes "mono clk"
  shows "tm_inv {} s \<Longrightarrow> loop_inv clk now W s \<Longrightarrow> \<forall>w \<in> W. te_expiry w \<le> now \<and> te_active w \<Longrightarrow>
     due now s < fuel \<Longrightarrow>
     \<exists>s'. fire_due clk fuel now s = Some s' \<and> (\<forall>e \<in> set (tm_heap s'). now < te_expiry e) \<and>
       (\<forall>w \<in> W. \<exists>evs. tm_out s' = tm_out s @ evs \<and> Fired (te_id w) (te_expiry w) now \<in> set evs)"
proof (induction fuel arbitrary: s W)
  case (Suc fuel)
  have heap: "is_heap te_expiry (tm_heap s)" using Suc.prems(1) by (simp add: tm_inv_def)
  show ?case
  proof (cases "tm_heap s = [] \<or> now < te_expiry (hd (tm_heap s))")
    case True
    then have later: "\<forall>e \<in> set (tm_heap s). now < te_expiry e"
      using heap_hd_min [OF heap] by (auto intro: order_less_le_trans)
    moreover from later Suc.prems(2,3) have "W = {}" by (fastforce simp: loop_inv_def)
    ultimately show ?thesis using True by auto
  next
    case False
    let ?e = "hd (tm_heap s)" and ?s = "s\<lparr>tm_heap := butlast (pop_heap te_expiry (tm_heap s))\<rparr>"
    let ?s1 = "run_entry clk now ?e ?s"
    have h: "tm_heap s \<noteq> []" "te_expiry ?e \<le> now" using False by auto
    note pop = loop_pop [OF Suc.prems(1) h Suc.prems(2)]
    note popped = tm_inv_popped [OF Suc.prems(1) h(1)]
    have step: "loop_inv clk now (W - {?e}) ?s1" "due now ?s1 = due now ?s"
      using loop_run_entry [OF pop(1) assms pop(3) _ pop(5)] pop(4) by simp_all
    have inv1: "tm_inv {} ?s1" using popped by (intro tm_inv_run_entry) simp_all
    have fuel: "due now ?s1 < fuel" using step(2) pop(2) Suc.prems(4) by simp
    from Suc.IH [OF inv1 step(1) _ fuel] Suc.prems(3) obtain s' where
      s': "fire_due clk fuel now ?s1 = Some s'" "\<forall>e \<in> set (tm_heap s'). now < te_expiry e"
        "\<forall>w \<in> W - {?e}. \<exists>evs. tm_out s' = tm_out ?s1 @ evs \<and> Fired (te_id w) (te_expiry w) now \<in> set evs"
      by auto
    have "tm_grows (fires (\<lambda>i x n. x \<le> n)) ?s1 s'" by (rule grows_fire_due [OF inv1 s'(1)])
    then obtain rest where rest: "tm_out s' = tm_out ?s1 @ rest" by (auto simp: tm_grows_def)
    obtain first where first: "tm_out ?s1 = tm_out s @ first"
        "?e \<in> W \<Longrightarrow> Fired (te_id ?e) (te_expiry ?e) now \<in> set first"
      using run_entry_out [of clk now ?e ?s] popped(2) Suc.prems(3) by auto
    have "\<exists>evs. tm_out s' = tm_out s @ evs \<and> Fired (te_id w) (te_expiry w) now \<in> set evs"
      if "w \<in> W" for w
      using that s'(3) rest first by (cases "w = ?e") auto
    with s'(1,2) fire_due_unfold [OF Suc.prems(1) h] show ?thesis by auto
  qed
qed simp

text \<open>C16: Handling a readiness event ends and is complete: with a clock that does not go back and callbacks
  that add timers only with a positive delay, the loop ends (one turn for each due entry), afterwards
  every entry left expires after the reading the loop started with, and every timer that was due, active
  and not cancelled by some callback was run, with that reading.\<close>

theorem due_timers_fire:
  assumes "tm_run clk fuel ops (TimerManager True) = Some s" and "mono clk"
    and "heap_all delayed (tm_heap s)" and "length (tm_heap s) < fuel'"
  shows "\<exists>s'. handleTimerEvent clk fuel' True s = Some s' \<and>
     (\<forall>e \<in> set (tm_heap s'). clk (tm_reads s) < te_expiry e) \<and>
     (\<forall>e \<in> set (tm_heap s). te_active e \<and> te_expiry e \<le> clk (tm_reads s) \<and>
        heap_all (\<lambda>a. a \<noteq> ActCancel (te_id e)) (tm_heap s) \<longrightarrow>
        (\<exists>evs. tm_out s' = tm_out s @ evs \<and>
               Fired (te_id e) (te_expiry e) (clk (tm_reads s)) \<in> set evs))"
proof -
  define now where "now = clk (tm_reads s)"
  let ?s = "s\<lparr>tm_reads := tm_reads s + 1\<rparr>"
  define W where "W = {e \<in> set (tm_heap s). te_active e \<and> te_expiry e \<le> now \<and>
    heap_all (\<lambda>a. a \<noteq> ActCancel (te_id e)) (tm_heap s)}"
  have "programmed (TimerManager True)" by (simp add: programmed_def TimerManager_def)
  then have inv: "tm_inv {} s" and "programmed s"
    using tm_run_induct [where P = programmed, OF assms(1) tm_inv_init] programmed_exec by blast+
  then have ok: "tm_fd_ok s" by (simp add: programmed_def)
  have "due now ?s \<le> length (tm_heap s)"
    using size_filter_mset_lesseq [of _ "mset (tm_heap s)"] by (simp add: due_def)
  then have fuel: "due now ?s < fuel'" using assms(4) by simp
  have "now \<le> clk (Suc (tm_reads s))" using assms(2) by (simp add: now_def mono_def)
  moreover have "te_id ` W \<subseteq> tm_active_ids s" using inv by (auto simp: W_def tm_inv_def live_ids_def)
  ultimately have "loop_inv clk now W ?s" using assms(3) by (auto simp: loop_inv_def W_def)
  from fire_due_complete [OF assms(2) _ this _ fuel] inv obtain s1 where
    s1: "fire_due clk fuel' now ?s = Some s1" "\<forall>e \<in> set (tm_heap s1). now < te_expiry e"
      "\<forall>w \<in> W. \<exists>evs. tm_out s1 = tm_out s @ evs \<and> Fired (te_id w) (te_expiry w) now \<in> set evs"
    by (auto simp: W_def)
  have "handleTimerEvent clk fuel' True s = Some (resetTimerFd clk s1)"
    using s1(1) ok by (simp add: handleTimerEvent_def clock_now_def now_def)
  then show ?thesis
    using s1(2,3) unfolding W_def now_def [symmetric]
    by (intro exI [of _ "resetTimerFd clk s1"]) simp
qed

text \<open>A one-shot timer that is due when its event is handled; its callback starts another timer.\<close>

theorem due_timers_fire_witness:
  "\<exists>s s'. tm_run (\<lambda>n. n * 2000000) 1 [OpAdd 1 0 (Some (Callback [ActAdd 5 0 None]))]
      (TimerManager True :: string timers) = Some s \<and>
    handleTimerEvent (\<lambda>n. n * 2000000) 2 True s = Some s' \<and>
    (\<exists>evs. tm_out s' = tm_out s @ evs \<and> Fired 1 1000000 4000000 \<in> set evs)"
proof -
  let ?clk = "\<lambda>n. n * 2000000 :: nat"
  let ?e = "\<lparr>te_id = 1, te_expiry = 1000000, te_period_ms = 0,
    te_callback = Some (Callback [ActAdd 5 0 None]), te_active = True\<rparr>"
  let ?s = "\<lparr>tm_fd_ok = True, tm_heap = [?e], tm_next_id = 2, tm_active_ids = {1}, tm_its = (0, 1),
     tm_set_at = 2000000, tm_reads = 2, tm_out = []\<rparr> :: string timers"
  have add: "snd (addTimer ?clk 1 0 (Some (Callback [ActAdd 5 0 None])) (TimerManager True)) = ?s"
    by (simp add: TimerManager_def addTimer_def clock_now_def Let_def resetTimerFd_def)
  have run: "tm_run ?clk 1 [OpAdd 1 0 (Some (Callback [ActAdd 5 0 None]))] (TimerManager True) = Some ?s"
    by (simp only: tm_run.simps tm_exec.simps add bind.bind_lunit)
  have "mono ?clk" by (simp add: mono_def)
  moreover have "heap_all delayed (tm_heap ?s)" by (simp add: heap_all_def cb_all_def)
  ultimately obtain s' where s': "handleTimerEvent ?clk 2 True ?s = Some s'"
    "\<forall>e \<in> set (tm_heap ?s). te_active e \<and> te_expiry e \<le> ?clk (tm_reads ?s) \<and>
        heap_all (\<lambda>a. a \<noteq> ActCancel (te_id e)) (tm_heap ?s) \<longrightarrow>
        (\<exists>evs. tm_out s' = tm_out ?s @ evs \<and>
               Fired (te_id e) (te_expiry e) (?clk (tm_reads ?s)) \<in> set evs)"
    using due_timers_fire [OF run, of 2] by (auto simp del: One_nat_def)
  then have "\<exists>evs. tm_out s' = tm_out ?s @ evs \<and> Fired 1 1000000 4000000 \<in> set evs"
    by (simp add: heap_all_def cb_all_def)
  with run s'(1) show ?thesis by blast
qed

subsection \<open>Cancelled timers stay silent\<close>

text \<open>An id that was given out and is not active any more; nothing brings it back.\<close>

definition retired :: "nat \<Rightarrow> 'e timers \<Rightarrow> bool" where
  "retired i s \<longleftrightarrow> i \<notin> tm_active_ids s \<and> i < tm_next_id s"

lemma retired_add: "retired i s \<Longrightarrow> retired i (snd (addTimer clk d p cb s))"
  by (auto simp: retired_def addTimer_def clock_now_def Let_def)

lemma retired_cancel: "retired i s \<Longrightarrow> retired i (snd (cancelTimer j s))"
  by (auto simp: retired_def cancelTimer_def)

lemma retired_act: "retired i s \<Longrightarrow> retired i (run_act clk a s)"
  by (cases a) (simp_all add: retired_add retired_cancel, simp add: retired_def)

lemma retired_callback: "retired i s \<Longrightarrow> retired i (run_callback clk cb s)"
proof -
  have "retired i s \<Longrightarrow> retired i (fold (run_act clk) as s)" for as
    by (induction as arbitrary: s) (simp_all add: retired_act)
  then show "retired i s \<Longrightarrow> retired i (run_callback clk cb s)" by (simp add: run_callback_def)
qed

lemma retired_run_entry: "retired i s \<Longrightarrow> retired i (run_entry clk now e s)"
proof -
  assume ret: "retired i s"
  then have "retired i (run_callback clk cb (s\<lparr>tm_out := out\<rparr>))" for cb out
    by (intro retired_callback) (simp add: retired_def)
  with ret show ?thesis by (auto simp: run_entry_def clock_now_def Let_def retired_def)
qed

lemma silent_fire_due:
  "tm_inv {} s \<Longrightarrow> retired i s \<Longrightarrow> fire_due clk fuel now s = Some s' \<Longrightarrow>
     retired i s' \<and> tm_grows (fires (\<lambda>j x n. j \<noteq> i)) s s'"
proof (induction fuel arbitrary: s)
  case (Suc fuel)
  show ?case
  proof (cases "tm_heap s = [] \<or> now < te_expiry (hd (tm_heap s))")
    case True
    with Suc.prems show ?thesis by auto
  next
    case False
    let ?e = "hd (tm_heap s)" and ?s = "s\<lparr>tm_heap := butlast (pop_heap te_expiry (tm_heap s))\<rparr>"
    have ret: "retired i ?s" using Suc.prems(2) by (simp add: retired_def)
    have "tm_inv {} (run_entry clk now ?e ?s)"
      using False tm_inv_popped [OF Suc.prems(1)] by (intro tm_inv_run_entry) auto
    then have "retired i s' \<and> tm_grows (fires (\<lambda>j x n. j \<noteq> i)) (run_entry clk now ?e ?s) s'"
      using Suc.IH [OF _ retired_run_entry [OF ret]] Suc.prems(3) fire_due_unfold [OF Suc.prems(1)] False
      by (auto simp: not_less)
    moreover have "tm_grows (fires (\<lambda>j x n. j \<noteq> i)) ?s (run_entry clk now ?e ?s)"
      by (rule grows_run_entry) (use ret in \<open>auto simp: retired_def\<close>)
    ultimately show ?thesis by (auto simp: tm_grows_def)
  qed
qed simp

lemma silent_exec:
  "tm_inv {} s \<Longrightarrow> retired i s \<Longrightarrow> tm_exec clk fuel x s = Some s' \<Longrightarrow>
     retired i s' \<and> tm_grows (fires (\<lambda>j x n. j \<noteq> i)) s s'"
proof (cases x)
  case (OpHandle r)
  assume inv: "tm_inv {} s" and ret: "retired i s" and ex: "tm_exec clk fuel x s = Some s'"
  from ex OpHandle have "handleTimerEvent clk fuel r s = Some s'" by simp
  then show ?thesis
  proof (cases rule: tm_handle_cases)
    case (2 s1)
    have "retired i s1 \<and> tm_grows (fires (\<lambda>j x n. j \<noteq> i)) (s\<lparr>tm_reads := tm_reads s + 1\<rparr>) s1"
      by (rule silent_fire_due [OF _ _ 2(4)]) (use inv ret in \<open>simp_all add: retired_def\<close>)
    then have "retired i s1" "tm_grows (fires (\<lambda>j x n. j \<noteq> i)) s s1"
      by (simp_all add: tm_grows_def)
    then show ?thesis using 2(3) by (simp add: grows_reset) (simp add: retired_def)
  qed (use ret in simp)
qed (auto simp: grows_add grows_cancel retired_add retired_cancel)


text \<open>A periodic timer whose callback cancels nothing: cancelled from outside, it stays silent.\<close>

definition tick_run :: "string timers option" where
  "tick_run = tm_run (\<lambda>n. n * 5000000) 3
     [OpAdd 1 1 (Some (Callback [ActEffect ''tick''])), OpHandle True] (TimerManager True)"


text \<open>The periodic timer of the run \<open>tick_run\<close>.\<close>

theorem timers_wellformed_witness:
  "\<exists>s. tick_run = Some s \<and> tm_heap s \<noteq> [] \<and> is_heap te_expiry (tm_heap s) \<and>
    tm_active_ids s = live_ids (set (tm_heap s)) \<and> fired_due (tm_out s)"
proof -
  have eval: "tick_run \<noteq> None" "tm_heap (the tick_run) \<noteq> []"
    by (simp_all add: tick_run_def timer_eval)
  then have run: "tick_run = Some (the tick_run)" by simp
  from timers_wellformed [OF run [unfolded tick_run_def], folded tick_run_def] eval(2) run
  show ?thesis by blast
qed

end
