(* ===== verification/Descriptors.thy ===== *)
theory Descriptors
  imports TcpServer TimerManager
begin

text \<open>
  The descriptors that the reactor and the server open and close (\<open>core/reactor/\<close>). \<open>sv_open\<close> is the set of the
  descriptors that are open; whatever the kernel answers, it holds no more than those of the loop, those of the
  clients and the listening socket, so that the destructors leave nothing open.
\<close>

section \<open>Invariants of the server\<close>

lemma emit_loop: "(sv_emit ev s)\<lparr>sv_loop := l\<rparr> = sv_emit ev (s\<lparr>sv_loop := l\<rparr>)" "sv_loop (sv_emit ev s) = sv_loop s"
  by (simp_all add: sv_emit_def)

text \<open>
  A property of the server that its bookkeeping does not touch and that survives the changes of the table of
  clients and of their interest in events: every operation but \<open>start\<close> keeps it.
\<close>

locale server_invariant =
  fixes ok :: "server \<Rightarrow> bool"
  assumes calls: "ok (s\<lparr>sv_calls := n\<rparr>) = ok s"
    and threw: "ok (s\<lparr>sv_threw := b\<rparr>) = ok s"
    and emit: "ok (sv_emit ev s) = ok s"
    and client: "ok s \<Longrightarrow> ok (set_client fd c s)"
    and interest: "ok s \<Longrightarrow> ok (s\<lparr>sv_loop := snd (updateFd fd m (sv_loop s))\<rparr>)"
    and leave: "ok s \<Longrightarrow> ok (closeClient fd s)"
    and enter: "ok s \<Longrightarrow>
      ok (s\<lparr>sv_next := n, sv_open := insert fd (sv_open s),
           sv_clients := (if find_client fd s = None then (fd, c) # sv_clients s else sv_clients s),
           sv_ids := ids, sv_loop := snd (addFd ctl fd m h (sv_loop s))\<rparr>)"
    and unlisten: "ok s \<Longrightarrow> 0 \<le> sv_listen s \<Longrightarrow>
      ok (s\<lparr>sv_loop := removeFd (sv_listen s) (sv_loop s), sv_open := sv_open s - {sv_listen s}, sv_listen := -1\<rparr>)"
begin

lemma flush_end_ok: "ok s \<Longrightarrow> ok (flush_end fd c s)"
  by (simp add: flush_end_def leave interest)

lemma flush_ok: "ok s \<Longrightarrow> ok (flush net fd s)"
  by (auto simp: flush_def Let_def flush_end_ok emit client calls leave split: option.split send_result.split)

lemma retain_ok: "ok s \<Longrightarrow> ok (retain cid s)"
  by (auto simp: retain_def threw client split: option.split)

lemma release_ok: "ok s \<Longrightarrow> ok (release net cid s)"
  by (auto simp: release_def threw client flush_ok split: option.split)

lemma sendResponse_ok: "ok s \<Longrightarrow> ok (snd (sendResponse net cid d s))"
  by (auto simp: sendResponse_def Let_def threw leave flush_ok emit client split: option.split)

lemma run_message_ok: "ok s \<Longrightarrow> ok (run_message net acts s)"
  unfolding run_message_def
proof (induction acts arbitrary: s)
  case (Cons a acts)
  have "ok (run_sv_act net a s)" using Cons.prems by (cases a) (simp_all add: sendResponse_ok retain_ok release_ok)
  with Cons.IH show ?case by simp
qed simp

lemma recv_loop_ok: "ok s \<Longrightarrow> ok (snd (recv_loop net n fd c s))"
  by (induction net n fd c s rule: recv_loop.induct) (auto simp: Let_def calls emit client leave split: recv_result.split)

lemma line_loop_ok: "ok s \<Longrightarrow> ok (snd (line_loop net msg fd s))"
proof (induction net msg fd s rule: line_loop.induct)
  case (1 net msg fd s)
  show ?case
    by (subst line_loop.simps)
      (use 1 in \<open>auto simp: Let_def leave client emit run_message_ok split: option.split\<close>)
qed

lemma readClient_ok: "ok s \<Longrightarrow> ok (readClient net msg fd s)"
proof (cases "find_client fd s")
  case (Some c)
  assume s: "ok s"
  let ?c0 = "c\<lparr>cl_reading := True\<rparr>"
  obtain g1 s1 where r: "recv_loop net 4 fd ?c0 (set_client fd ?c0 s) = (g1, s1)" by fastforce
  obtain g2 s2 where l: "line_loop net msg fd s1 = (g2, s2)" by fastforce
  have "ok s1" using recv_loop_ok [of "set_client fd ?c0 s" net 4 fd ?c0] client [OF s] by (simp add: r)
  moreover from this have "ok s2" using line_loop_ok [of s1 net msg fd] by (simp add: l)
  ultimately show ?thesis using Some r l by (auto simp: readClient_def Let_def intro!: flush_ok client split: option.split)
qed (simp add: readClient_def)

lemma accept_loop_ok: "ok s \<Longrightarrow> ok (accept_loop net n s)"
proof (induction n arbitrary: s)
  case (Suc n)
  let ?s1 = "s\<lparr>sv_calls := sv_calls s + 1\<rparr>"
  have s1: "ok ?s1" using Suc.prems by (simp add: calls)
  show ?case
  proof (cases "net_accept net (sv_calls s) (sv_open s)")
    case (Accepted fd)
    let ?c = "\<lparr>cl_id = sv_next s, cl_in = [], cl_out = [], cl_eof = False, cl_reading = False, cl_pending = 0\<rparr>"
    define s3 where "s3 = sv_emit (Opened (sv_next s))
      (?s1\<lparr>sv_next := sv_next s + 1, sv_open := insert fd (sv_open ?s1),
           sv_clients := (if find_client fd ?s1 = None then (fd, ?c) # sv_clients ?s1 else sv_clients ?s1),
           sv_ids := (sv_ids s)(sv_next s \<mapsto> fd),
           sv_loop := snd (addFd (net_ctl net) fd (EPOLLIN OR EPOLLRDHUP) (Handler (OnClient fd)) (sv_loop ?s1))\<rparr>)"
    define added where "added = fst (addFd (net_ctl net) fd (EPOLLIN OR EPOLLRDHUP) (Handler (OnClient fd)) (sv_loop s))"
    have "accept_loop net (Suc n) s = accept_loop net n
        (if 16 \<le> length (sv_clients s) then ?s1 else if added then s3 else closeClient fd s3)"
      by (auto simp: Accepted Let_def emit_loop s3_def added_def split: prod.split)
    moreover have "ok s3" unfolding s3_def emit by (rule enter [OF s1])
    ultimately show ?thesis using s1 leave by (simp add: Suc.IH)
  qed (use Suc.IH [OF s1] s1 in simp_all)
qed simp

lemma client_event_ok: "ok s \<Longrightarrow> ok (client_event net msg fd events s)"
  by (simp add: client_event_def Let_def leave readClient_ok flush_ok)

lemma close_all_ok: "ok s \<Longrightarrow> ok (close_all s)"
proof (induction s rule: close_all.induct)
  case (1 s)
  then show ?case by (subst close_all.simps) (simp add: leave)
qed

lemma stop_ok: "ok s \<Longrightarrow> ok (stop s)"
  using unlisten [OF close_all_ok] by (simp add: stop_def Let_def close_all_ok)

text \<open>A server is started once, before anything else is done with it.\<close>

lemma sv_exec_ok: "ok s \<Longrightarrow> \<forall>sock bound. x \<noteq> SvStart sock bound \<Longrightarrow> ok (sv_exec net msg x s)"
  by (cases x) (auto simp: acceptClients_def accept_loop_ok client_event_ok sendResponse_ok retain_ok release_ok stop_ok
      split: option.split handler.split tcp_handler.split)

lemma sv_run_ok: "ok s \<Longrightarrow> \<forall>x \<in> set xs. \<forall>sock bound. x \<noteq> SvStart sock bound \<Longrightarrow> ok (sv_run net msg xs s)"
  by (induction xs arbitrary: s) (simp_all add: sv_exec_ok)

end

section \<open>What is open\<close>

definition fds_ok :: "int \<Rightarrow> int \<Rightarrow> int set \<Rightarrow> server \<Rightarrow> bool" where
  "fds_ok epoll wakeup base s \<longleftrightarrow>
     lp_epoll_fd (sv_loop s) = epoll \<and> lp_wakeup_fd (sv_loop s) = wakeup \<and>
     sv_open s \<subseteq> base \<union> fst ` set (sv_clients s) \<union> {fd. fd = sv_listen s \<and> 0 \<le> fd}"

lemma loop_ops_epoll_fd [simp]:
  "lp_epoll_fd (snd (addFd ctl fd ev h l)) = lp_epoll_fd l" "lp_epoll_fd (snd (updateFd fd ev l)) = lp_epoll_fd l"
  "lp_epoll_fd (removeFd fd l) = lp_epoll_fd l" "lp_wakeup_fd (removeFd fd l) = lp_wakeup_fd l"
  by (simp_all add: addFd_def updateFd_def removeFd_def Let_def split: option.splits)

lemma update_keys: "fst ` set (AList.update k v xs) = insert k (fst ` set xs)"
  by (induction xs) auto

lemma delete_keys: "fst ` set (AList.delete k xs) = fst ` set xs - {k}"
  by (induction xs) auto

interpretation fds: server_invariant "fds_ok epoll wakeup base" for epoll wakeup base
proof (unfold_locales, goal_cases)
  case (6 s fd)
  then show ?case by (auto simp: fds_ok_def closeClient_def sv_emit_def delete_keys split: option.split)
next
  case (7 s n fd c ids ctl m h)
  have "fd \<in> fst ` set (sv_clients s)" if "find_client fd s \<noteq> None"
    using that by (auto simp: map_of_eq_None_iff)
  with 7 show ?case by (auto simp: fds_ok_def)
qed (auto simp: fds_ok_def sv_emit_def set_client_def update_keys)

lemma close_all_empty: "sv_clients (close_all s) = []"
proof (induction s rule: close_all.induct)
  case (1 s)
  then show ?case by (simp add: close_all.simps [of s])
qed

lemma server_stopped: "sv_clients (stop s) = [] \<and> sv_listen (stop s) < 0"
  by (simp add: stop_def Let_def close_all_empty)

lemma start_fds:
  assumes "fds_ok epoll wakeup base s" and "sv_listen s < 0"
  shows "fds_ok epoll wakeup base (snd (start net sock bound s))"
  using assms by (auto simp: start_def fds_ok_def Let_def case_prod_unfold)

text \<open>A server that has been stopped has nothing open but what belongs to the loop.\<close>

lemma stop_closes: "fds_ok epoll wakeup base s \<Longrightarrow> sv_open (stop s) \<subseteq> base"
  using fds.stop_ok [of epoll wakeup base s] server_stopped [of s] by (auto simp: fds_ok_def)

section \<open>The destructors\<close>

text \<open>\<open>fds\<close> are the open descriptors; the destructor of the loop closes its own, that of the timers theirs.\<close>

definition loop_destroy :: "'c loop \<Rightarrow> int set \<Rightarrow> int set" where
  "loop_destroy l fds =
     (let fds1 = (if 0 \<le> lp_epoll_fd l then fds - {lp_epoll_fd l} else fds)
      in if 0 \<le> lp_wakeup_fd l then fds1 - {lp_wakeup_fd l} else fds1)"

definition timers_destroy :: "int \<Rightarrow> 'e timers \<Rightarrow> int set \<Rightarrow> int set" where
  "timers_destroy timer_fd t fds = (if tm_fd_ok t then fds - {timer_fd} else fds)"

text \<open>What the constructors open.\<close>

definition loop_fds :: "int \<Rightarrow> int \<Rightarrow> int \<Rightarrow> int set" where
  "loop_fds epoll wakeup timer = set (filter (\<lambda>fd. 0 \<le> fd) [epoll, wakeup, timer])"

lemma addTimer_fd_ok: "tm_fd_ok (snd (addTimer clk d p cb t)) = tm_fd_ok t"
  by (simp add: addTimer_def clock_now_def resetTimerFd_frame Let_def)

lemma nothing_open:
  assumes "fds_ok epoll wakeup (loop_fds epoll wakeup timer) s" and "tm_fd_ok t \<longleftrightarrow> 0 \<le> timer"
  shows "timers_destroy timer t (loop_destroy (sv_loop (stop s)) (sv_open (stop s))) = {}"
proof -
  have "lp_epoll_fd (sv_loop (stop s)) = epoll" "lp_wakeup_fd (sv_loop (stop s)) = wakeup"
    using fds.stop_ok [OF assms(1)] by (simp_all add: fds_ok_def)
  with stop_closes [OF assms(1)] assms(2) show ?thesis
    by (auto simp: timers_destroy_def loop_destroy_def loop_fds_def Let_def split: if_splits)
qed

end
