(* ===== verification/Lifecycle.thy ===== *)
theory Lifecycle
  imports VisionReplies VideoService RKNNEngine Preprocessor Descriptors
begin

text \<open>
  The whole program: \<open>main.cpp\<close> with \<open>start\<close>, \<open>stop\<close> and the destructor of \<open>app/VisionPipeline.cpp\<close>, composed of
  the models of the components. Between \<open>start\<close> and \<open>stop\<close> each component goes through operations of its own in
  any number and order. The answers of the operating system and of the libraries are arguments.
\<close>

section \<open>Stopping the video service\<close>

text \<open>
  The whole of \<open>stop\<close>: after it has begun, the thread that feeds the encoder and the RTSP thread go on until
  they end, so that the joins return. Four steps of the former are always enough.
\<close>

definition video_stop :: "(nat \<Rightarrow> run_env) \<Rightarrow> video \<Rightarrow> video" where
  "video_stop answers s =
     video_run ([StopNext] @ map (\<lambda>n. RunNext (answers n)) [0, 1, 2, 3] @ [StopNext, RtspEnd, StopNext, StopNext]) s"

definition loop_alive :: "video \<Rightarrow> bool" where
  "loop_alive s \<longleftrightarrow> (vd_rtsp_thread s \<longrightarrow> vd_context s \<and> vd_loop s)"

section \<open>The pipeline with its components\<close>

datatype timer_job = PublishMetricsJob

record agent =
  ag_vision :: vision
  ag_engine :: engine
  ag_preprocess :: preprocessor
  ag_timer_fd :: int
  ag_timers :: "timer_job timers"
  ag_server :: server
  ag_video :: "video option"
  ag_metrics_open :: bool
  ag_published :: nat

text \<open>
  What the construction and the start depend on: the clock, the descriptors, the directories and the metrics
  file, the model, GStreamer and the sockets.
\<close>

record agent_env =
  ae_origin :: nat
  ae_round :: "fp \<Rightarrow> int"
  ae_with_rga :: bool
  ae_clock :: "nat \<Rightarrow> nat"
  ae_timer_fd :: int
  ae_epoll_fd :: int
  ae_wakeup_fd :: int
  ae_directories :: "string option"
  ae_metrics_file :: bool
  ae_show :: "int \<Rightarrow> string"
  ae_model :: load_env
  ae_video :: "string \<Rightarrow> start_env"
  ae_net :: net
  ae_socket :: int
  ae_bound :: bool

definition agent_new :: "agent_env \<Rightarrow> config \<Rightarrow> agent result" where
  "agent_new env c =
     bind_result (VisionPipeline c (ae_origin env)) (\<lambda>s.
       bind_result (Preprocessor (ae_round env) (ae_with_rga env) (c_width c) (c_height c) (c_preprocess c = ''rga'')) (\<lambda>p.
         Inr \<lparr>ag_vision = s, ag_engine = RKNNEngine, ag_preprocess = p, ag_timer_fd = ae_timer_fd env,
              ag_timers = TimerManager (0 \<le> ae_timer_fd env),
              ag_server = TcpServer (EventLoop (net_ctl (ae_net env)) (ae_epoll_fd env) (ae_wakeup_fd env) (ae_timer_fd env))
                (loop_fds (ae_epoll_fd env) (ae_wakeup_fd env) (ae_timer_fd env)),
              ag_video = None, ag_metrics_open = False, ag_published = 0\<rparr>))"

text \<open>
  \<open>start\<close>: each part may throw, and then the parts before it stay as they are.
\<close>

definition start_server :: "agent_env \<Rightarrow> agent \<Rightarrow> cxx_error option \<times> agent" where
  "start_server env a =
     (let (ok, server) = TcpServer.start (ae_net env) (ae_socket env) (ae_bound env) (setMessageCallback (ag_server a));
          a1 = a\<lparr>ag_server := server\<rparr>
      in if \<not> ok then (Some (RuntimeError ''cannot bind control port''), a1)
         else
           let (_, timers) = addTimer (ae_clock env) 1000 5000 (Some (Callback [ActEffect PublishMetricsJob])) (ag_timers a1)
           in (None, a1\<lparr>ag_timers := timers, ag_vision := (ag_vision a1)\<lparr>vp_running := True\<rparr>\<rparr>))"

definition agent_start :: "agent_env \<Rightarrow> agent \<Rightarrow> cxx_error option \<times> agent" where
  "agent_start env a =
     (case ae_directories env of
        Some message \<Rightarrow> (Some (RuntimeError message), a)
      | None \<Rightarrow>
          if \<not> ae_metrics_file env then (Some (RuntimeError ''cannot create metrics file''), a)
          else
            let c = vp_config (ag_vision a);
                (loaded, engine) = loadModel (ae_show env) (ae_model env) (c_model c) (ag_engine a);
                a1 = a\<lparr>ag_metrics_open := True, ag_engine := engine\<rparr>
            in case loaded of
                 Inl e \<Rightarrow> (Some e, a1)
               | Inr _ \<Rightarrow>
                   if \<not> c_video c then start_server env a1
                   else
                     let (thrown, v) = video_start (ae_video env) (VideoService c (vp_metrics (ag_vision a1)) (vp_origin (ag_vision a1)));
                         a2 = a1\<lparr>ag_video := Some v\<rparr>
                     in case thrown of Some e \<Rightarrow> (Some e, a2) | None \<Rightarrow> start_server env a2)"

text \<open>What the components do while the program runs: each one's operations, in any number and order.\<close>

record agent_ops =
  ao_lib :: vision_lib
  ao_file :: "byte list option"
  ao_vision :: "vchoice list"
  ao_engine :: "engine_op list"
  ao_video :: "video_op list"
  ao_server :: "sv_op list"
  ao_message :: "nat \<Rightarrow> string \<Rightarrow> nat \<Rightarrow> sv_act list"

fun starts_server :: "sv_op \<Rightarrow> bool" where
  "starts_server (SvStart sock bound) = True"
| "starts_server _ = False"

definition agent_run :: "agent_env \<Rightarrow> agent_ops \<Rightarrow> agent \<Rightarrow> agent" where
  "agent_run env ops a =
     a\<lparr>ag_vision := vs_vision (vs_run (ao_lib ops) (ao_vision ops) (vs_start (ae_origin env) (ao_file ops) (ag_vision a))),
       ag_engine := eg_run (ae_show env) (ao_engine ops) (ag_engine a),
       ag_video := map_option (video_run (filter (\<lambda>x. x \<noteq> StopNext) (ao_video ops))) (ag_video a),
       ag_server := sv_run (ae_net env) (ao_message ops) (filter (\<lambda>x. \<not> starts_server x) (ao_server ops)) (ag_server a)\<rparr>"

text \<open>\<open>stop\<close>, once the threads have been joined.\<close>

definition agent_stop :: "vision_env \<Rightarrow> (nat \<Rightarrow> run_env) \<Rightarrow> agent \<Rightarrow> agent" where
  "agent_stop venv renv a =
     (let s = (ag_vision a)\<lparr>vp_running := False, vp_inference := q_close True (vp_inference (ag_vision a)),
                            vp_snapshots := q_close False (vp_snapshots (ag_vision a))\<rparr>;
          server = TcpServer.stop ((ag_server a)\<lparr>sv_loop := stop_wake (stop_running (stop_request (sv_loop (ag_server a))))\<rparr>);
          s1 = s\<lparr>vp_latest := None, vp_detection_frame := None, vp_capture_state := ''stopped''\<rparr>;
          a1 = a\<lparr>ag_vision := s1, ag_video := map_option (video_stop renv) (ag_video a), ag_server := server\<rparr>
      in if ag_metrics_open a1
         then a1\<lparr>ag_vision := publish_metrics venv s1, ag_metrics_open := False, ag_published := ag_published a1 + 1\<rparr>
         else a1)"

text \<open>
  The destructor stops, and the destructors of the members follow in the reverse order of their declarations:
  the video service, the server, the loop and its timers, and the engine.
\<close>

definition agent_destroy :: "vision_env \<Rightarrow> (nat \<Rightarrow> run_env) \<Rightarrow> agent \<Rightarrow> agent" where
  "agent_destroy venv renv a =
     (let a1 = agent_stop venv renv a;
          server = TcpServer.stop (ag_server a1);
          still_open = timers_destroy (ag_timer_fd a1) (ag_timers a1) (loop_destroy (sv_loop server) (sv_open server))
      in a1\<lparr>ag_video := map_option (video_stop renv) (ag_video a1), ag_server := server\<lparr>sv_open := still_open\<rparr>,
            ag_engine := RKNNEngine.destroy (ag_engine a1)\<rparr>)"

section \<open>The main program\<close>

text \<open>One round of the loop of \<open>main\<close>: whether the pipeline runs, whether \<open>poll\<close> reported a signal, the clock.\<close>

record poll_round =
  po_running :: bool
  po_signal :: bool
  po_now :: nat

text \<open>\<open>None\<close> is a loop that goes on after the given rounds, otherwise the number of rounds that polled in vain.\<close>

fun main_loop :: "int \<Rightarrow> nat \<Rightarrow> poll_round list \<Rightarrow> nat option" where
  "main_loop run_seconds began [] = None"
| "main_loop run_seconds began (p # ps) =
     (if \<not> po_running p \<or> po_signal p \<or> run_seconds \<noteq> 0 \<and> nat run_seconds * ns_per_s \<le> po_now p - began then Some 0
      else map_option Suc (main_loop run_seconds began ps))"

record main_env =
  me_args :: "string list"
  me_sigmask :: bool
  me_signal_fd :: int
  me_cast :: "rat \<Rightarrow> int"
  me_file :: "string \<Rightarrow> json result option"
  me_agent :: agent_env
  me_began :: nat
  me_stop :: vision_env
  me_run :: "nat \<Rightarrow> run_env"

text \<open>
  \<open>main\<close>: the exit status and the pipeline after its destruction, if one was constructed; nothing when the
  loop goes on. \<open>me_args\<close> are the arguments after the program's name.
\<close>

definition run_pipeline :: "main_env \<Rightarrow> agent_ops \<Rightarrow> poll_round list \<Rightarrow> config \<Rightarrow> agent \<Rightarrow> (int \<times> agent option) option" where
  "run_pipeline env ops polls c a =
     (case agent_start (me_agent env) a of
        (Some e, a1) \<Rightarrow> Some (1, Some (agent_destroy (me_stop env) (me_run env) a1))
      | (None, a1) \<Rightarrow>
          (case main_loop (c_run_seconds c) (me_began env) polls of
             None \<Rightarrow> None
           | Some _ \<Rightarrow>
               Some (0, Some (agent_destroy (me_stop env) (me_run env)
                 (agent_stop (me_stop env) (me_run env) (agent_run (me_agent env) ops a1))))))"

definition main :: "main_env \<Rightarrow> agent_ops \<Rightarrow> poll_round list \<Rightarrow> (int \<times> agent option) option" where
  "main env ops polls =
     (let argc = length (me_args env) + 1
      in if 2 < argc \<or> me_args env = [''--help''] then Some (if 2 < argc then 1 else 0, None)
         else if \<not> me_sigmask env \<or> me_signal_fd env < 0 then Some (1, None)
         else
           let path = (case me_args env of [] \<Rightarrow> ''configs/default.json'' | arg # _ \<Rightarrow> arg)
           in case load (me_cast env) path (me_file env path) of
                Inl e \<Rightarrow> Some (1, None)
              | Inr c \<Rightarrow>
                  (case agent_new (me_agent env) c of
                     Inl e \<Rightarrow> Some (1, None)
                   | Inr a \<Rightarrow> run_pipeline env ops polls c a))"

section \<open>The joins of the video service return\<close>

text \<open>Once \<open>stop\<close> has begun the frames are closed and nothing is healthy, and each step of the encoder's thread brings it nearer to its end.\<close>

definition halting :: "video \<Rightarrow> bool" where
  "halting s \<longleftrightarrow> vd_stop s = StopBegun \<and> \<not> vd_running s \<and> \<not> vd_healthy s \<and> bq_closed (vd_frames s) \<and> bq_q (vd_frames s) = []"

fun run_rank :: "run_pc \<Rightarrow> nat" where
  "run_rank RunNone = 0"
| "run_rank RunExit = 0"
| "run_rank RunBus = 1"
| "run_rank (RunLevel f) = 3"
| "run_rank _ = 2"

lemma run_rank_zero: "run_rank pc = 0 \<longleftrightarrow> pc = RunNone \<or> pc = RunExit"
  by (cases pc) simp_all

lemma run_step_halting:
  assumes "halting s"
  shows "halting (run_step env s) \<and> run_rank (vd_run (run_step env s)) \<le> run_rank (vd_run s) - 1"
proof (cases "vd_run s")
  case RunPop
  with assms show ?thesis by (simp add: halting_def run_step_def pop_def q_closed_def)
qed (use assms in \<open>simp_all add: halting_def run_step_def log_calls_def vd_count_def setError_def Let_def\<close>)

lemma run_steps_halting:
  "halting s \<Longrightarrow> halting (video_run (map (\<lambda>n. RunNext (env n)) ns) s) \<and>
     run_rank (vd_run (video_run (map (\<lambda>n. RunNext (env n)) ns) s)) \<le> run_rank (vd_run s) - length ns"
proof (induction ns arbitrary: s)
  case (Cons n ns)
  from run_step_halting [OF Cons.prems, of "env n"] Cons.IH [of "run_step (env n) s"] show ?case by auto
qed simp

lemma stop_step_begins: "vd_stop s \<in> {StopNot, StopDone} \<Longrightarrow> halting (stop_step s)"
  by (cases "vd_stop s") (simp_all add: stop_step_def halting_def q_close_def)

lemma run_rank_le: "run_rank pc \<le> 3"
  by (cases pc) simp_all

lemma loop_alive_update [simp]:
  "loop_alive (log_calls cs s) = loop_alive s" "loop_alive (vd_count k s) = loop_alive s"
  "loop_alive (setError m s) = loop_alive s" "loop_alive (note_session b r s) = loop_alive s"
  "loop_alive (drop_input s) = loop_alive s" "loop_alive (drop_media s) = loop_alive s"
  "loop_alive (packet_metrics pe b s) = loop_alive s"
  by (auto simp: loop_alive_def video_defs drop_input_def drop_media_def packet_metrics_def split: option.split)

lemma run_step_alive: "loop_alive (run_step env s) = loop_alive s"
  by (cases "vd_run s")
    (simp_all add: run_step_def loop_alive_def case_prod_unfold video_defs split: option.split)

lemma stop_step_alive: "loop_alive s \<Longrightarrow> stop_ok s \<Longrightarrow> loop_alive (stop_step s)"
  by (cases "vd_stop s")
    (auto simp: stop_step_def loop_alive_def stop_ok_def video_defs drop_input_def drop_media_def split: option.splits)

lemma video_step_alive: "loop_alive s \<Longrightarrow> stop_ok s \<Longrightarrow> loop_alive (video_step x s)"
proof (cases x)
  case (Packet env b)
  assume "loop_alive s"
  then show ?thesis
    by (simp add: Packet loop_alive_def sampleCallback_def onPacket_def rtsp_packet_def packet_metrics_def video_defs split: option.split)
next
  case (Configure media input)
  assume "loop_alive s"
  then show ?thesis
    by (simp add: Configure loop_alive_def configureMedia_def drop_input_def drop_media_def video_defs split: option.split)
next
  case Unprepare
  assume "loop_alive s"
  then show ?thesis by (simp add: Unprepare loop_alive_def unprepareMedia_def drop_input_def video_defs split: option.split)
next
  case (RunNext env)
  assume "loop_alive s"
  then show ?thesis by (simp add: RunNext run_step_alive)
next
  case StopNext
  assume "loop_alive s" "stop_ok s"
  then show ?thesis by (simp add: StopNext stop_step_alive)
qed (simp_all add: loop_alive_def vd_submit_def vd_trigger_def vd_reset_def)

lemma stop_step_down:
  assumes "vd_stop s = StopBegun" "run_rank (vd_run s) = 0" "loop_alive s"
  shows "vd_stop (video_run [StopNext, RtspEnd, StopNext, StopNext] s) = StopDone"
proof -
  define s1 where "s1 = video_step RtspEnd (stop_step s)"
  have "vd_stop (stop_step s) = StopDown" "vd_rtsp_thread (stop_step s) \<longrightarrow> vd_quit (stop_step s)"
    using assms by (auto simp: stop_step_def run_rank_zero loop_alive_def log_calls_def Let_def)
  then have s1: "vd_stop s1 = StopDown" "\<not> vd_rtsp_thread s1" by (auto simp: s1_def)
  have "vd_stop (stop_step s1) = StopMediaGone" using s1 by (simp add: stop_step_def)
  then have "vd_stop (stop_step (stop_step s1)) = StopDone" by (simp add: stop_step_def [of "stop_step s1"])
  then show ?thesis by (simp add: s1_def)
qed

text \<open>What holds of the service between its operations, and that \<open>stop\<close> always comes to its end.\<close>

definition video_ok :: "video \<Rightarrow> bool" where
  "video_ok s \<longleftrightarrow> (\<forall>obj. refs_ok obj s) \<and> stop_ok s \<and> loop_alive s"

lemma video_run_ok: "video_ok s \<Longrightarrow> video_ok (video_run xs s)"
  by (erule video_machine.machine_invariant) (auto simp: video_ok_def video_step_refs video_step_ok video_step_alive)

lemma video_stop_done:
  assumes "video_ok s" and "vd_stop s \<in> {StopNot, StopDone}"
  shows "video_ok (video_stop env s) \<and> vd_stop (video_stop env s) = StopDone"
proof -
  let ?s1 = "video_run (map (\<lambda>n. RunNext (env n)) [0, 1, 2, 3]) (stop_step s)"
  have "halting ?s1 \<and> run_rank (vd_run ?s1) \<le> run_rank (vd_run (stop_step s)) - length [0, 1, 2, 3 :: nat]"
    by (rule run_steps_halting [OF stop_step_begins [OF assms(2)]])
  moreover have "run_rank (vd_run (stop_step s)) \<le> 3" by (rule run_rank_le)
  ultimately have begun: "vd_stop ?s1 = StopBegun" "run_rank (vd_run ?s1) = 0" by (simp_all add: halting_def)
  have run: "video_stop env s = video_run [StopNext, RtspEnd, StopNext, StopNext] ?s1"
    by (simp add: video_stop_def)
  have "video_ok (video_run (StopNext # map (\<lambda>n. RunNext (env n)) [0, 1, 2, 3]) s)" by (rule video_run_ok [OF assms(1)])
  then have "loop_alive ?s1" by (simp add: video_ok_def)
  with begun have "vd_stop (video_stop env s) = StopDone" unfolding run by (rule stop_step_down)
  moreover have "video_ok (video_stop env s)" unfolding video_stop_def by (rule video_run_ok [OF assms(1)])
  ultimately show ?thesis by blast
qed

lemma video_start_ok: "video_ok (snd (video_start answers (VideoService c m t)))"
proof -
  have "refs_ok obj (video_service answers c m t) \<and> stop_ok (video_service answers c m t)" for obj
    by (rule video_service_ok)
  moreover have "loop_alive (video_service answers c m t)"
    by (simp add: loop_alive_def video_service_def video_start_def VideoService_def log_calls_def Let_def split: option.split)
  ultimately show ?thesis by (simp add: video_ok_def video_service_def)
qed

lemma video_start_stop: "vd_stop (snd (video_start answers (VideoService c m t))) = StopNot"
  by (simp add: video_start_def VideoService_def log_calls_def Let_def split: option.split)

lemma video_step_keeps_stop: "x \<noteq> StopNext \<Longrightarrow> vd_stop (video_step x s) = vd_stop s"
  by (cases x)
    (auto simp: sampleCallback_def onPacket_def rtsp_packet_def packet_metrics_def configureMedia_def unprepareMedia_def
      vd_submit_def vd_trigger_def vd_reset_def run_step_stop video_defs drop_input_def drop_media_def split: option.split)

lemma video_run_keeps_stop: "vd_stop (video_run (filter (\<lambda>x. x \<noteq> StopNext) xs) s) = vd_stop s"
  by (rule video_machine.machine_keeps) (simp add: video_step_keeps_stop)

section \<open>The program cleans up\<close>

definition reactor_ok :: "agent \<Rightarrow> bool" where
  "reactor_ok a \<longleftrightarrow>
     (\<exists>epoll wakeup. fds_ok epoll wakeup (loop_fds epoll wakeup (ag_timer_fd a)) (ag_server a)) \<and>
     (tm_fd_ok (ag_timers a) \<longleftrightarrow> 0 \<le> ag_timer_fd a)"

definition agent_ok :: "agent \<Rightarrow> bool" where
  "agent_ok a \<longleftrightarrow> eg_inv (ag_engine a) \<and>
     (case ag_video a of None \<Rightarrow> True | Some v \<Rightarrow> video_ok v \<and> vd_stop v \<in> {StopNot, StopDone}) \<and> reactor_ok a"

lemma EventLoop_fds:
  "fds_ok epoll wakeup (loop_fds epoll wakeup timer) (TcpServer (EventLoop ctl epoll wakeup timer) (loop_fds epoll wakeup timer))"
  by (simp add: fds_ok_def TcpServer_def EventLoop_def Let_def)

lemma agent_new_ok:
  assumes "agent_new env c = Inr a"
  shows "agent_ok a \<and> ag_published a = 0 \<and> sv_listen (ag_server a) < 0"
proof -
  have "reactor_ok a" unfolding reactor_ok_def
    using EventLoop_fds [of "ae_epoll_fd env" "ae_wakeup_fd env" "ae_timer_fd env" "net_ctl (ae_net env)"] assms
    by (intro conjI exI [of _ "ae_epoll_fd env"] exI [of _ "ae_wakeup_fd env"])
      (auto simp: agent_new_def bind_result_Inr TimerManager_def)
  then show ?thesis
    using assms by (auto simp: agent_new_def bind_result_Inr agent_ok_def eg_inv_def RKNNEngine_def TcpServer_def)
qed

lemma start_server_frame:
  "ag_engine (snd (start_server env a)) = ag_engine a \<and> ag_video (snd (start_server env a)) = ag_video a \<and>
   ag_published (snd (start_server env a)) = ag_published a"
  by (simp add: start_server_def Let_def case_prod_unfold)

lemma start_server_reactor:
  assumes "reactor_ok a" and "sv_listen (ag_server a) < 0"
  shows "reactor_ok (snd (start_server env a))"
proof -
  from assms(1) obtain epoll wakeup where fds: "fds_ok epoll wakeup (loop_fds epoll wakeup (ag_timer_fd a)) (ag_server a)"
    and timers: "tm_fd_ok (ag_timers a) \<longleftrightarrow> 0 \<le> ag_timer_fd a" by (auto simp: reactor_ok_def)
  have "fds_ok epoll wakeup (loop_fds epoll wakeup (ag_timer_fd a))
      (snd (TcpServer.start (ae_net env) (ae_socket env) (ae_bound env) (setMessageCallback (ag_server a))))"
    using fds assms(2) by (intro start_fds) (simp_all add: setMessageCallback_def fds_ok_def)
  with timers show ?thesis by (auto simp: start_server_def Let_def case_prod_unfold reactor_ok_def addTimer_fd_ok)
qed

lemma agent_start_ok:
  assumes "agent_ok a" "ag_published a = 0" "sv_listen (ag_server a) < 0"
  shows "agent_ok (snd (agent_start env a)) \<and> ag_published (snd (agent_start env a)) = 0"
proof -
  have "eg_inv (snd (loadModel sh m p (ag_engine a)))" for sh m p
    using assms(1) by (simp add: agent_ok_def loadModel_inv)
  moreover have same: "reactor_ok (a\<lparr>ag_metrics_open := True, ag_engine := e, ag_video := v\<rparr>)"
      "reactor_ok (a\<lparr>ag_metrics_open := True, ag_engine := e\<rparr>)" for e v
    using assms(1) by (simp_all add: agent_ok_def reactor_ok_def)
  moreover have "reactor_ok (snd (start_server env (a\<lparr>ag_metrics_open := True, ag_engine := e, ag_video := v\<rparr>)))"
      "reactor_ok (snd (start_server env (a\<lparr>ag_metrics_open := True, ag_engine := e\<rparr>)))" for e v
    using start_server_reactor [OF same(1)] start_server_reactor [OF same(2)] assms(3) by simp_all
  ultimately show ?thesis
    using assms video_start_ok video_start_stop
    by (auto simp: agent_start_def agent_ok_def start_server_frame Let_def case_prod_unfold split: option.split sum.split)
qed

lemma agent_run_reactor:
  assumes "reactor_ok a"
  shows "reactor_ok (agent_run env ops a)"
proof -
  let ?xs = "filter (\<lambda>x. \<not> starts_server x) (ao_server ops)"
  from assms obtain epoll wakeup where "fds_ok epoll wakeup (loop_fds epoll wakeup (ag_timer_fd a)) (ag_server a)"
    and timers: "tm_fd_ok (ag_timers a) \<longleftrightarrow> 0 \<le> ag_timer_fd a" by (auto simp: reactor_ok_def)
  note this(1)
  moreover have "\<forall>x \<in> set ?xs. \<forall>sock bound. x \<noteq> SvStart sock bound" by auto
  ultimately have "fds_ok epoll wakeup (loop_fds epoll wakeup (ag_timer_fd a)) (sv_run (ae_net env) (ao_message ops) ?xs (ag_server a))"
    by (rule fds.sv_run_ok)
  then show ?thesis using timers by (auto simp: agent_run_def reactor_ok_def)
qed

lemma agent_run_ok: "agent_ok a \<Longrightarrow> agent_ok (agent_run env ops a)"
  using agent_run_reactor [of a env ops]
  by (auto simp: agent_ok_def agent_run_def eg_run_inv video_run_ok video_run_keeps_stop split: option.splits)

lemma stop_flags_fds: "fds_ok epoll wakeup base s \<Longrightarrow> fds_ok epoll wakeup base (s\<lparr>sv_loop := stop_wake (stop_running (stop_request (sv_loop s)))\<rparr>)"
  by (simp add: fds_ok_def stop_wake_def stop_running_def stop_request_def)

lemma agent_stop_reactor: "reactor_ok a \<Longrightarrow> reactor_ok (agent_stop venv renv a)"
  using fds.stop_ok [OF stop_flags_fds] by (fastforce simp: agent_stop_def reactor_ok_def Let_def)

lemma agent_stop_ok: "agent_ok a \<Longrightarrow> agent_ok (agent_stop venv renv a)"
  using agent_stop_reactor [of a venv renv]
  by (auto simp: agent_ok_def agent_stop_def Let_def video_stop_done split: option.splits)

lemma agent_stop_result:
  "\<not> vp_running (ag_vision (agent_stop venv renv a)) \<and> \<not> ag_metrics_open (agent_stop venv renv a) \<and>
   ag_published (agent_stop venv renv a) = ag_published a + of_bool (ag_metrics_open a)"
  by (simp add: agent_stop_def publish_metrics_def Let_def)

text \<open>What is left of a pipeline after its destruction.\<close>

definition released :: "agent \<Rightarrow> bool" where
  "released a \<longleftrightarrow>
     \<not> vp_running (ag_vision a) \<and> \<not> ag_metrics_open a \<and> ag_published a \<le> 1 \<and>
     sv_clients (ag_server a) = [] \<and> sv_listen (ag_server a) < 0 \<and> sv_open (ag_server a) = {} \<and>
     (eg_log (ag_engine a) = [] \<or> (\<exists>cs. eg_log (ag_engine a) = Init # cs @ [Destroy] \<and> inferences cs)) \<and>
     (case ag_video a of None \<Rightarrow> True
      | Some v \<Rightarrow> \<forall>obj. count_list (vd_calls v) (Acquired obj) = count_list (vd_calls v) (Unref obj))"

lemma video_ok_released:
  "video_ok v \<Longrightarrow> vd_stop v = StopDone \<Longrightarrow> count_list (vd_calls v) (Acquired obj) = count_list (vd_calls v) (Unref obj)"
  by (cases obj) (auto simp: video_ok_def stop_ok_def refs_ok_def)

lemma agent_destroyed:
  assumes "agent_ok a" "ag_published a + of_bool (ag_metrics_open a) \<le> 1"
  shows "released (agent_destroy venv renv a)"
proof -
  let ?a1 = "agent_stop venv renv a"
  have ok: "agent_ok ?a1" by (rule agent_stop_ok [OF assms(1)])
  then have "eg_log (RKNNEngine.destroy (ag_engine ?a1)) = [] \<or>
      (\<exists>cs. eg_log (RKNNEngine.destroy (ag_engine ?a1)) = Init # cs @ [Destroy] \<and> inferences cs)"
    by (auto simp: agent_ok_def eg_inv_def destroy_def eg_call_def split: if_splits)
  moreover have "count_list (vd_calls (video_stop renv v)) (Acquired obj) = count_list (vd_calls (video_stop renv v)) (Unref obj)"
    if "ag_video ?a1 = Some v" for v obj
    using ok that video_stop_done [of v renv] by (intro video_ok_released) (auto simp: agent_ok_def)
  moreover have "timers_destroy (ag_timer_fd ?a1) (ag_timers ?a1)
      (loop_destroy (sv_loop (TcpServer.stop (ag_server ?a1))) (sv_open (TcpServer.stop (ag_server ?a1)))) = {}"
    using ok nothing_open by (fastforce simp: agent_ok_def reactor_ok_def)
  ultimately show ?thesis
    using assms(2) agent_stop_result [of venv renv a] server_stopped
    by (auto simp: released_def agent_destroy_def Let_def split: option.split)
qed

lemma agent_run_frame [simp]:
  "ag_published (agent_run env ops a) = ag_published a" "ag_metrics_open (agent_run env ops a) = ag_metrics_open a"
  by (simp_all add: agent_run_def)


section \<open>The loop of the main program\<close>

text \<open>With a limit on its run time and a clock that shows at least 200 ms more every round, \<open>main\<close> leaves its loop in time.\<close>

lemma main_loop_ends_from:
  assumes "0 < run_seconds" and "k \<le> nat run_seconds * 5"
    and "\<And>i. i < length polls \<Longrightarrow> began + (k + i) * (200 * ns_per_ms) \<le> po_now (polls ! i)"
    and "nat run_seconds * 5 < k + length polls"
  shows "\<exists>n. main_loop run_seconds began polls = Some n"
  using assms(2-4)
proof (induction polls arbitrary: k)
  case (Cons p ps)
  show ?case
  proof (cases "\<not> po_running p \<or> po_signal p \<or> nat run_seconds * ns_per_s \<le> po_now p - began")
    case True
    with assms(1) show ?thesis by auto
  next
    case False
    have "began + k * (200 * ns_per_ms) \<le> po_now p" using Cons.prems(2) [of 0] by simp
    moreover from False have "po_now p - began < nat run_seconds * ns_per_s" by simp
    ultimately have "k < nat run_seconds * 5" by linarith
    then have "k + 1 \<le> nat run_seconds * 5" by simp
    moreover have "began + (k + 1 + i) * (200 * ns_per_ms) \<le> po_now (ps ! i)" if "i < length ps" for i
      using Cons.prems(2) [of "Suc i"] that by (simp add: algebra_simps)
    ultimately have "\<exists>n. main_loop run_seconds began ps = Some n" using Cons.prems(3) by (intro Cons.IH [of "k + 1"]) simp_all
    with False assms(1) show ?thesis by auto
  qed
qed simp

lemma main_loop_ends:
  assumes "0 < run_seconds" and "\<And>i. i < length polls \<Longrightarrow> began + i * (200 * ns_per_ms) \<le> po_now (polls ! i)"
    and "nat run_seconds * 5 < length polls"
  shows "\<exists>n. main_loop run_seconds began polls = Some n"
  using main_loop_ends_from [of run_seconds 0 polls began] assms by simp

end
